(* ===== verification/GoStrings.thy ===== *)
theory GoStrings
  imports Prelude
begin

text \<open>
  The functions of Go's \<open>strings\<close>, \<open>strconv\<close> and \<open>fmt\<close> packages that the program
  calls, on byte strings.

  \<open>trim_space\<close> knows every white-space rune in its UTF-8 form. Case mapping (\<open>to_lower\<close>,
  \<open>equal_fold\<close>) is the ASCII mapping; the program applies it to host names, header names, tunnel
  types and log settings, which are ASCII, and bytes from 128 on are left alone.
\<close>

section \<open>Searching and splitting\<close>

definition has_prefix :: "string \<Rightarrow> string \<Rightarrow> bool" where
  "has_prefix s p \<longleftrightarrow> take (length p) s = p"

fun index_byte :: "string \<Rightarrow> char \<Rightarrow> nat option" where
  "index_byte [] c = None"
| "index_byte (x # s) c = (if x = c then Some 0 else map_option Suc (index_byte s c))"

definition last_index_byte :: "string \<Rightarrow> char \<Rightarrow> nat option" where
  "last_index_byte s c = map_option (\<lambda>i. length s - 1 - i) (index_byte (rev s) c)"

definition contains_byte :: "string \<Rightarrow> char \<Rightarrow> bool" where
  "contains_byte s c \<longleftrightarrow> c \<in> set s"

text \<open>\<open>strings.Split\<close> and \<open>strings.SplitN\<close> on a one-byte separator.\<close>

fun split_on :: "char \<Rightarrow> string \<Rightarrow> string list" where
  "split_on c [] = [[]]"
| "split_on c (x # s) =
     (if x = c then [] # split_on c s
      else case split_on c s of [] \<Rightarrow> [[x]] | p # ps \<Rightarrow> (x # p) # ps)"

fun split_n :: "char \<Rightarrow> nat \<Rightarrow> string \<Rightarrow> string list" where
  "split_n c 0 s = []"
| "split_n c (Suc 0) s = [s]"
| "split_n c (Suc (Suc n)) s =
     (case index_byte s c of
        None \<Rightarrow> [s]
      | Some i \<Rightarrow> take i s # split_n c (Suc n) (drop (Suc i) s))"

text \<open>\<open>strings.Cut\<close>: before, after, found.\<close>

definition cut_byte :: "string \<Rightarrow> char \<Rightarrow> (string \<times> string) option" where
  "cut_byte s c = map_option (\<lambda>i. (take i s, drop (Suc i) s)) (index_byte s c)"

definition trim_right_set :: "char set \<Rightarrow> string \<Rightarrow> string" where
  "trim_right_set cs s = rev (dropWhile (\<lambda>c. c \<in> cs) (rev s))"

section \<open>White space\<close>

definition ascii_space :: "char \<Rightarrow> bool" where
  "ascii_space c \<longleftrightarrow> c \<in> {CHR 0x09, CHR 0x0A, CHR 0x0B, CHR 0x0C, CHR 0x0D, CHR '' ''}"

text \<open>The white-space runes beyond ASCII: U+0085, U+00A0, U+1680, U+2000 to U+200A, U+2028, U+2029,
  U+202F, U+205F, U+3000.\<close>

definition wide_spaces :: "string list" where
  "wide_spaces =
     [[CHR 0xC2, CHR 0x85], [CHR 0xC2, CHR 0xA0], [CHR 0xE1, CHR 0x9A, CHR 0x80],
      [CHR 0xE2, CHR 0x80, CHR 0x80], [CHR 0xE2, CHR 0x80, CHR 0x81], [CHR 0xE2, CHR 0x80, CHR 0x82],
      [CHR 0xE2, CHR 0x80, CHR 0x83], [CHR 0xE2, CHR 0x80, CHR 0x84], [CHR 0xE2, CHR 0x80, CHR 0x85],
      [CHR 0xE2, CHR 0x80, CHR 0x86], [CHR 0xE2, CHR 0x80, CHR 0x87], [CHR 0xE2, CHR 0x80, CHR 0x88],
      [CHR 0xE2, CHR 0x80, CHR 0x89], [CHR 0xE2, CHR 0x80, CHR 0x8A], [CHR 0xE2, CHR 0x80, CHR 0xA8],
      [CHR 0xE2, CHR 0x80, CHR 0xA9], [CHR 0xE2, CHR 0x80, CHR 0xAF], [CHR 0xE2, CHR 0x81, CHR 0x9F],
      [CHR 0xE3, CHR 0x80, CHR 0x80]]"

text \<open>The number of bytes of the white-space rune a string starts with, given the wide runes in
  reading order (0: none).\<close>

definition lead_space :: "string list \<Rightarrow> string \<Rightarrow> nat" where
  "lead_space ws s =
     (case s of [] \<Rightarrow> 0 | c # _ \<Rightarrow>
        if ascii_space c then 1
        else if of_char c < (128 :: nat) then 0
        else (case find (has_prefix s) ws of None \<Rightarrow> 0 | Some p \<Rightarrow> length p))"

function trim_lead :: "string list \<Rightarrow> string \<Rightarrow> string" where
  "trim_lead ws s =
     (let n = lead_space ws s in if n = 0 \<or> s = [] then s else trim_lead ws (drop n s))"
  by pat_completeness auto
termination
  by (relation "measure (\<lambda>(ws, s). length s)") auto

declare trim_lead.simps [simp del]

text \<open>From the right the runes are read backwards, which trims the same suffixes: every wide rune
  starts with a byte that no rune has inside.\<close>

definition trim_space :: "string \<Rightarrow> string" where
  "trim_space s =
     rev (trim_lead (map rev wide_spaces) (rev (trim_lead wide_spaces s)))"

lemma trim_lead_Nil [simp]: "trim_lead ws [] = []"
  by (simp add: trim_lead.simps)

lemma trim_lead_id:
  "s \<noteq> [] \<Longrightarrow> \<not> ascii_space (hd s) \<Longrightarrow> of_char (hd s) < (128 :: nat) \<Longrightarrow> trim_lead ws s = s"
  by (cases s) (simp_all add: trim_lead.simps lead_space_def)

lemma trim_space_Nil [simp]: "trim_space [] = []"
  by (simp add: trim_space_def)

text \<open>A string that starts and ends with ASCII characters that are no spaces is trimmed already.\<close>

definition solid :: "string \<Rightarrow> bool" where
  "solid s \<longleftrightarrow> s = [] \<or> (\<not> ascii_space (hd s) \<and> of_char (hd s) < (128 :: nat)
     \<and> \<not> ascii_space (last s) \<and> of_char (last s) < (128 :: nat))"

lemma trim_space_solid: "solid s \<Longrightarrow> trim_space s = s"
  by (cases "s = []") (auto simp: trim_space_def solid_def trim_lead_id hd_rev)

section \<open>Case\<close>

definition lower_char :: "char \<Rightarrow> char" where
  "lower_char c =
     (let n = (of_char c :: nat) in if 65 \<le> n \<and> n \<le> 90 then char_of (n + 32) else c)"

definition to_lower :: "string \<Rightarrow> string" where
  "to_lower s = map lower_char s"

definition equal_fold :: "string \<Rightarrow> string \<Rightarrow> bool" where
  "equal_fold s t \<longleftrightarrow> to_lower s = to_lower t"

lemma to_lower_Nil_iff [simp]: "to_lower s = [] \<longleftrightarrow> s = []" "to_lower [] = []"
  by (simp_all add: to_lower_def)

lemma of_char_char_of [simp]: "n < 256 \<Longrightarrow> (of_char (char_of (n :: nat) :: char) :: nat) = n"
  by simp

lemma lower_char_idem [simp]: "lower_char (lower_char c) = lower_char c"
  by (simp add: lower_char_def Let_def)

lemma to_lower_idem [simp]: "to_lower (to_lower s) = to_lower s"
  by (simp add: to_lower_def)

lemma to_lower_append: "to_lower (s @ t) = to_lower s @ to_lower t"
  by (simp add: to_lower_def)

section \<open>Numbers\<close>

definition is_digit :: "char \<Rightarrow> bool" where
  "is_digit c \<longleftrightarrow> 48 \<le> (of_char c :: nat) \<and> (of_char c :: nat) \<le> 57"

definition digit_val :: "char \<Rightarrow> nat" where
  "digit_val c = of_char c - 48"

definition digit_char :: "nat \<Rightarrow> char" where
  "digit_char n = char_of (48 + n)"

text \<open>The value of a digit string, most significant digit first.\<close>

definition dec_val :: "string \<Rightarrow> nat" where
  "dec_val s = foldl (\<lambda>v c. 10 * v + digit_val c) 0 s"

fun nat_string :: "nat \<Rightarrow> string" where
  "nat_string n = (if n < 10 then [digit_char n] else nat_string (n div 10) @ [digit_char (n mod 10)])"

declare nat_string.simps [simp del]

text \<open>\<open>strconv.Atoi\<close>: an optional sign, at least one digit, nothing else, within \<open>int64\<close>.\<close>

definition atoi :: "string \<Rightarrow> int option" where
  "atoi s =
     (let neg = (has_prefix s ''-''); d = (if has_prefix s ''-'' \<or> has_prefix s ''+'' then drop 1 s else s)
      in if d = [] \<or> \<not> list_all is_digit d then None
         else let v = int (dec_val d) in
           if neg then (if v \<le> 2 ^ 63 then Some (- v) else None)
           else if v < 2 ^ 63 then Some v else None)"

text \<open>\<open>fmt.Sscanf(s, "%d", &n)\<close>: white space, an optional sign and the longest run of digits; what
  follows is ignored.\<close>

definition sscanf_d :: "string \<Rightarrow> int option" where
  "sscanf_d s = (let r = trim_lead wide_spaces s; sgn = takeWhile (\<lambda>c. c = CHR ''+'' \<or> c = CHR ''-'') (take 1 r)
      in atoi (sgn @ takeWhile is_digit (drop (length sgn) r)))"

lemma digit_char_props [simp]:
  "n < 10 \<Longrightarrow> is_digit (digit_char n)" "n < 10 \<Longrightarrow> digit_val (digit_char n) = n"
  "n < 10 \<Longrightarrow> digit_char n = CHR ''0'' \<longleftrightarrow> n = 0"
proof -
  assume n: "n < 10"
  show "is_digit (digit_char n)" "digit_val (digit_char n) = n"
    using n by (simp_all add: is_digit_def digit_char_def digit_val_def)
  have "digit_char n = CHR ''0'' \<longleftrightarrow> (of_char (digit_char n) :: nat) = of_char (CHR ''0'')"
    by (simp only: of_char_eq_iff)
  also have "\<dots> \<longleftrightarrow> n = 0"
    using n by (simp add: digit_char_def)
  finally show "digit_char n = CHR ''0'' \<longleftrightarrow> n = 0" .
qed

lemma dec_val_Nil [simp]: "dec_val [] = 0"
  by (simp add: dec_val_def)

lemma dec_val_snoc [simp]: "dec_val (s @ [c]) = 10 * dec_val s + digit_val c"
  by (simp add: dec_val_def)

lemma dec_val_nat_string [simp]: "dec_val (nat_string n) = n"
proof (induction n rule: nat_string.induct)
  case (1 n)
  show ?case
  proof (cases "n < 10")
    case True
    then show ?thesis
      using dec_val_snoc [of "[]"] by (simp add: nat_string.simps [of n])
  next
    case False
    then show ?thesis
      using "1.IH" by (simp add: nat_string.simps [of n])
  qed
qed

lemma nat_string_digits [simp]: "list_all is_digit (nat_string n)" "nat_string n \<noteq> []"
proof (induction n rule: nat_string.induct)
  case (1 n)
  {
    case 1
    then show ?case using "1.IH"(1) by (subst nat_string.simps) simp
  next
    case 2
    then show ?case by (subst nat_string.simps) simp
  }
qed

text \<open>A printed number has no leading zero.\<close>

lemma nat_string_hd: "hd (nat_string n) = CHR ''0'' \<longleftrightarrow> n = 0"
proof (induction n rule: nat_string.induct)
  case (1 n)
  show ?case
  proof (cases "n < 10")
    case True
    then show ?thesis by (simp add: nat_string.simps [of n])
  next
    case False
    then have "hd (nat_string n) = hd (nat_string (n div 10))"
      by (simp add: nat_string.simps [of n])
    then show ?thesis
      using "1.IH" False by auto
  qed
qed

lemma length_nat_string: "n < 10 \<Longrightarrow> length (nat_string n) = 1"
  by (simp add: nat_string.simps)

lemma nat_string_no:
  "\<not> is_digit c \<Longrightarrow> c \<notin> set (nat_string n)"
  using nat_string_digits(1) [of n] by (auto simp: list_all_iff)

section \<open>Splitting and joining\<close>

lemma split_on_ne [simp]: "split_on c s \<noteq> []"
  by (induction s) (auto split: list.splits)

lemma split_on_none: "c \<notin> set s \<Longrightarrow> split_on c s = [s]"
  by (induction s) auto

lemma split_on_append: "c \<notin> set s \<Longrightarrow> split_on c (s @ c # t) = s # split_on c t"
  by (induction s) auto

lemma index_byte_None: "index_byte s c = None \<longleftrightarrow> c \<notin> set s"
  by (induction s) auto

lemma index_byte_append: "c \<notin> set s \<Longrightarrow> index_byte (s @ c # t) c = Some (length s)"
  by (induction s) auto

lemma index_byte_Some:
  "index_byte s c = Some i \<Longrightarrow> s = take i s @ c # drop (Suc i) s \<and> c \<notin> set (take i s) \<and> i < length s"
  by (induction s arbitrary: i) (auto split: if_splits)

lemma last_index_byte_append: "c \<notin> set t \<Longrightarrow> last_index_byte (s @ c # t) c = Some (length s)"
  using index_byte_append [of c "rev t" "rev s"] by (simp add: last_index_byte_def)

lemma last_index_byte_None: "last_index_byte s c = None \<longleftrightarrow> c \<notin> set s"
  by (simp add: last_index_byte_def index_byte_None)

lemma sep_inj:
  fixes c :: char
  assumes "c \<notin> set s" "c \<notin> set s'"
  shows "s @ c # t = s' @ c # t' \<longleftrightarrow> s = s' \<and> t = t'"
  using index_byte_append [OF assms(1), of t] index_byte_append [OF assms(2), of t'] by auto

section \<open>Trimming twice\<close>

lemma lead_trim_lead [simp]: "lead_space ws (trim_lead ws s) = 0"
proof (induction ws s rule: trim_lead.induct)
  case (1 ws s)
  then show ?case
    by (cases "lead_space ws s = 0 \<or> s = []"; subst trim_lead.simps) (auto simp: Let_def lead_space_def)
qed

lemma trim_lead_fix: "lead_space ws s = 0 \<Longrightarrow> trim_lead ws s = s"
  by (simp add: trim_lead.simps)

lemma trim_lead_suffix: "\<exists>u. s = u @ trim_lead ws s"
proof (induction ws s rule: trim_lead.induct)
  case (1 ws s)
  show ?case
  proof (cases "lead_space ws s = 0 \<or> s = []")
    case False
    then obtain u where "drop (lead_space ws s) s = u @ trim_lead ws (drop (lead_space ws s) s)"
      using 1 by auto
    moreover have "trim_lead ws s = trim_lead ws (drop (lead_space ws s) s)"
      using False by (subst trim_lead.simps) (simp add: Let_def)
    ultimately have "s = (take (lead_space ws s) s @ u) @ trim_lead ws s"
      by (metis append.assoc append_take_drop_id)
    then show ?thesis by blast
  qed (simp add: trim_lead.simps)
qed

lemma lead_space_append:
  assumes "[] \<notin> set ws" "lead_space ws s \<noteq> 0"
  shows "lead_space ws (s @ t) \<noteq> 0"
proof (cases s)
  case (Cons c r)
  have p: "has_prefix s w \<Longrightarrow> has_prefix (s @ t) w" for w
    unfolding has_prefix_def by (metis append_take_drop_id append_assoc append_eq_conv_conj)
  show ?thesis
  proof (cases "ascii_space c")
    case False
    then obtain w where w: "find (has_prefix s) ws = Some w" "\<not> of_char c < (128 :: nat)"
      using assms(2) Cons by (auto simp: lead_space_def split: option.splits if_splits)
    then have "w \<in> set ws \<and> has_prefix s w" by (auto simp: find_Some_iff)
    then have "find (has_prefix (s @ t)) ws \<noteq> None"
      using p by (auto simp: find_None_iff)
    then obtain v where v: "find (has_prefix (s @ t)) ws = Some v" by blast
    then have "v \<in> set ws" by (auto simp: find_Some_iff)
    then have "v \<noteq> []" using assms(1) by auto
    then show ?thesis using v w(2) False Cons by (simp add: lead_space_def)
  qed (simp add: Cons lead_space_def)
qed (use assms in \<open>simp add: lead_space_def\<close>)

lemma trim_space_idem [simp]: "trim_space (trim_space s) = trim_space s"
proof -
  let ?l = "trim_lead wide_spaces s" and ?b = "map rev wide_spaces"
  obtain u where "rev ?l = u @ trim_lead ?b (rev ?l)"
    using trim_lead_suffix by blast
  then have l: "?l = trim_space s @ rev u"
    unfolding trim_space_def by (metis rev_append rev_rev_ident)
  have "[] \<notin> set wide_spaces" by (simp add: wide_spaces_def)
  from lead_space_append [OF this, of "trim_space s" "rev u"] l
  have "lead_space wide_spaces (trim_space s) = 0" by (metis lead_trim_lead)
  then have "trim_lead wide_spaces (trim_space s) = trim_space s" by (rule trim_lead_fix)
  then have "trim_space (trim_space s) = rev (trim_lead ?b (rev (trim_space s)))"
    by (subst trim_space_def) simp
  also have "rev (trim_space s) = trim_lead ?b (rev ?l)" by (simp add: trim_space_def)
  also have "trim_lead ?b (trim_lead ?b (rev ?l)) = trim_lead ?b (rev ?l)"
    by (rule trim_lead_fix) simp
  finally show ?thesis by (simp add: trim_space_def)
qed

text \<open>No wide rune reaches back over an ASCII character.\<close>

lemma wide_bytes: "w \<in> set wide_spaces \<Longrightarrow> w \<noteq> [] \<and> (\<forall>c \<in> set w. 128 \<le> (of_char c :: nat))"
  by (auto simp: wide_spaces_def)

lemma trim_space_ascii_head:
  assumes "p \<noteq> []" "\<not> ascii_space (hd p)" "of_char (hd p) < (128 :: nat)"
    and "trim_space t = t" "t \<noteq> []" "of_char (hd t) < (128 :: nat)"
  shows "trim_space (p @ t) = p @ t"
proof -
  let ?b = "map rev wide_spaces"
  have "rev t = trim_lead ?b (rev (trim_lead wide_spaces t))" using assms(4) by (simp add: trim_space_def rev_swap)
  then have z: "lead_space ?b (rev t) = 0" by (metis lead_trim_lead)
  have "lead_space ?b (rev t @ rev p) = 0"
  proof (cases "rev t")
    case (Cons c r)
    show ?thesis
    proof (cases "of_char c < (128 :: nat)")
      case True
      then show ?thesis using z Cons by (simp add: lead_space_def split: if_splits)
    next
      case False
      then have n: "\<not> ascii_space c" by (auto simp: ascii_space_def)
      have w0: "\<forall>w \<in> set ?b. \<not> has_prefix (rev t) w"
        using z n False Cons wide_bytes by (auto simp: lead_space_def find_None_iff find_Some_iff split: option.splits)
      have "\<not> has_prefix (rev t @ rev p) w" if w: "w \<in> set ?b" for w
      proof
        assume h: "has_prefix (rev t @ rev p) w"
        show False
        proof (cases "length w \<le> length t")
          case True
          then have "has_prefix (rev t) w" using h by (simp add: has_prefix_def)
          then show False using w0 w by blast
        next
          case False
          then have "w = rev t @ take (length w - length t) (rev p)" using h by (simp add: has_prefix_def)
          then have "hd t \<in> set w" using assms(5) by (metis UnCI hd_in_set set_append set_rev)
          then show False using w wide_bytes assms(6) by fastforce
        qed
      qed
      then have "find (has_prefix (rev t @ rev p)) ?b = None" by (simp add: find_None_iff)
      then show ?thesis using Cons n False by (simp add: lead_space_def)
    qed
  qed (use assms(5) in simp)
  then have "trim_lead ?b (rev (p @ t)) = rev (p @ t)" by (simp add: trim_lead_fix)
  moreover have "trim_lead wide_spaces (p @ t) = p @ t" using assms(1-3) by (intro trim_lead_id) auto
  ultimately show ?thesis by (simp add: trim_space_def)
qed

section \<open>Substrings\<close>

definition contains_str :: "string \<Rightarrow> string \<Rightarrow> bool" where
  "contains_str s p \<longleftrightarrow> list_ex (\<lambda>i. has_prefix (drop i s) p) [0..<length s + 1]"

end
