(* ===== verification/NetAddr.thy ===== *)
theory NetAddr
  imports GoStrings
begin

text \<open>
  Addresses as Go's \<open>net\<close> package has them: an \<open>IP\<close> is a byte slice (4 or 16 bytes, nil
  is the empty list), an \<open>IPNet\<close> an address and a mask. Parsing and printing follow
  \<open>net.ParseIP\<close>, \<open>net.ParseCIDR\<close>, \<open>IP.String\<close>, \<open>net.SplitHostPort\<close> and
  \<open>net.JoinHostPort\<close>.
\<close>

type_synonym ip = bytes

record ipnet =
  net_ip :: ip
  net_mask :: bytes

section \<open>Classification\<close>

definition v4_prefix :: bytes where
  "v4_prefix = replicate 10 0 @ [255, 255]"

definition to4 :: "ip \<Rightarrow> ip option" where
  "to4 i = (if length i = 4 then Some i
            else if length i = 16 \<and> take 12 i = v4_prefix then Some (drop 12 i) else None)"

definition ip_equal :: "ip \<Rightarrow> ip \<Rightarrow> bool" where
  "ip_equal a b =
     (if length a = length b then a = b
      else if length a = 4 \<and> length b = 16 then take 12 b = v4_prefix \<and> a = drop 12 b
      else if length a = 16 \<and> length b = 4 then take 12 a = v4_prefix \<and> drop 12 a = b
      else False)"

definition is_unspecified :: "ip \<Rightarrow> bool" where
  "is_unspecified i \<longleftrightarrow> ip_equal i (v4_prefix @ [0, 0, 0, 0]) \<or> ip_equal i (replicate 16 0)"

definition is_loopback :: "ip \<Rightarrow> bool" where
  "is_loopback i = (case to4 i of Some v4 \<Rightarrow> v4 ! 0 = 127 | None \<Rightarrow> ip_equal i (replicate 15 0 @ [1]))"

definition is_multicast :: "ip \<Rightarrow> bool" where
  "is_multicast i = (case to4 i of Some v4 \<Rightarrow> v4 ! 0 AND 0xF0 = 0xE0
                     | None \<Rightarrow> length i = 16 \<and> i ! 0 = 0xFF)"

definition is_link_local_multicast :: "ip \<Rightarrow> bool" where
  "is_link_local_multicast i =
     (case to4 i of Some v4 \<Rightarrow> v4 ! 0 = 224 \<and> v4 ! 1 = 0 \<and> v4 ! 2 = 0
      | None \<Rightarrow> length i = 16 \<and> i ! 0 = 0xFF \<and> i ! 1 AND 0x0F = 2)"

section \<open>Masks and containment\<close>

definition and_bytes :: "bytes \<Rightarrow> bytes \<Rightarrow> bytes" where
  "and_bytes a b = map2 (AND) a b"

definition mask_byte :: "nat \<Rightarrow> byte" where
  "mask_byte k = NOT (drop_bit k 255)"

text \<open>\<open>net.CIDRMask\<close> for the 32 and 128 bit families.\<close>

definition cidr_mask :: "nat \<Rightarrow> nat \<Rightarrow> bytes" where
  "cidr_mask ones bits = map (\<lambda>i. mask_byte (min 8 (ones - 8 * i))) [0..<bits div 8]"

text \<open>\<open>IPMask.Size\<close>: the number of leading ones if the mask is a prefix mask, else (0, 0).\<close>

definition byte_ones :: "byte \<Rightarrow> nat option" where
  "byte_ones b = find (\<lambda>k. mask_byte k = b) [0..<9]"

fun mask_ones :: "bytes \<Rightarrow> nat option" where
  "mask_ones [] = Some 0"
| "mask_ones (b # m) =
     (if b = 255 then map_option (\<lambda>n. n + 8) (mask_ones m)
      else case byte_ones b of None \<Rightarrow> None
        | Some k \<Rightarrow> if list_all (\<lambda>x. x = 0) m then Some k else None)"

definition mask_size :: "bytes \<Rightarrow> nat \<times> nat" where
  "mask_size m = (case mask_ones m of None \<Rightarrow> (0, 0) | Some n \<Rightarrow> (n, 8 * length m))"

text \<open>\<open>networkNumberAndMask\<close> and \<open>IPNet.Contains\<close>.\<close>

definition net_number_mask :: "ipnet \<Rightarrow> ip \<times> bytes" where
  "net_number_mask n =
     (let i = (case to4 (net_ip n) of Some v4 \<Rightarrow> v4 | None \<Rightarrow> net_ip n); m = net_mask n in
      if to4 (net_ip n) = None \<and> length (net_ip n) \<noteq> 16 then ([], [])
      else if length m = 4 then (if length i \<noteq> 4 then ([], []) else (i, m))
      else if length m = 16 then (if length i = 4 then (i, drop 12 m) else (i, m))
      else ([], []))"

definition net_contains :: "ipnet \<Rightarrow> ip \<Rightarrow> bool" where
  "net_contains n i =
     (let (nn, m) = net_number_mask n; x = (case to4 i of Some v4 \<Rightarrow> v4 | None \<Rightarrow> i) in
      length x = length nn \<and> and_bytes nn m = and_bytes x m)"

text \<open>\<open>IP.Mask\<close>; nil when the lengths do not fit together.\<close>

definition ip_mask :: "ip \<Rightarrow> bytes \<Rightarrow> ip" where
  "ip_mask i m =
     (let m' = (if length m = 16 \<and> length i = 4 \<and> take 12 m = replicate 12 255 then drop 12 m else m);
          i' = (if length m' = 4 \<and> length i = 16 \<and> take 12 i = v4_prefix then drop 12 i else i)
      in if length i' \<noteq> length m' then [] else and_bytes i' m')"

section \<open>Parsing\<close>

text \<open>One field of a dotted address: digits only, no leading zero, at most 255.\<close>

definition parse_octet :: "string \<Rightarrow> byte option" where
  "parse_octet f =
     (if f \<noteq> [] \<and> list_all is_digit f \<and> (length f = 1 \<or> hd f \<noteq> CHR ''0'') \<and> dec_val f \<le> 255
      then Some (of_nat (dec_val f)) else None)"

definition parse_ipv4_fields :: "string \<Rightarrow> bytes option" where
  "parse_ipv4_fields s =
     (case map parse_octet (split_on CHR ''.'' s) of
        [Some a, Some b, Some c, Some d] \<Rightarrow> Some [a, b, c, d]
      | _ \<Rightarrow> None)"

definition hex_digit_val :: "char \<Rightarrow> nat option" where
  "hex_digit_val c =
     (let n = (of_char c :: nat) in
      if 48 \<le> n \<and> n \<le> 57 then Some (n - 48)
      else if 97 \<le> n \<and> n \<le> 102 then Some (n - 87)
      else if 65 \<le> n \<and> n \<le> 70 then Some (n - 55) else None)"

definition is_hex :: "char \<Rightarrow> bool" where
  "is_hex c \<longleftrightarrow> hex_digit_val c \<noteq> None"

definition hex_val :: "string \<Rightarrow> nat" where
  "hex_val s = foldl (\<lambda>v c. 16 * v + (case hex_digit_val c of Some d \<Rightarrow> d | None \<Rightarrow> 0)) 0 s"

text \<open>The group loop of \<open>parseIPv6\<close>: the rest of the input, the bytes so far and where the
  ellipsis was. The result also has what is left of the input.\<close>

function v6_loop :: "string \<Rightarrow> bytes \<Rightarrow> nat option \<Rightarrow> (bytes \<times> nat option \<times> string) option" where
  "v6_loop s acc ell =
     (if 16 \<le> length acc then Some (acc, ell, s)
      else let d = takeWhile is_hex s; r = dropWhile is_hex s in
        if d = [] \<or> 4 < length d then None
        else if r \<noteq> [] \<and> hd r = CHR ''.'' then
          (if ell = None \<and> length acc \<noteq> 12 then None
           else if length acc + 4 > 16 then None
           else map_option (\<lambda>b. (acc @ b, ell, [])) (parse_ipv4_fields s))
        else let acc' = acc @ be16 (of_nat (hex_val d)) in
          if r = [] then Some (acc', ell, [])
          else if hd r \<noteq> CHR '':'' \<or> tl r = [] then None
          else if hd (tl r) = CHR '':'' then
            (if ell \<noteq> None then None
             else if tl (tl r) = [] then Some (acc', Some (length acc'), [])
             else v6_loop (tl (tl r)) acc' (Some (length acc')))
          else v6_loop (tl r) acc' ell)"
  by pat_completeness auto
termination
  by (relation "measure (\<lambda>(s, acc, ell). 16 - length acc)") auto

declare v6_loop.simps [simp del]

definition parse_ipv6 :: "string \<Rightarrow> bytes option" where
  "parse_ipv6 s =
     (if has_prefix s ''::'' \<and> length s = 2 then Some (replicate 16 0)
      else case (if has_prefix s ''::'' then v6_loop (drop 2 s) [] (Some 0) else v6_loop s [] None) of
        None \<Rightarrow> None
      | Some (b, ell, rest) \<Rightarrow>
          if rest \<noteq> [] then None
          else if length b < 16 then
            (case ell of None \<Rightarrow> None
             | Some e \<Rightarrow> Some (take e b @ replicate (16 - length b) 0 @ drop e b))
          else if ell \<noteq> None then None else Some b)"

text \<open>\<open>netip.ParseAddr\<close> without zones (\<open>ParseIP\<close> and \<open>ParseCIDR\<close> reject a zone, and a
  percent sign without one is an error): the first of the three characters decides.\<close>

definition parse_addr :: "string \<Rightarrow> bytes option" where
  "parse_addr s =
     (if CHR ''%'' \<in> set s then None
      else case find (\<lambda>c. c = CHR ''.'' \<or> c = CHR '':'') s of
        None \<Rightarrow> None
      | Some c \<Rightarrow> if c = CHR ''.'' then parse_ipv4_fields s else parse_ipv6 s)"

definition to16 :: "bytes \<Rightarrow> ip" where
  "to16 b = (if length b = 4 then v4_prefix @ b else b)"

definition parse_ip :: "string \<Rightarrow> ip" where
  "parse_ip s = (case parse_addr s of None \<Rightarrow> [] | Some b \<Rightarrow> to16 b)"

text \<open>\<open>net.ParseCIDR\<close>, the network part of its result.\<close>

definition parse_cidr :: "string \<Rightarrow> ipnet option" where
  "parse_cidr s =
     (case cut_byte s CHR ''/'' of
        None \<Rightarrow> None
      | Some (addr, m) \<Rightarrow>
          (case parse_addr addr of
             None \<Rightarrow> None
           | Some b \<Rightarrow>
               if m = [] \<or> \<not> list_all is_digit m \<or> dec_val m > 8 * length b then None
               else let k = cidr_mask (dec_val m) (8 * length b) in
                 Some \<lparr>net_ip = ip_mask (to16 b) k, net_mask = k\<rparr>))"

section \<open>Printing\<close>

definition hex_char :: "nat \<Rightarrow> char" where
  "hex_char n = (if n < 10 then char_of (48 + n) else char_of (87 + n))"

fun hex_string :: "nat \<Rightarrow> string" where
  "hex_string n = (if n < 16 then [hex_char n] else hex_string (n div 16) @ [hex_char (n mod 16)])"

declare hex_string.simps [simp del]

definition ipv4_string :: "bytes \<Rightarrow> string" where
  "ipv4_string b =
     nat_string (unat (b ! 0)) @ ''.'' @ nat_string (unat (b ! 1)) @ ''.'' @
     nat_string (unat (b ! 2)) @ ''.'' @ nat_string (unat (b ! 3))"

text \<open>The eight 16-bit groups, the longest run of at least two zero groups (the first one of that
  length) and the printed form.\<close>

definition v6_groups :: "bytes \<Rightarrow> nat list" where
  "v6_groups b = map (\<lambda>i. 256 * unat (b ! (2 * i)) + unat (b ! (2 * i + 1))) [0..<8]"

definition zero_run :: "nat list \<Rightarrow> nat \<Rightarrow> nat" where
  "zero_run gs i = length (takeWhile (\<lambda>g. g = 0) (drop i gs))"

definition best_run :: "nat list \<Rightarrow> nat option" where
  "best_run gs =
     foldl (\<lambda>best i. let l = zero_run gs i in
        if 2 \<le> l \<and> (case best of None \<Rightarrow> True | Some j \<Rightarrow> zero_run gs j < l) then Some i else best)
       None [0..<length gs]"

fun colon_sep :: "string list \<Rightarrow> string" where
  "colon_sep [] = []"
| "colon_sep [x] = x"
| "colon_sep (x # y # xs) = x @ '':'' @ colon_sep (y # xs)"

definition ipv6_string :: "bytes \<Rightarrow> string" where
  "ipv6_string b =
     (let gs = v6_groups b in
      case best_run gs of
        None \<Rightarrow> colon_sep (map hex_string gs)
      | Some i \<Rightarrow>
          colon_sep (map hex_string (take i gs)) @ ''::'' @
          colon_sep (map hex_string (drop (i + zero_run gs i) gs)))"

definition ip_string :: "ip \<Rightarrow> string" where
  "ip_string i =
     (if length i = 0 then ''<nil>''
      else if length i \<noteq> 4 \<and> length i \<noteq> 16 then
        ''?'' @ concat (map (\<lambda>b. [hex_char (unat b div 16), hex_char (unat b mod 16)]) i)
      else case to4 i of Some v4 \<Rightarrow> ipv4_string v4 | None \<Rightarrow> ipv6_string i)"

section \<open>Host and port\<close>

definition split_host_port :: "string \<Rightarrow> (string \<times> string) option" where
  "split_host_port s =
     (case last_index_byte s CHR '':'' of
        None \<Rightarrow> None
      | Some i \<Rightarrow>
          if hd s = CHR ''['' then
            (case index_byte s CHR '']'' of
               None \<Rightarrow> None
             | Some e \<Rightarrow>
                 if e + 1 \<noteq> i then None
                 else if contains_byte (drop 1 s) CHR ''['' \<or> contains_byte (drop (e + 1) s) CHR '']''
                 then None
                 else Some (take (e - 1) (drop 1 s), drop (i + 1) s))
          else if contains_byte (take i s) CHR '':'' then None
          else if contains_byte s CHR ''['' \<or> contains_byte s CHR '']'' then None
          else Some (take i s, drop (i + 1) s))"

definition join_host_port :: "string \<Rightarrow> string \<Rightarrow> string" where
  "join_host_port h p = (if contains_byte h CHR '':'' then ''['' @ h @ '']:'' @ p else h @ '':'' @ p)"

section \<open>Printing and parsing IPv4\<close>

lemma parse_octet_nat_string [simp]: "parse_octet (nat_string (unat (b :: byte))) = Some b"
proof -
  have "unat b \<le> 255" using unat_byte_less [of b] by simp
  moreover have "length (nat_string (unat b)) = 1 \<or> hd (nat_string (unat b)) \<noteq> CHR ''0''"
    using nat_string_hd [of "unat b"] length_nat_string [of "unat b"] by auto
  ultimately show ?thesis by (simp add: parse_octet_def)
qed

lemma dot_not_digit [simp]: "\<not> is_digit CHR ''.''" "\<not> is_digit CHR '':''" "\<not> is_digit CHR ''%''"
  "\<not> is_digit CHR ''/''"
  by (simp_all add: is_digit_def)

lemma nat_string_sep [simp]:
  "CHR ''.'' \<notin> set (nat_string n)" "CHR '':'' \<notin> set (nat_string n)" "CHR ''%'' \<notin> set (nat_string n)"
  "CHR ''/'' \<notin> set (nat_string n)"
  by (simp_all add: nat_string_no)

lemma split_ipv4_string:
  "split_on CHR ''.'' (ipv4_string b) =
     [nat_string (unat (b ! 0)), nat_string (unat (b ! 1)), nat_string (unat (b ! 2)), nat_string (unat (b ! 3))]"
  by (simp add: ipv4_string_def split_on_append split_on_none)

lemma find_skip: "list_all (\<lambda>c. \<not> P c) s \<Longrightarrow> find P (s @ t) = find P t"
  by (induction s) auto

lemma find_dot_nat_string:
  "find (\<lambda>c. c = CHR ''.'' \<or> c = CHR '':'') (nat_string n @ t) = find (\<lambda>c. c = CHR ''.'' \<or> c = CHR '':'') t"
  using nat_string_sep(1,2) [of n] by (intro find_skip) (auto simp: list_all_iff)

lemma parse_addr_ipv4_string:
  assumes "length b = 4"
  shows "parse_addr (ipv4_string b) = Some b"
proof -
  have b: "b = [b ! 0, b ! 1, b ! 2, b ! 3]"
    using assms by (intro nth_equalityI) (auto simp: eval_nat_numeral less_Suc_eq)
  have "parse_ipv4_fields (ipv4_string b) = Some [b ! 0, b ! 1, b ! 2, b ! 3]"
    by (simp add: parse_ipv4_fields_def split_ipv4_string)
  moreover have "find (\<lambda>c. c = CHR ''.'' \<or> c = CHR '':'') (ipv4_string b) = Some CHR ''.''"
    by (simp add: ipv4_string_def find_dot_nat_string)
  moreover have "CHR ''%'' \<notin> set (ipv4_string b)"
    by (simp add: ipv4_string_def)
  ultimately show ?thesis
    using b by (simp add: parse_addr_def)
qed

section \<open>Printing and parsing IPv6\<close>

lemma hex_char_val [simp]: "n < 16 \<Longrightarrow> hex_digit_val (hex_char n) = Some n"
  by (auto simp: hex_digit_val_def hex_char_def)

lemma is_hex_char [simp]: "n < 16 \<Longrightarrow> is_hex (hex_char n)"
  by (simp add: is_hex_def)

lemma hex_val_snoc [simp]: "n < 16 \<Longrightarrow> hex_val (s @ [hex_char n]) = 16 * hex_val s + n"
  by (simp add: hex_val_def)

lemma hex_val_hex_string [simp]: "hex_val (hex_string n) = n"
proof (induction n rule: hex_string.induct)
  case (1 n)
  show ?case
  proof (cases "n < 16")
    case True
    then show ?thesis
      by (simp add: hex_string.simps [of n] hex_val_def)
  next
    case False
    then show ?thesis
      using "1.IH" by (simp add: hex_string.simps [of n])
  qed
qed

lemma hex_string_hex [simp]: "list_all is_hex (hex_string n)" "hex_string n \<noteq> []"
proof (induction n rule: hex_string.induct)
  case (1 n)
  {
    case 1
    then show ?case using "1.IH"(1) by (subst hex_string.simps) simp
  next
    case 2
    then show ?case by (subst hex_string.simps) simp
  }
qed

lemma length_hex_string: "n < 16 ^ Suc k \<Longrightarrow> length (hex_string n) \<le> Suc k"
proof (induction k arbitrary: n)
  case 0
  then show ?case by (simp add: hex_string.simps)
next
  case (Suc k)
  have "n div 16 < 16 ^ Suc k"
    using Suc.prems by (simp add: less_mult_imp_div_less mult.commute)
  then show ?case
    using Suc.IH by (subst hex_string.simps) simp
qed

lemma not_hex [simp]: "\<not> is_hex CHR '':''" "\<not> is_hex CHR ''.''" "\<not> is_hex CHR ''%''" "\<not> is_hex CHR ''/''"
  by (simp_all add: is_hex_def hex_digit_val_def)

lemma hex_string_sep [simp]:
  "CHR ''.'' \<notin> set (hex_string n)" "CHR '':'' \<notin> set (hex_string n)" "CHR ''%'' \<notin> set (hex_string n)"
  "CHR ''/'' \<notin> set (hex_string n)"
  using hex_string_hex(1) [of n] by (auto simp: list_all_iff)

definition enc_groups :: "nat list \<Rightarrow> bytes" where
  "enc_groups gs = concat (map (\<lambda>g. be16 (of_nat g)) gs)"

lemma length_enc_groups [simp]: "length (enc_groups gs) = 2 * length gs"
  by (induction gs) (simp_all add: enc_groups_def)

lemma enc_groups_simps [simp]:
  "enc_groups [] = []" "enc_groups (g # gs) = be16 (of_nat g) @ enc_groups gs"
  "enc_groups (gs @ hs) = enc_groups gs @ enc_groups hs"
  by (simp_all add: enc_groups_def)

lemma take_drop_hex:
  assumes "r = [] \<or> \<not> is_hex (hd r)"
  shows "takeWhile is_hex (hex_string g @ r) = hex_string g" "dropWhile is_hex (hex_string g @ r) = r"
proof -
  have h: "\<forall>c \<in> set (hex_string g). is_hex c"
    using hex_string_hex(1) by (simp add: list_all_iff)
  show "takeWhile is_hex (hex_string g @ r) = hex_string g"
    using h assms by (cases r) (auto simp: takeWhile_append2)
  show "dropWhile is_hex (hex_string g @ r) = r"
    using h assms by (cases r) (auto simp: dropWhile_append2)
qed

lemma take_drop_hex_end [simp]:
  "takeWhile is_hex (hex_string g) = hex_string g" "dropWhile is_hex (hex_string g) = []"
  by (metis append_Nil2 take_drop_hex(1)) (metis append_Nil2 take_drop_hex(2))

text \<open>One group, then the end, a separator and more, or the ellipsis.\<close>

lemma v6_group_end:
  assumes "g < 65536" and "length acc < 16"
  shows "v6_loop (hex_string g) acc ell = Some (acc @ be16 (of_nat g), ell, [])"
  using assms length_hex_string [of g 3]
  by (subst v6_loop.simps) (simp add: Let_def)

lemma v6_group_more:
  assumes "g < 65536" and "length acc < 16" and "t \<noteq> []" and "hd t \<noteq> CHR '':''"
  shows "v6_loop (hex_string g @ CHR '':'' # t) acc ell = v6_loop t (acc @ be16 (of_nat g)) ell"
  using assms take_drop_hex [of "CHR '':'' # t" g] length_hex_string [of g 3]
  by (subst v6_loop.simps) (simp add: Let_def)

lemma v6_group_ellipsis:
  assumes "g < 65536" and "length acc < 16"
  shows "v6_loop (hex_string g @ ''::'' @ t) acc None =
    (if t = [] then Some (acc @ be16 (of_nat g), Some (length acc + 2), [])
     else v6_loop t (acc @ be16 (of_nat g)) (Some (length acc + 2)))"
  using assms take_drop_hex [of "''::'' @ t" g] length_hex_string [of g 3]
  by (subst v6_loop.simps) (simp add: Let_def)

abbreviation hex_groups :: "nat list \<Rightarrow> string" where
  "hex_groups gs \<equiv> colon_sep (map hex_string gs)"

lemma hex_groups_start:
  assumes "gs \<noteq> []"
  shows "hex_groups gs @ r \<noteq> []" "hd (hex_groups gs @ r) \<noteq> CHR '':''"
proof -
  obtain g hs where gs: "gs = g # hs" using assms by (cases gs) auto
  obtain c u where c: "hex_string g = c # u" "is_hex c"
    using hex_string_hex [of g] by (cases "hex_string g") auto
  then have "c \<noteq> CHR '':''" by auto
  with c gs show "hex_groups gs @ r \<noteq> []" "hd (hex_groups gs @ r) \<noteq> CHR '':''"
    by (cases hs; simp)+
qed

lemma v6_loop_groups:
  assumes "gs \<noteq> []" and "\<forall>g \<in> set gs. g < 65536" and "length acc + 2 * length gs \<le> 16"
  shows "v6_loop (hex_groups gs) acc ell = Some (acc @ enc_groups gs, ell, [])"
  using assms
proof (induction gs arbitrary: acc)
  case (Cons g gs)
  show ?case
  proof (cases gs)
    case Nil
    then show ?thesis using Cons.prems by (simp add: v6_group_end)
  next
    case (Cons h hs)
    have "v6_loop (hex_string g @ CHR '':'' # hex_groups gs) acc ell
        = v6_loop (hex_groups gs) (acc @ be16 (of_nat g)) ell"
      using Cons Cons.prems hex_groups_start [of gs "[]"] by (intro v6_group_more) auto
    then show ?thesis
      using Cons Cons.prems Cons.IH [of "acc @ be16 (of_nat g)"] by simp
  qed
qed simp

lemma v6_loop_ellipsis:
  assumes "gs \<noteq> []" and "\<forall>g \<in> set gs. g < 65536" and "length acc + 2 * length gs \<le> 16"
  shows "v6_loop (hex_groups gs @ ''::'' @ t) acc None =
    (if t = [] then Some (acc @ enc_groups gs, Some (length acc + 2 * length gs), [])
     else v6_loop t (acc @ enc_groups gs) (Some (length acc + 2 * length gs)))"
  using assms
proof (induction gs arbitrary: acc)
  case (Cons g gs)
  show ?case
  proof (cases gs)
    case Nil
    have "v6_loop (hex_groups [g] @ ''::'' @ t) acc None = v6_loop (hex_string g @ ''::'' @ t) acc None"
      by simp
    also note v6_group_ellipsis
    finally show ?thesis using Nil Cons.prems by simp
  next
    case (Cons h hs)
    have "v6_loop (hex_string g @ CHR '':'' # (hex_groups gs @ ''::'' @ t)) acc None
        = v6_loop (hex_groups gs @ ''::'' @ t) (acc @ be16 (of_nat g)) None"
      using Cons Cons.prems hex_groups_start [of gs "''::'' @ t"] by (intro v6_group_more) auto
    then show ?thesis
      using Cons Cons.prems Cons.IH [of "acc @ be16 (of_nat g)"] by simp
  qed
qed simp

lemma v6_groups_props:
  assumes "length b = 16"
  shows "length (v6_groups b) = 8" "\<forall>g \<in> set (v6_groups b). g < 65536" "enc_groups (v6_groups b) = b"
proof -
  show "length (v6_groups b) = 8" by (simp add: v6_groups_def)
  have lt: "256 * unat (x :: byte) + unat (y :: byte) < 65536" for x y
    using unat_byte_less [of x] unat_byte_less [of y] by simp
  then show "\<forall>g \<in> set (v6_groups b). g < 65536"
    by (auto simp: v6_groups_def)
  have pair: "be16 (of_nat (256 * unat x + unat y)) = [x, y]" for x y :: byte
  proof -
    have "push_bit 8 (ucast x) AND ucast y = (0 :: 16 word)"
      by (rule bit_word_eqI) (auto simp: bit_simps)
    from disjunctive_add_eq_or [OF this]
    have "unat (rd16 [x, y]) = unat (push_bit 8 (ucast x :: 16 word) + ucast y)"
      by simp
    also have "\<dots> = 256 * unat x + unat y"
      using unat_byte_less [of x] unat_byte_less [of y]
      by (simp add: unat_word_ariths unsigned_push_bit_eq unsigned_ucast_eq take_bit_eq_mod push_bit_eq_mult)
    finally have e: "unat (rd16 [x, y]) = 256 * unat x + unat y" .
    have "of_nat (256 * unat x + unat y) = rd16 [x, y]"
      by (simp only: word_unat_eq_iff e unat_word16_of_nat [OF lt])
    then show ?thesis using be16_rd16 [of "[x, y]"] by simp
  qed
  have pair': "be16 (256 * ucast x + ucast y) = [x, y]" for x y :: byte
    using pair [of x y] by simp
  have "enc_groups (v6_groups b) = concat (map (\<lambda>i. [b ! (2 * i), b ! (2 * i + 1)]) [0..<8])"
    by (simp add: enc_groups_def v6_groups_def pair' comp_def del: upt_rec_numeral)
  also have "\<dots> = b"
    using assms by (intro nth_equalityI) (auto simp: eval_nat_numeral upt_rec less_Suc_eq)
  finally show "enc_groups (v6_groups b) = b" .
qed

lemma best_run_Some:
  assumes "best_run gs = Some i"
  shows "2 \<le> zero_run gs i"
proof -
  let ?f = "\<lambda>best i. let l = zero_run gs i in
        if 2 \<le> l \<and> (case best of None \<Rightarrow> True | Some j \<Rightarrow> zero_run gs j < l) then Some i else best"
  have "(case foldl ?f b xs of None \<Rightarrow> True | Some j \<Rightarrow> 2 \<le> zero_run gs j)"
    if "case b of None \<Rightarrow> True | Some j \<Rightarrow> 2 \<le> zero_run gs j" for b xs
    using that by (induction xs arbitrary: b) (auto simp: Let_def)
  from this [of None "[0..<length gs]"] show ?thesis
    using assms by (simp add: best_run_def)
qed

lemma zero_run_split:
  "gs = take i gs @ replicate (zero_run gs i) 0 @ drop (i + zero_run gs i) gs"
  "i + zero_run gs i \<le> length gs \<or> zero_run gs i = 0"
proof -
  let ?t = "takeWhile (\<lambda>g. g = 0) (drop i gs)"
  have "?t = replicate (length ?t) 0"
    by (induction gs arbitrary: i) (auto simp: replicate_length_same dest: set_takeWhileD intro: replicate_eqI)
  moreover have "dropWhile (\<lambda>g. g = 0) (drop i gs) = drop (length ?t) (drop i gs)"
    by (rule dropWhile_eq_drop)
  ultimately show "gs = take i gs @ replicate (zero_run gs i) 0 @ drop (i + zero_run gs i) gs"
    unfolding zero_run_def by (metis append_take_drop_id drop_drop add.commute takeWhile_dropWhile_id)
  have "length ?t \<le> length (drop i gs)" by (rule length_takeWhile_le)
  then show "i + zero_run gs i \<le> length gs \<or> zero_run gs i = 0"
    by (cases "i \<le> length gs") (auto simp: zero_run_def)
qed

lemma enc_groups_zeros: "enc_groups (replicate l 0) = replicate (2 * l) 0"
  by (induction l) (simp_all add: be16_def)

lemma no_colon_prefix: "s \<noteq> [] \<Longrightarrow> hd s \<noteq> CHR '':'' \<Longrightarrow> \<not> has_prefix s ''::''"
  by (cases s) (auto simp: has_prefix_def)

lemma parse_ipv6_full:
  assumes "length b = 16" "best_run (v6_groups b) = None"
  shows "parse_ipv6 (ipv6_string b) = Some b"
proof -
  have g: "v6_groups b \<noteq> []" using v6_groups_props(1) [OF assms(1)] by auto
  have "\<not> has_prefix (hex_groups (v6_groups b)) ''::''"
    using hex_groups_start [OF g, of "[]"] by (cases "hex_groups (v6_groups b)") (auto simp: has_prefix_def)
  then show ?thesis
    using assms g v6_groups_props [OF assms(1)] v6_loop_groups [OF g, of "[]" None]
    by (simp add: ipv6_string_def parse_ipv6_def)
qed

lemma parse_ipv6_run:
  assumes "length b = 16" "best_run (v6_groups b) = Some i"
  shows "parse_ipv6 (ipv6_string b) = Some b"
proof -
  let ?gs = "v6_groups b"
  let ?l = "zero_run ?gs i" and ?hd = "take i ?gs"
  let ?tl = "drop (i + ?l) ?gs"
  note P = v6_groups_props [OF assms(1)]
  have l: "2 \<le> ?l" "i + ?l \<le> 8"
    using best_run_Some [OF assms(2)] zero_run_split(2) [of i ?gs] P(1) by auto
  have b: "b = enc_groups ?hd @ replicate (2 * ?l) 0 @ enc_groups ?tl"
    using P(3) zero_run_split(1) [of ?gs i] enc_groups_simps(3) enc_groups_zeros by metis
  have lt: "\<forall>g \<in> set ?hd. g < 65536" "\<forall>g \<in> set ?tl. g < 65536"
    using P(2) in_set_takeD in_set_dropD by fast+
  have len: "length ?hd = i" "length ?tl = 8 - (i + ?l)"
    using l P(1) by auto
  have s: "ipv6_string b = hex_groups ?hd @ ''::'' @ hex_groups ?tl"
    using assms(2) by (simp add: ipv6_string_def Let_def)
  have tl: "v6_loop (hex_groups ?tl) acc ell = Some (acc @ enc_groups ?tl, ell, [])"
    if "?tl \<noteq> []" "length acc \<le> 2 * i" for acc ell
    using that lt(2) len l by (intro v6_loop_groups) auto
  show ?thesis
  proof (cases "i = 0")
    case True
    show ?thesis
    proof (cases "?tl = []")
      case True
      then have "8 \<le> ?l" using \<open>i = 0\<close> P(1) by simp
      then have "?l = 8" using l by simp
      then show ?thesis
        using True \<open>i = 0\<close> b s by (simp add: parse_ipv6_def has_prefix_def)
    next
      case False
      have "16 - 2 * (8 - ?l) = 2 * ?l" using l by simp
      then show ?thesis
        using s tl [OF False, of "[]" "Some 0"] \<open>i = 0\<close> b len l hex_groups_start [OF False, of "[]"]
        by (simp add: parse_ipv6_def has_prefix_def)
    qed
  next
    case False
    then have h: "?hd \<noteq> []" using len by auto
    have np: "\<not> has_prefix (ipv6_string b) ''::''"
      unfolding s by (rule no_colon_prefix) (rule hex_groups_start [OF h])+
    have "v6_loop (ipv6_string b) [] None = Some (enc_groups ?hd @ enc_groups ?tl, Some (2 * i), [])"
      using v6_loop_ellipsis [OF h lt(1), of "[]" "hex_groups ?tl"] tl [of "enc_groups ?hd" "Some (2 * i)"]
        s len l hex_groups_start [of ?tl "[]"] by (cases "?tl = []") auto
    moreover have "length (enc_groups ?hd @ enc_groups ?tl) = 16 - 2 * ?l"
      using len l by simp
    moreover have "16 - (2 * i + 2 * (8 - (i + ?l))) = 2 * ?l"
      using l by simp
    ultimately show ?thesis
      using np b l len by (auto simp: parse_ipv6_def)
  qed
qed

lemma parse_ipv6_string:
  assumes "length b = 16"
  shows "parse_ipv6 (ipv6_string b) = Some b"
  using assms parse_ipv6_full parse_ipv6_run by (cases "best_run (v6_groups b)") auto

section \<open>Canonical strings\<close>

lemma to4_Some: "to4 i = Some v \<Longrightarrow> length v = 4 \<and> to16 v = (if length i = 4 then v4_prefix @ i else i)"
  by (auto simp: to4_def to16_def split: if_splits) (metis append_take_drop_id)

lemma hex_groups_chars: "\<forall>c \<in> set (hex_groups gs). c = CHR '':'' \<or> is_hex c"
  using hex_string_hex(1)
  by (induction gs rule: induct_list012) (simp_all add: list_all_iff ball_Un)

lemma ipv6_string_chars: "\<forall>c \<in> set (ipv6_string b). c = CHR '':'' \<or> is_hex c"
proof (cases "best_run (v6_groups b)")
  case None
  then show ?thesis
    using hex_groups_chars [of "v6_groups b"] by (simp add: ipv6_string_def)
next
  case (Some i)
  then show ?thesis
    using hex_groups_chars [of "take i (v6_groups b)"]
      hex_groups_chars [of "drop (i + zero_run (v6_groups b) i) (v6_groups b)"]
    by (simp add: ipv6_string_def Let_def ball_Un)
qed

lemma ipv6_string_no [simp]: "CHR ''%'' \<notin> set (ipv6_string b)" "CHR ''/'' \<notin> set (ipv6_string b)"
  using ipv6_string_chars [THEN bspec, of "CHR ''%''" b] ipv6_string_chars [THEN bspec, of "CHR ''/''" b]
  by auto

lemma colon_mem_ipv6_string:
  assumes "length b = 16"
  shows "CHR '':'' \<in> set (ipv6_string b)"
proof (cases "best_run (v6_groups b)")
  case None
  obtain g gs where g: "v6_groups b = g # gs" "gs \<noteq> []"
    using v6_groups_props(1) [OF assms] by (cases "v6_groups b"; cases "tl (v6_groups b)") auto
  then obtain h hs where gs: "gs = h # hs"
    by (cases gs) auto
  have "ipv6_string b = hex_groups (v6_groups b)"
    using None by (simp add: ipv6_string_def)
  then show ?thesis by (simp add: g(1) gs)
qed (simp add: ipv6_string_def Let_def)

lemma colon_in_ipv6_string:
  assumes "length b = 16"
  shows "find (\<lambda>c. c = CHR ''.'' \<or> c = CHR '':'') (ipv6_string b) = Some CHR '':''"
proof -
  obtain ys zs where s: "ipv6_string b = ys @ CHR '':'' # zs" "CHR '':'' \<notin> set ys"
    using split_list_first [OF colon_mem_ipv6_string [OF assms]] by blast
  have "CHR ''.'' \<notin> set ys"
    using ipv6_string_chars [of b] not_hex(2) unfolding s(1) by force
  then have "list_all (\<lambda>c. \<not> (c = CHR ''.'' \<or> c = CHR '':'')) ys"
    using s(2) unfolding list_all_iff by blast
  from find_skip [OF this] show ?thesis
    unfolding s(1) by simp
qed

text \<open>Printing an address and parsing it back gives the address in its 16-byte form.\<close>

lemma parse_ip_string:
  assumes "length i = 4 \<or> length i = 16"
  shows "parse_ip (ip_string i) = to16 i"
proof (cases "to4 i")
  case (Some v)
  have "parse_addr (ip_string i) = Some v"
    using Some to4_Some [OF Some] assms parse_addr_ipv4_string [of v] by (auto simp: ip_string_def)
  then show ?thesis
    using to4_Some [OF Some] assms by (auto simp: parse_ip_def to16_def)
next
  case None
  then have l: "length i = 16" using assms by (auto simp: to4_def)
  then have "parse_addr (ip_string i) = Some i"
    using None parse_ipv6_string [OF l] colon_in_ipv6_string [OF l]
    by (simp add: ip_string_def parse_addr_def)
  then show ?thesis by (simp add: parse_ip_def)
qed

section \<open>How long a printed address is\<close>

lemma length_colon_sep:
  "\<forall>x \<in> set xs. length x \<le> 4 \<Longrightarrow> xs \<noteq> [] \<Longrightarrow> length (colon_sep xs) + 1 \<le> 5 * length xs"
  by (induction xs rule: colon_sep.induct) auto

lemma length_hex_groups:
  "\<forall>g \<in> set gs. g < 65536 \<Longrightarrow> gs \<noteq> [] \<Longrightarrow> length (colon_sep (map hex_string gs)) + 1 \<le> 5 * length gs"
  using length_colon_sep [of "map hex_string gs"] length_hex_string [of _ 3] by auto

lemma length_hex_groups0:
  "\<forall>g \<in> set gs. g < 65536 \<Longrightarrow> length (colon_sep (map hex_string gs)) \<le> 5 * length gs"
  using length_hex_groups [of gs] by (cases "gs = []") auto

lemma length_ipv6_string: "length b = 16 \<Longrightarrow> length (ipv6_string b) \<le> 39"
proof -
  assume b: "length b = 16"
  let ?gs = "v6_groups b"
  note g = v6_groups_props [OF b]
  show ?thesis
  proof (cases "best_run ?gs")
    case None
    moreover have "?gs \<noteq> []" using g(1) by auto
    ultimately show ?thesis using length_hex_groups [OF g(2)] g(1) by (auto simp: ipv6_string_def Let_def)
  next
    case (Some i)
    have r: "2 \<le> zero_run ?gs i" "i + zero_run ?gs i \<le> 8"
      using best_run_Some [OF Some] zero_run_split(2) [of i ?gs] g(1) by auto
    have "length (colon_sep (map hex_string (take i ?gs))) \<le> 5 * i"
      "length (colon_sep (map hex_string (drop (i + zero_run ?gs i) ?gs))) \<le> 5 * (8 - (i + zero_run ?gs i))"
      using length_hex_groups0 [of "take i ?gs"] length_hex_groups0 [of "drop (i + zero_run ?gs i) ?gs"] g(1,2) r
      by (auto dest: in_set_takeD in_set_dropD)
    then show ?thesis using r Some by (simp add: ipv6_string_def Let_def)
  qed
qed

lemma length_nat_string_le: "n < 10 ^ Suc k \<Longrightarrow> length (nat_string n) \<le> Suc k"
proof (induction k arbitrary: n)
  case 0
  then show ?case using length_nat_string [of n] by simp
next
  case (Suc k)
  have "n div 10 < 10 ^ Suc k"
    using Suc.prems by (simp add: less_mult_imp_div_less mult.commute)
  then show ?case
    using Suc.IH by (subst nat_string.simps) simp
qed

lemma length_ip_string: "length i = 4 \<or> length i = 16 \<Longrightarrow> length (ip_string i) \<le> 39"
proof -
  assume a: "length i = 4 \<or> length i = 16"
  have n: "length (nat_string (unat (x :: byte))) \<le> 3" for x
    using length_nat_string_le [of "unat x" 2] unat_byte_less [of x] by simp
  have "length (ipv4_string v) \<le> 39" for v
  proof -
    have "length (nat_string (unat (v ! 0))) \<le> 3" "length (nat_string (unat (v ! 1))) \<le> 3"
      "length (nat_string (unat (v ! 2))) \<le> 3" "length (nat_string (unat (v ! 3))) \<le> 3"
      by (rule n)+
    then show ?thesis by (simp add: ipv4_string_def)
  qed
  then show ?thesis
    using a length_ipv6_string [of i] by (auto simp: ip_string_def to4_def split: option.splits intro: order_trans)
qed

end
