(* ===== verification/NetMask.thy ===== *)
theory NetMask
  imports NetAddr
begin

text \<open>
  Facts about prefixes: what a mask of \<open>n\<close> leading ones selects, as a statement on the bits of
  an address, and what \<open>net.ParseCIDR\<close> and \<open>net.ParseIP\<close> can return.
\<close>

section \<open>Bits of an address\<close>

definition byte_bits :: "byte \<Rightarrow> bool list" where
  "byte_bits b = map (\<lambda>i. bit b (7 - i)) [0..<8]"

definition ip_bits :: "bytes \<Rightarrow> bool list" where
  "ip_bits b = concat (map byte_bits b)"

lemma length_byte_bits [simp]: "length (byte_bits b) = 8"
  by (simp add: byte_bits_def)

lemma ip_bits_simps [simp]: "ip_bits [] = []" "ip_bits (b # bs) = byte_bits b @ ip_bits bs"
  by (simp_all add: ip_bits_def)

lemma length_ip_bits [simp]: "length (ip_bits b) = 8 * length b"
  by (induction b) auto

lemma nth_byte_bits: "i < 8 \<Longrightarrow> byte_bits b ! i = bit b (7 - i)"
  by (simp add: byte_bits_def)

lemma bit_mask_byte: "i < 8 \<Longrightarrow> k \<le> 8 \<Longrightarrow> bit (mask_byte k) (7 - i) \<longleftrightarrow> i < k"
proof -
  assume a: "i < 8" "k \<le> 8"
  have "mask_byte k = NOT (drop_bit k (mask 8))"
    by (simp add: mask_byte_def mask_eq_exp_minus_1)
  then show ?thesis
    using a by (simp add: bit_not_iff bit_drop_bit_eq bit_mask_iff) auto
qed

lemma byte_eq_bits: "(a :: byte) = b \<longleftrightarrow> (\<forall>i < 8. bit a (7 - i) = bit b (7 - i))"
proof
  assume h: "\<forall>i < 8. bit a (7 - i) = bit b (7 - i)"
  show "a = b"
  proof (rule bit_word_eqI)
    fix n assume "n < LENGTH(8)"
    then show "bit a n = bit b n" using h [rule_format, of "7 - n"] by simp
  qed
qed simp

lemma mask_byte_eq:
  "k \<le> 8 \<Longrightarrow> a AND mask_byte k = b AND mask_byte k \<longleftrightarrow> take k (byte_bits a) = take k (byte_bits b)"
  by (auto simp: byte_eq_bits bit_and_iff bit_mask_byte nth_byte_bits list_eq_iff_nth_eq
      dest: spec less_le_trans)

lemma mask_byte_8 [simp]: "mask_byte 8 = 255" "mask_byte 0 = 0"
  by (simp_all add: mask_byte_def)

section \<open>Prefix masks\<close>

lemma cidr_mask_Suc: "cidr_mask n (8 * Suc l) = mask_byte (min 8 n) # cidr_mask (n - 8) (8 * l)"
proof -
  have "[0..<Suc l] = 0 # map Suc [0..<l]" by (simp add: upt_conv_Cons map_Suc_upt)
  then show ?thesis by (simp add: cidr_mask_def)
qed

lemma length_cidr_mask [simp]: "length (cidr_mask n bits) = bits div 8"
  by (simp add: cidr_mask_def)

text \<open>Two addresses agree under a mask of \<open>n\<close> ones exactly if their first \<open>n\<close> bits agree.\<close>

lemma and_cidr_mask_eq:
  "length a = length b \<Longrightarrow>
   and_bytes a (cidr_mask n (8 * length b)) = and_bytes b (cidr_mask n (8 * length b)) \<longleftrightarrow>
     take n (ip_bits a) = take n (ip_bits b)"
proof (induction a b arbitrary: n rule: list_induct2)
  case (Cons x xs y ys)
  have "take n (byte_bits x) = take (min 8 n) (byte_bits x)" for x by (simp add: min_def)
  then show ?case
    using Cons.IH [of "n - 8"] mask_byte_eq [of "min 8 n" x y] Cons.hyps
    by (simp add: cidr_mask_Suc [of _ "length ys"] and_bytes_def del: mult_Suc_right)
qed (simp add: and_bytes_def)

lemma mask_byte_inj: "j \<le> 8 \<Longrightarrow> k \<le> 8 \<Longrightarrow> mask_byte j = mask_byte k \<longleftrightarrow> j = k"
proof
  assume a: "j \<le> 8" "k \<le> 8" "mask_byte j = mask_byte k"
  have "i < j \<longleftrightarrow> i < k" if "i < 8" for i
    using a bit_mask_byte [of i j] bit_mask_byte [of i k] that by simp
  then show "j = k" using a(1,2) by (metis linorder_neqE_nat not_less_iff_gr_or_eq order_less_le_trans)
qed simp

lemma byte_ones_mask: "k \<le> 8 \<Longrightarrow> byte_ones (mask_byte k) = Some k"
proof -
  assume k: "k \<le> 8"
  have "find (\<lambda>j. mask_byte j = mask_byte k) [0..<9] = find (\<lambda>j. j = k) [0..<9]"
    using k by (intro find_cong) (auto simp: mask_byte_inj)
  also have "\<dots> = Some k"
    unfolding find_Some_iff
    by (rule exI [of _ k]) (use k in \<open>auto simp del: upt_Suc simp: nth_upt [of 0, simplified]\<close>)
  finally show ?thesis by (simp add: byte_ones_def)
qed

lemma cidr_mask_0: "cidr_mask 0 (8 * l) = replicate l 0"
  by (induction l) (simp_all add: cidr_mask_Suc del: mult_Suc_right, simp add: cidr_mask_def)

lemma mask_ones_cidr: "n \<le> 8 * l \<Longrightarrow> mask_ones (cidr_mask n (8 * l)) = Some n"
proof (induction l arbitrary: n)
  case (Suc l)
  show ?case
  proof (cases "8 \<le> n")
    case True
    then show ?thesis
      using Suc.prems Suc.IH [of "n - 8"] by (simp add: cidr_mask_Suc del: mult_Suc_right) auto
  next
    case False
    then have "mask_byte n \<noteq> 255" using mask_byte_inj [of n 8] by simp
    then show ?thesis
      using False byte_ones_mask [of n] cidr_mask_0 [of l]
      by (simp add: cidr_mask_Suc list_all_iff del: mult_Suc_right)
  qed
qed (simp add: cidr_mask_def)

section \<open>What the parsers return\<close>

lemma parse_octet_fields: "parse_ipv4_fields s = Some b \<Longrightarrow> length b = 4"
  by (auto simp: parse_ipv4_fields_def split: list.splits option.splits)

lemma length_be16 [simp]: "length (be16 w) = 2"
  by (simp add: be16_def)

definition at_most_16 :: "(bytes \<times> nat option \<times> string) option \<Rightarrow> bool" where
  "at_most_16 res \<longleftrightarrow> (\<forall>b e r. res = Some (b, e, r) \<longrightarrow> length b \<le> 16)"

lemma at_most_16_intros:
  "at_most_16 None" "length b \<le> 16 \<Longrightarrow> at_most_16 (Some (b, e, r))"
  "(c \<Longrightarrow> at_most_16 x) \<Longrightarrow> (\<not> c \<Longrightarrow> at_most_16 y) \<Longrightarrow> at_most_16 (if c then x else y)"
  "length acc + 4 \<le> 16 \<Longrightarrow> at_most_16 (map_option (\<lambda>b. (acc @ b, ell, [])) (parse_ipv4_fields s))"
  by (auto simp: at_most_16_def dest: parse_octet_fields)

lemma v6_loop_at_most_16:
  "length acc \<le> 16 \<Longrightarrow> even (length acc) \<Longrightarrow> at_most_16 (v6_loop s acc ell)"
proof (induction s acc ell rule: v6_loop.induct)
  case (1 s acc ell)
  have l: "length acc + 2 \<le> 16" if "\<not> 16 \<le> length acc" using that 1(4) by presburger
  show ?case
    unfolding v6_loop.simps [of s acc ell] Let_def
    by (intro at_most_16_intros; (rule 1; assumption?)?) (use l 1(3,4) in simp_all)
qed

lemma v6_loop_length:
  "v6_loop s acc ell = Some (b, e, r) \<Longrightarrow> length acc \<le> 16 \<Longrightarrow> even (length acc) \<Longrightarrow> length b \<le> 16"
  using v6_loop_at_most_16 [of acc s ell] by (simp add: at_most_16_def)

lemma parse_addr_length: "parse_addr s = Some b \<Longrightarrow> length b = 4 \<or> length b = 16"
proof -
  assume a: "parse_addr s = Some b"
  have "length b' = 16" if "parse_ipv6 s = Some b'" for b'
    using that v6_loop_length [of "drop 2 s" "[]" "Some 0"] v6_loop_length [of s "[]" None]
    by (auto simp: parse_ipv6_def split: if_splits option.splits prod.splits)
  then show ?thesis
    using a by (auto simp: parse_addr_def dest: parse_octet_fields split: if_splits option.splits)
qed

lemma byte_bits_inj [simp]: "byte_bits a = byte_bits b \<longleftrightarrow> a = b"
  by (auto simp: byte_eq_bits byte_bits_def list_eq_iff_nth_eq)

lemma ip_bits_inj: "length a = length b \<Longrightarrow> ip_bits a = ip_bits b \<longleftrightarrow> a = b"
  by (induction a b rule: list_induct2) auto

section \<open>Small facts on addresses\<close>

lemma length_v4_prefix: "length v4_prefix = 12"
  by (simp add: v4_prefix_def)

lemma is_unspecified_4: "is_unspecified [a, b, c, d] \<longleftrightarrow> a = 0 \<and> b = 0 \<and> c = 0 \<and> d = 0"
proof -
  have "replicate 12 (0 :: byte) ! 11 \<noteq> v4_prefix ! 11" by (simp add: v4_prefix_def nth_append)
  then have "replicate 12 (0 :: byte) \<noteq> v4_prefix" by metis
  then show ?thesis
    by (auto simp: is_unspecified_def ip_equal_def length_v4_prefix)
qed

lemma and_255 [simp]: "(a :: byte) AND 255 = a"
  using bit_mask_byte [of _ 8] by (simp add: byte_eq_bits bit_and_iff)

end
