(* ===== verification/Conn.thy ===== *)
theory Conn
  imports Prelude
begin

text \<open>
  A \<open>net.Conn\<close> (a TLS connection or a yamux stream) as its two byte streams.

  \<open>rx\<close> holds the bytes the peer sends until the read side ends, \<open>rx_err\<close> the error a
  \<open>Read\<close> returns after them (end of file, an expired deadline, a reset), \<open>tx\<close> the bytes
  written so far and \<open>tx_room\<close> how many more a \<open>Write\<close> accepts before it fails
  (\<open>None\<close>: it never fails). Deadlines only decide when the read side ends, so
  \<open>SetDeadline\<close> calls need no state of their own. \<open>closed\<close> records \<open>Close\<close>.
\<close>

datatype io_error = EOF | UnexpectedEOF | Timeout | NetErr string

record conn =
  rx :: bytes
  rx_err :: io_error
  tx :: bytes
  tx_room :: "nat option"
  closed :: bool

definition mk_conn :: "bytes \<Rightarrow> conn" where
  "mk_conn b = \<lparr>rx = b, rx_err = EOF, tx = [], tx_room = None, closed = False\<rparr>"

definition close_conn :: "conn \<Rightarrow> conn" where
  "close_conn c = c\<lparr>closed := True\<rparr>"

text \<open>\<open>io.ReadFull\<close> of \<open>n\<close> bytes, \<open>n > 0\<close>: a stream that ends inside the read turns
  \<open>EOF\<close> into \<open>ErrUnexpectedEOF\<close>.\<close>

definition read_full :: "nat \<Rightarrow> conn \<Rightarrow> (io_error + bytes) \<times> conn" where
  "read_full n c =
     (if n \<le> length (rx c) then (Inr (take n (rx c)), c\<lparr>rx := drop n (rx c)\<rparr>)
      else (Inl (if rx c \<noteq> [] \<and> rx_err c = EOF then UnexpectedEOF else rx_err c), c\<lparr>rx := []\<rparr>))"

definition conn_write :: "bytes \<Rightarrow> conn \<Rightarrow> (io_error + unit) \<times> conn" where
  "conn_write b c =
     (case tx_room c of
        None \<Rightarrow> (Inr (), c\<lparr>tx := tx c @ b\<rparr>)
      | Some k \<Rightarrow>
          if length b \<le> k then (Inr (), c\<lparr>tx := tx c @ b, tx_room := Some (k - length b)\<rparr>)
          else (Inl (NetErr ''write''), c\<lparr>tx := tx c @ take k b, tx_room := Some 0\<rparr>))"

definition can_write :: "nat \<Rightarrow> conn \<Rightarrow> bool" where
  "can_write n c \<longleftrightarrow> (case tx_room c of None \<Rightarrow> True | Some k \<Rightarrow> n \<le> k)"

section \<open>Facts the protocol components share\<close>

lemma mk_conn_sel [simp]:
  "rx (mk_conn b) = b" "rx_err (mk_conn b) = EOF" "tx (mk_conn b) = []"
  "tx_room (mk_conn b) = None" "closed (mk_conn b) = False"
  by (simp_all add: mk_conn_def)

lemma close_conn_sel [simp]:
  "rx (close_conn c) = rx c" "tx (close_conn c) = tx c" "closed (close_conn c)"
  "rx_err (close_conn c) = rx_err c" "tx_room (close_conn c) = tx_room c"
  by (simp_all add: close_conn_def)

lemma can_write_rx [simp]:
  "can_write n (c\<lparr>rx := b\<rparr>) = can_write n c" "can_write n (c\<lparr>closed := q\<rparr>) = can_write n c"
  by (simp_all add: can_write_def)

lemma can_write_mk_conn [simp]: "can_write n (mk_conn b)"
  by (simp add: can_write_def)

lemma read_full_ok [simp]: "length p = n \<Longrightarrow> rx c = p @ r \<Longrightarrow> read_full n c = (Inr p, c\<lparr>rx := r\<rparr>)"
  by (simp add: read_full_def)

lemma read_full_Inr:
  "read_full n c = (Inr p, c') \<longleftrightarrow> length p = n \<and> rx c = p @ rx c' \<and> c' = c\<lparr>rx := rx c'\<rparr>"
  by (auto simp: read_full_def)

lemma read_full_frame:
  "read_full n c = (r, c') \<Longrightarrow>
   tx c' = tx c \<and> tx_room c' = tx_room c \<and> rx_err c' = rx_err c \<and> closed c' = closed c
   \<and> length (rx c') \<le> length (rx c)"
  by (auto simp: read_full_def split: if_splits)

lemma conn_write_ok:
  "can_write (length b) c \<Longrightarrow>
   conn_write b c = (Inr (), c\<lparr>tx := tx c @ b, tx_room := map_option (\<lambda>k. k - length b) (tx_room c)\<rparr>)"
  by (auto simp: conn_write_def can_write_def split: option.splits)

lemma conn_write_Inr:
  "conn_write b c = (Inr u, c') \<Longrightarrow> tx c' = tx c @ b \<and> rx c' = rx c"
  by (auto simp: conn_write_def split: option.splits if_splits)

lemma conn_write_rx:
  "conn_write b c = (r, c') \<Longrightarrow> rx c' = rx c \<and> rx_err c' = rx_err c \<and> closed c' = closed c"
  by (auto simp: conn_write_def split: option.splits if_splits)

lemma conn_write_prefix:
  "conn_write b c = (r, c') \<Longrightarrow> \<exists>k. tx c' = tx c @ take k b"
  by (auto simp: conn_write_def intro: exI [of _ "length b"] split: option.splits if_splits)

end
