(* ===== verification/Netutil.thy ===== *)
theory Netutil
  imports NetMask Conn
begin

text \<open>
  Addresses of connections, \<open>internal/netutil/ip.go\<close>: which listen addresses are loopback, the
  address of a peer, and the PROXY protocol header that a trusted load balancer puts in front of
  a connection. The buffered reader of \<open>MaybeProxy\<close> hands its buffer on with the connection, so
  the model reads the header from the connection's input and leaves the rest there.
\<close>

definition maxProxyLine :: nat where
  "maxProxyLine = 108"

definition listen_host_is_loopback :: "string \<Rightarrow> bool" where
  "listen_host_is_loopback addr =
     (case split_host_port (trim_space addr) of
        None \<Rightarrow> False
      | Some (host, _) \<Rightarrow>
          if equal_fold host ''localhost'' then True
          else let i = parse_ip host in i \<noteq> [] \<and> is_loopback i)"

definition ip_from_addr :: "string \<Rightarrow> ip" where
  "ip_from_addr addr =
     (if addr = [] then []
      else let host = (case split_host_port addr of None \<Rightarrow> addr | Some (h, _) \<Rightarrow> h);
               host' = (case index_byte host CHR ''%'' of None \<Rightarrow> host | Some k \<Rightarrow> take k host)
           in parse_ip host')"

text \<open>A remote address: the IP and port of a \<open>TCPAddr\<close> or \<open>UDPAddr\<close>, or only its text.\<close>

datatype remote_addr = NoAddr | SockAddr ip nat string | TextAddr string

fun ip_from_conn :: "remote_addr \<Rightarrow> ip" where
  "ip_from_conn NoAddr = []"
| "ip_from_conn (SockAddr i p s) = (if i \<noteq> [] then i else ip_from_addr s)"
| "ip_from_conn (TextAddr s) = ip_from_addr s"

section \<open>The PROXY header\<close>

datatype proxy_error =
    ReadFailed io_error | HeaderTooLong | InvalidHeader | UnknownFamily | UnsupportedFamily string
  | InvalidSrcIP | InvalidSrcPort

definition parse_proxy_v1 :: "string \<Rightarrow> proxy_error + (ip \<times> int)" where
  "parse_proxy_v1 line0 =
     (let line = trim_right_set {CHR 0x0D, CHR 0x0A} line0; parts = split_on CHR '' '' line in
      if length parts < 2 \<or> parts ! 0 \<noteq> ''PROXY'' then Inl InvalidHeader
      else if parts ! 1 = ''UNKNOWN'' then Inl UnknownFamily
      else if length parts < 6 then Inl InvalidHeader
      else if parts ! 1 \<noteq> ''TCP4'' \<and> parts ! 1 \<noteq> ''TCP6'' then Inl (UnsupportedFamily (parts ! 1))
      else let i = parse_ip (parts ! 2) in
        if i = [] then Inl InvalidSrcIP
        else case sscanf_d (parts ! 4) of
          None \<Rightarrow> Inl InvalidSrcPort
        | Some port \<Rightarrow> if port < 0 \<or> port > 65535 then Inl InvalidSrcPort else Inr (i, port))"

text \<open>\<open>readLineLimit\<close>: byte by byte, at most \<open>n\<close> of them; the bytes read stay consumed.\<close>

fun read_line_limit :: "nat \<Rightarrow> bytes \<Rightarrow> conn \<Rightarrow> (proxy_error + string) \<times> conn" where
  "read_line_limit 0 acc c = (Inl HeaderTooLong, c)"
| "read_line_limit (Suc n) acc c =
     (case rx c of
        [] \<Rightarrow> (Inl (ReadFailed (rx_err c)), c)
      | b # r \<Rightarrow>
          let acc' = acc @ [b]; c' = c\<lparr>rx := r\<rparr> in
          if b = 0x0A then (Inr (string_of_bytes acc'), c') else read_line_limit n acc' c')"

text \<open>\<open>MaybeProxy\<close>: the connection and its remote address; \<open>addr\<close> is the address of the socket.\<close>

definition maybe_proxy :: "bool \<Rightarrow> remote_addr \<Rightarrow> conn \<Rightarrow> (proxy_error + remote_addr) \<times> conn" where
  "maybe_proxy enabled addr c =
     (if \<not> enabled then (Inr addr, c)
      else case read_line_limit maxProxyLine [] c of
        (Inl e, c1) \<Rightarrow> (Inl e, close_conn c1)
      | (Inr line, c1) \<Rightarrow>
          (case parse_proxy_v1 line of
             Inl e \<Rightarrow> (Inl e, close_conn c1)
           | Inr (i, port) \<Rightarrow>
               let p = (case addr of SockAddr _ q _ \<Rightarrow> if port = 0 then q else nat port | _ \<Rightarrow> nat port)
               in (Inr (SockAddr i p (join_host_port (ip_string i) (nat_string p))), c1)))"

section \<open>Facts\<close>

lemma split_on_words:
  "c \<notin> set w \<Longrightarrow> split_on c (w @ c # r) = w # split_on c r"
  by (rule split_on_append)

lemma nat_string_no_space [simp]: "CHR '' '' \<notin> set (nat_string n)" "CHR 0x0A \<notin> set (nat_string n)" "CHR 0x0D \<notin> set (nat_string n)"
  by (rule nat_string_no; simp add: is_digit_def)+

lemma ip_string_chars:
  assumes "length i = 4 \<or> length i = 16" "c \<in> set (ip_string i)"
  shows "is_digit c \<or> is_hex c \<or> c = CHR ''.'' \<or> c = CHR '':''"
proof -
  have d: "c \<in> set (nat_string n) \<Longrightarrow> is_digit c" for n
    using nat_string_digits(1) [of n] by (auto simp: list_all_iff)
  show ?thesis
    using assms d ipv6_string_chars
    by (cases "to4 i"; elim disjE) (auto simp: ip_string_def ipv4_string_def)
qed

lemma ip_string_no_space:
  assumes "length i = 4 \<or> length i = 16"
  shows "CHR '' '' \<notin> set (ip_string i)" "CHR 0x0A \<notin> set (ip_string i)" "CHR 0x0D \<notin> set (ip_string i)"
  using ip_string_chars [OF assms, of "CHR '' ''"] ip_string_chars [OF assms, of "CHR 0x0A"]
    ip_string_chars [OF assms, of "CHR 0x0D"]
  by (auto simp: is_digit_def is_hex_def hex_digit_val_def)

lemma not_space_digit: "is_digit c \<Longrightarrow> \<not> ascii_space c \<and> of_char c < (128 :: nat) \<and> c \<noteq> CHR ''+'' \<and> c \<noteq> CHR ''-''"
  by (auto simp: is_digit_def ascii_space_def)

lemma sscanf_nat_string:
  assumes "n \<le> 65535" shows "sscanf_d (nat_string n) = Some (int n)"
proof -
  obtain c s where s: "nat_string n = c # s" using nat_string_digits(2) [of n] by (cases "nat_string n") auto
  have d: "list_all is_digit (c # s)" using nat_string_digits(1) [of n] s by simp
  then have c: "\<not> ascii_space c" "of_char c < (128 :: nat)" "c \<noteq> CHR ''+''" "c \<noteq> CHR ''-''" "is_digit c"
    using not_space_digit [of c] by auto
  have "trim_lead wide_spaces (c # s) = c # s" using c by (intro trim_lead_id) auto
  moreover have tw: "takeWhile is_digit s = s" using d unfolding takeWhile_eq_all_conv list_all_iff by simp
  ultimately have "sscanf_d (nat_string n) = atoi (c # s)"
    using c tw by (simp add: sscanf_d_def s Let_def tw)
  also have "\<dots> = Some (int n)"
    using c(3,4) d dec_val_nat_string [of n] assms unfolding s
    by (auto simp: atoi_def Let_def has_prefix_def)
  finally show ?thesis .
qed

lemma byte_of_char_nl [simp]: "byte_of_char c = 0x0A \<longleftrightarrow> c = CHR 0x0A" "0x0A = byte_of_char c \<longleftrightarrow> c = CHR 0x0A"
proof -
  have "byte_of_char (CHR 0x0A) = 0x0A" by (simp add: byte_of_char_def)
  then show "byte_of_char c = 0x0A \<longleftrightarrow> c = CHR 0x0A" by (metis char_of_byte_of_char)
  then show "0x0A = byte_of_char c \<longleftrightarrow> c = CHR 0x0A" by metis
qed

lemma char_of_byte_nl [simp]: "char_of_byte 0x0A = CHR 0x0A"
  by (metis byte_of_char_nl(1) byte_of_char_of_byte)

lemma line_string: "string_of_bytes ([] @ bytes_of_string w @ [0x0A]) = w @ [CHR 0x0A]"
proof -
  have "string_of_bytes (a @ b) = string_of_bytes a @ string_of_bytes b" for a b
    by (simp add: string_of_bytes_def)
  then show ?thesis by simp (simp add: string_of_bytes_def)
qed

lemma trim_crlf:
  "w \<noteq> [] \<Longrightarrow> last w \<noteq> CHR 0x0A \<Longrightarrow> last w \<noteq> CHR 0x0D \<Longrightarrow>
   trim_right_set {CHR 0x0D, CHR 0x0A} (w @ [CHR 0x0D, CHR 0x0A]) = w"
  by (cases w rule: rev_cases) (auto simp: trim_right_set_def)

lemma read_line_split:
  "0x0A \<notin> set a \<Longrightarrow> length a < n \<Longrightarrow> rx c = a @ 0x0A # r \<Longrightarrow>
   read_line_limit n acc c = (Inr (string_of_bytes (acc @ a @ [0x0A])), c\<lparr>rx := r\<rparr>)"
proof (induction n acc c arbitrary: a rule: read_line_limit.induct)
  case (2 n acc c)
  then show ?case by (cases a) (auto simp: Let_def)
qed simp

lemma read_line_end:
  "read_line_limit n acc c = (res, c') \<Longrightarrow> closed c' = closed c \<and> (0x0A \<notin> set (take n (rx c)) \<longrightarrow> (\<exists>e. res = Inl e))"
proof (induction n acc c rule: read_line_limit.induct)
  case (2 n acc c)
  then show ?case by (auto simp: Let_def split: list.splits if_splits)
qed auto

text \<open>The header a balancer writes for a client address and port.\<close>

definition proxy_header :: "ip \<Rightarrow> nat \<Rightarrow> ip \<Rightarrow> nat \<Rightarrow> string" where
  "proxy_header src sport dst dport =
     ''PROXY '' @ (if to4 src \<noteq> None then ''TCP4'' else ''TCP6'') @ '' '' @ ip_string src @ '' '' @ ip_string dst @
     '' '' @ nat_string sport @ '' '' @ nat_string dport @ [CHR 0x0D, CHR 0x0A]"

text \<open>
Behind a trusted balancer the client address is the balancer's. When the PROXY protocol is enabled and a connection starts with the header for some source address and port, the connection gets exactly that address (in 16-byte form) and port, and its input continues at the first byte after the header; when the protocol is disabled nothing is read and the socket address is kept.
\<close>

theorem proxy_header_applied:
  assumes "length src = 4 \<or> length src = 16" "length dst = 4 \<or> length dst = 16"
    and "0 < sport" "sport \<le> 65535" "dport \<le> 65535"
    and "rx c = bytes_of_string (proxy_header src sport dst dport) @ r"
  shows "(\<exists>txt. maybe_proxy True addr c = (Inr (SockAddr (to16 src) sport txt), c\<lparr>rx := r\<rparr>)) \<and>
     maybe_proxy False addr c = (Inr addr, c)"
proof -
  let ?fam = "if to4 src \<noteq> None then ''TCP4'' else ''TCP6''"
  let ?w = "''PROXY '' @ ?fam @ '' '' @ ip_string src @ '' '' @ ip_string dst @ '' '' @ nat_string sport @ '' '' @ nat_string dport"
  let ?h = "proxy_header src sport dst dport"
  have h: "?h = ?w @ [CHR 0x0D, CHR 0x0A]" by (simp add: proxy_header_def)
  have no: "CHR 0x0A \<notin> set ?w" "CHR 0x0D \<notin> set ?w"
    using ip_string_no_space [OF assms(1)] ip_string_no_space [OF assms(2)] by auto
  have parts: "split_on CHR '' '' ?w = [''PROXY'', ?fam, ip_string src, ip_string dst, nat_string sport, nat_string dport]"
    using ip_string_no_space(1) [OF assms(1)] ip_string_no_space(1) [OF assms(2)]
      split_on_append [of "CHR '' ''" "''PROXY''"] split_on_append [of "CHR '' ''" "''TCP4''"]
      split_on_append [of "CHR '' ''" "''TCP6''"]
    by (simp add: split_on_append split_on_none)
  have trim: "trim_right_set {CHR 0x0D, CHR 0x0A} ?h = ?w"
  proof -
    have "last ?w \<noteq> CHR 0x0A \<and> last ?w \<noteq> CHR 0x0D \<and> ?w \<noteq> []"
      using no last_in_set [of ?w] by (metis append_is_Nil_conv list.distinct(1))
    then show ?thesis
      unfolding h by (intro trim_crlf) auto
  qed
  have ne: "parse_ip (ip_string src) = to16 src" "to16 src \<noteq> []"
    using parse_ip_string [OF assms(1)] assms(1) by (auto simp: to16_def v4_prefix_def)
  have p: "parse_proxy_v1 ?h = Inr (to16 src, int sport)"
    unfolding parse_proxy_v1_def Let_def trim parts
    using ne assms(4) sscanf_nat_string [OF assms(4)] by simp
  have "length ?w \<le> 102"
    using length_ip_string [OF assms(1)] length_ip_string [OF assms(2)]
      length_nat_string_le [of sport 4] length_nat_string_le [of dport 4] assms(4,5) by simp
  then have len: "length (bytes_of_string (?w @ [CHR 0x0D])) < maxProxyLine"
    by (simp add: maxProxyLine_def)
  have nl: "0x0A \<notin> set (bytes_of_string (?w @ [CHR 0x0D]))"
    using no by (auto simp: bytes_of_string_def)
  have "rx c = bytes_of_string (?w @ [CHR 0x0D]) @ 0x0A # r"
    unfolding assms(6) h by (simp add: bytes_of_string_def byte_of_char_def)
  from read_line_split [OF nl len this, of "[]"]
  have "read_line_limit maxProxyLine [] c = (Inr ?h, c\<lparr>rx := r\<rparr>)"
    unfolding h line_string by (simp only: append_assoc append_Cons append_Nil)
  then show ?thesis
    using p assms(3) by (auto simp: maybe_proxy_def split: remote_addr.splits)
qed

theorem proxy_header_applied_witness:
  "\<exists>txt. maybe_proxy True NoAddr (mk_conn (bytes_of_string (proxy_header [10, 0, 0, 1] 4000 [10, 0, 0, 2] 80) @ [9]))
     = (Inr (SockAddr (to16 [10, 0, 0, 1]) 4000 txt),
        mk_conn (bytes_of_string (proxy_header [10, 0, 0, 1] 4000 [10, 0, 0, 2] 80) @ [9])\<lparr>rx := [9]\<rparr>)"
  using proxy_header_applied [of "[10, 0, 0, 1]" "[10, 0, 0, 2]" 4000 80
      "mk_conn (bytes_of_string (proxy_header [10, 0, 0, 1] 4000 [10, 0, 0, 2] 80) @ [9])" "[9]" NoAddr]
  by simp

text \<open>
A missing or broken header is fatal. With the protocol enabled, whatever the peer sends, the connection is either given a source address that parsed from the header or refused and closed; the family UNKNOWN, a header without line end in its first 108 bytes and an input that ends early are refused.
\<close>

theorem proxy_fail_closed:
  "(case maybe_proxy True addr c of
      (Inr a, c') \<Rightarrow> \<exists>i p txt. a = SockAddr i p txt \<and> i \<noteq> [] \<and> closed c' = closed c
    | (Inl e, c') \<Rightarrow> closed c') \<and>
   \<not> (0x0A \<notin> set (take maxProxyLine (rx c)) \<and> (\<exists>a c'. maybe_proxy True addr c = (Inr a, c')))"
proof -
  obtain res c1 where r: "read_line_limit maxProxyLine [] c = (res, c1)" by fastforce
  have i: "parse_proxy_v1 l = Inr (i, p) \<Longrightarrow> i \<noteq> []" for l i p
    by (auto simp: parse_proxy_v1_def Let_def split: if_splits option.splits)
  show ?thesis
  proof (cases res)
    case (Inl e)
    then show ?thesis using r by (simp add: maybe_proxy_def)
  next
    case (Inr l)
    then show ?thesis
      using r read_line_end [OF r] i [of l] by (cases "parse_proxy_v1 l") (auto simp: maybe_proxy_def Let_def)
  qed
qed

end
