(* ===== verification/Config.thy ===== *)
theory Config
  imports GoStrings
begin

text \<open>
  The configuration record of \<open>internal/config/config.go\<close> and the accessors with their defaults.
  Durations are nanoseconds; a YAML pointer that may be absent is an option; the nested structs
  \<open>TLS\<close> and \<open>Admin\<close> are flattened into the fields \<open>tls_*\<close> and \<open>admin_*\<close>. Loading and defaults are
  in \<open>ConfigLoad\<close>, validation in \<open>ConfigCheck\<close>.
\<close>

definition TypeHTTP :: string where "TypeHTTP = ''http''"
definition TypeTCP :: string where "TypeTCP = ''tcp''"
definition TypeUDP :: string where "TypeUDP = ''udp''"

lemma types_distinct [simp]:
  "TypeHTTP \<noteq> TypeTCP" "TypeTCP \<noteq> TypeHTTP" "TypeHTTP \<noteq> TypeUDP" "TypeUDP \<noteq> TypeHTTP" "TypeTCP \<noteq> TypeUDP" "TypeUDP \<noteq> TypeTCP"
  "TypeHTTP \<noteq> []" "TypeTCP \<noteq> []" "TypeUDP \<noteq> []"
  by (simp_all add: TypeHTTP_def TypeTCP_def TypeUDP_def)

record tunnel =
  t_name :: string
  t_type :: string
  t_public :: string
  t_tls :: bool
  t_passthrough :: bool
  t_http2 :: bool
  t_local :: string
  t_host :: string
  t_cert :: string
  t_key :: string

record config =
  cfg_path :: string
  listen :: string
  edge :: string
  cfg_token :: string
  token_file :: string
  agent_id :: string
  tls_cert :: string
  tls_key :: string
  tls_ca :: string
  tls_server_name :: string
  insecure_skip_verify :: "bool option"
  auto_self_signed :: bool
  allowlist_file :: string
  cfg_allowlist :: "string list"
  denylist_file :: string
  admin_enable :: "bool option"
  admin_listen :: string
  admin_token :: string
  admin_token_file :: string
  admin_metrics :: "bool option"
  cfg_tunnels :: "tunnel list"
  idle_timeout :: int
  dial_timeout :: int
  max_sessions :: int
  shutdown_timeout :: int
  log_level :: string
  log_format :: string
  proxy_protocol :: bool
  local_private_only :: "bool option"
  health_path :: string

text \<open>The zero value of \<open>File\<close>, what an empty YAML document decodes to.\<close>

definition empty_config :: config where
  "empty_config =
     \<lparr>cfg_path = [], listen = [], edge = [], cfg_token = [], token_file = [], agent_id = [],
      tls_cert = [], tls_key = [], tls_ca = [], tls_server_name = [], insecure_skip_verify = None, auto_self_signed = False,
      allowlist_file = [], cfg_allowlist = [], denylist_file = [],
      admin_enable = None, admin_listen = [], admin_token = [], admin_token_file = [], admin_metrics = None,
      cfg_tunnels = [], idle_timeout = 0, dial_timeout = 0, max_sessions = 0, shutdown_timeout = 0,
      log_level = [], log_format = [], proxy_protocol = False, local_private_only = None, health_path = []\<rparr>"

definition second :: int where
  "second = 1000000000"

definition restrict_tunnels :: "config \<Rightarrow> bool" where
  "restrict_tunnels c \<longleftrightarrow> length (cfg_tunnels c) > 0"

definition tunnel_by_name :: "config \<Rightarrow> string \<Rightarrow> tunnel option" where
  "tunnel_by_name c n = find (\<lambda>t. t_name t = n) (cfg_tunnels c)"

definition tcp_tunnels :: "config \<Rightarrow> tunnel list" where
  "tcp_tunnels c = filter (\<lambda>t. t_type t = TypeTCP) (cfg_tunnels c)"

definition http_tunnels :: "config \<Rightarrow> tunnel list" where
  "http_tunnels c = filter (\<lambda>t. t_type t = TypeHTTP) (cfg_tunnels c)"

definition udp_tunnels :: "config \<Rightarrow> tunnel list" where
  "udp_tunnels c = filter (\<lambda>t. t_type t = TypeUDP) (cfg_tunnels c)"

definition health_path_or_default :: "config \<Rightarrow> string" where
  "health_path_or_default c = trim_space (health_path c)"

definition private_only :: "config \<Rightarrow> bool" where
  "private_only c = (case local_private_only c of None \<Rightarrow> True | Some b \<Rightarrow> b)"

definition idle_or_default :: "config \<Rightarrow> int" where
  "idle_or_default c = idle_timeout c"

definition udp_idle_or_default :: "config \<Rightarrow> int" where
  "udp_idle_or_default c = (if idle_timeout c > 0 then idle_timeout c else 60 * second)"

definition dial_or_default :: "config \<Rightarrow> int" where
  "dial_or_default c = (if dial_timeout c \<le> 0 then 10 * second else dial_timeout c)"

definition max_sessions_or_default :: "config \<Rightarrow> int" where
  "max_sessions_or_default c = (if max_sessions c \<le> 0 then 1024 else max_sessions c)"

definition shutdown_or_default :: "config \<Rightarrow> int" where
  "shutdown_or_default c = (if shutdown_timeout c \<le> 0 then 10 * second else shutdown_timeout c)"

definition log_level_or_default :: "config \<Rightarrow> string" where
  "log_level_or_default c = (if trim_space (log_level c) = [] then ''info'' else log_level c)"

definition log_format_or_default :: "config \<Rightarrow> string" where
  "log_format_or_default c = (if trim_space (log_format c) = [] then ''text'' else log_format c)"

definition admin_enabled :: "config \<Rightarrow> bool" where
  "admin_enabled c = (if admin_enable c = Some False then False else trim_space (admin_listen c) \<noteq> [])"

definition skip_verify :: "config \<Rightarrow> bool" where
  "skip_verify c = (case insecure_skip_verify c of Some b \<Rightarrow> b | None \<Rightarrow> trim_space (tls_ca c) = [])"

definition admin_metrics_or_default :: "config \<Rightarrow> bool" where
  "admin_metrics_or_default c = (case admin_metrics c of None \<Rightarrow> True | Some b \<Rightarrow> b)"

lemma tunnel_by_name_Some: "tunnel_by_name c n = Some t \<Longrightarrow> t \<in> set (cfg_tunnels c) \<and> t_name t = n"
  by (auto simp: tunnel_by_name_def find_Some_iff)

lemma positive_defaults:
  "0 < udp_idle_or_default c" "0 < dial_or_default c" "0 < max_sessions_or_default c" "0 < shutdown_or_default c"
  by (simp_all add: udp_idle_or_default_def dial_or_default_def max_sessions_or_default_def
      shutdown_or_default_def second_def)

end
