(* ===== verification/Frame.thy ===== *)
theory Frame
  imports Conn GoStrings
begin

text \<open>
  The control frames of the tunnel and the messages they carry
  (\<open>internal/tunnel/frame.go\<close>): the 8-byte frame header, \<open>WriteFrame\<close> and \<open>ReadFrame\<close>,
  the length-prefixed strings and the seven message types with their \<open>Marshal\<close> and
  \<open>Parse\<close> functions, and the ping payload.

  The interface \<open>codec\<close> states what the users of a message rely on (a marshalled message is
  parsed back); \<open>strict_codec\<close> adds that a parser accepts only what its \<open>Marshal\<close> can
  have written. Each message type is an interpretation of one of them.
\<close>

section \<open>Constants and types\<close>

definition Version :: byte where "Version = 1"
definition headerSize :: nat where "headerSize = 8"
definition MaxPayloadSize :: nat where "MaxPayloadSize = 64 * 1024"
definition AssocIDSize :: nat where "AssocIDSize = 4"
definition MaxDatagramPayload :: nat where "MaxDatagramPayload = MaxPayloadSize - AssocIDSize"

definition TypeAuthRequest :: byte where "TypeAuthRequest = 1"
definition TypeAuthResponse :: byte where "TypeAuthResponse = 2"
definition TypeOpenStream :: byte where "TypeOpenStream = 3"
definition TypeOpenStreamAck :: byte where "TypeOpenStreamAck = 4"
definition TypeCloseStream :: byte where "TypeCloseStream = 5"
definition TypePing :: byte where "TypePing = 6"
definition TypePong :: byte where "TypePong = 7"
definition TypeConfigPush :: byte where "TypeConfigPush = 8"
definition TypeOpenAssoc :: byte where "TypeOpenAssoc = 9"
definition TypeOpenAssocAck :: byte where "TypeOpenAssocAck = 10"
definition TypeDatagram :: byte where "TypeDatagram = 11"
definition TypeCloseAssoc :: byte where "TypeCloseAssoc = 12"

lemmas frame_type_defs = TypeAuthRequest_def TypeAuthResponse_def TypeOpenStream_def
  TypeOpenStreamAck_def TypeCloseStream_def TypePing_def TypePong_def TypeConfigPush_def
  TypeOpenAssoc_def TypeOpenAssocAck_def TypeDatagram_def TypeCloseAssoc_def

text \<open>\<open>Type.String\<close>.\<close>

definition type_string :: "byte \<Rightarrow> string" where
  "type_string t =
     (if t = TypeAuthRequest then ''AuthRequest''
      else if t = TypeAuthResponse then ''AuthResponse''
      else if t = TypeOpenStream then ''OpenStream''
      else if t = TypeOpenStreamAck then ''OpenStreamAck''
      else if t = TypeCloseStream then ''CloseStream''
      else if t = TypePing then ''Ping''
      else if t = TypePong then ''Pong''
      else if t = TypeConfigPush then ''ConfigPush''
      else if t = TypeOpenAssoc then ''OpenAssoc''
      else if t = TypeOpenAssocAck then ''OpenAssocAck''
      else if t = TypeDatagram then ''Datagram''
      else if t = TypeCloseAssoc then ''CloseAssoc''
      else ''Type('' @ nat_string (unat t) @ '')'')"

definition ProtoTCP :: byte where "ProtoTCP = 1"
definition ProtoHTTP :: byte where "ProtoHTTP = 2"
definition ProtoUDP :: byte where "ProtoUDP = 3"

text \<open>The errors of the codec, one per error site; \<open>Probe\<close> is \<open>ErrProbe\<close> with what was
  seen, \<open>Wrap\<close> is \<open>fmt.Errorf("...: %w", err)\<close>.\<close>

datatype codec_error =
    PayloadTooLarge nat | StringTooLong | TruncatedString | TruncatedStringBody | TrailingBytes
  | TruncatedAuthResponse | TruncatedOpen | TruncatedAck | PingPayloadSize
  | TruncatedU32 | TruncatedAssocAck | DatagramTooLarge nat

datatype probe_reason =
    BadVersion byte | HugePayload "32 word" | NotAuthRequest byte | NotTLS string

datatype tunnel_error =
    Io io_error | Codec codec_error | Probe probe_reason | Unauthorized
  | ExpectedType byte byte | Rejected string | Wrap string tunnel_error

text \<open>\<open>errors.Is(err, ErrProbe)\<close> and \<open>errors.Is(err, ErrUnauthorized)\<close> look through wrapping.\<close>

fun is_probe :: "tunnel_error \<Rightarrow> bool" where
  "is_probe (Probe _) = True"
| "is_probe (Wrap _ e) = is_probe e"
| "is_probe _ = False"

fun is_unauthorized :: "tunnel_error \<Rightarrow> bool" where
  "is_unauthorized Unauthorized = True"
| "is_unauthorized (Wrap _ e) = is_unauthorized e"
| "is_unauthorized _ = False"

record frame =
  fr_type :: byte
  fr_flags :: byte
  fr_payload :: bytes

section \<open>WriteFrame and ReadFrame\<close>

definition frame_header :: "byte \<Rightarrow> nat \<Rightarrow> bytes" where
  "frame_header typ n = [Version, typ, 0, 0] @ be32 (of_nat n)"

definition lift_io :: "(io_error + 'a) \<times> conn \<Rightarrow> (tunnel_error + 'a) \<times> conn" where
  "lift_io r = (case r of (Inl e, c) \<Rightarrow> (Inl (Io e), c) | (Inr x, c) \<Rightarrow> (Inr x, c))"

definition write_frame :: "byte \<Rightarrow> bytes \<Rightarrow> conn \<Rightarrow> (tunnel_error + unit) \<times> conn" where
  "write_frame typ payload c =
     (if length payload > MaxPayloadSize then (Inl (Codec (PayloadTooLarge (length payload))), c)
      else case lift_io (conn_write (frame_header typ (length payload)) c) of
        (Inl e, c1) \<Rightarrow> (Inl e, c1)
      | (Inr _, c1) \<Rightarrow>
          if length payload = 0 then (Inr (), c1) else lift_io (conn_write payload c1))"

definition read_frame :: "conn \<Rightarrow> (tunnel_error + frame) \<times> conn" where
  "read_frame c =
     (case lift_io (read_full headerSize c) of
        (Inl e, c1) \<Rightarrow> (Inl e, c1)
      | (Inr hdr, c1) \<Rightarrow>
          if hdr ! 0 \<noteq> Version then (Inl (Probe (BadVersion (hdr ! 0))), c1)
          else let n = rd32 (take 4 (drop 4 hdr)) in
            if unat n > MaxPayloadSize then (Inl (Probe (HugePayload n)), c1)
            else if n = 0 then
              (Inr \<lparr>fr_type = hdr ! 1, fr_flags = hdr ! 2, fr_payload = []\<rparr>, c1)
            else case lift_io (read_full (unat n) c1) of
              (Inl e, c2) \<Rightarrow> (Inl e, c2)
            | (Inr p, c2) \<Rightarrow>
                (Inr \<lparr>fr_type = hdr ! 1, fr_flags = hdr ! 2, fr_payload = p\<rparr>, c2))"

text \<open>The bytes of a whole frame on the wire.\<close>

definition frame_bytes :: "byte \<Rightarrow> bytes \<Rightarrow> bytes" where
  "frame_bytes typ payload = frame_header typ (length payload) @ payload"

section \<open>Strings and integers in payloads\<close>

definition put_string :: "bytes \<Rightarrow> string \<Rightarrow> codec_error + bytes" where
  "put_string buf s =
     (if length s > 65535 then Inl StringTooLong
      else Inr (buf @ be16 (of_nat (length s)) @ bytes_of_string s))"

definition get_string :: "bytes \<Rightarrow> codec_error + (string \<times> bytes)" where
  "get_string b =
     (if length b < 2 then Inl TruncatedString
      else let n = unat (rd16 (take 2 b)); b' = drop 2 b in
        if length b' < n then Inl TruncatedStringBody
        else Inr (string_of_bytes (take n b'), drop n b'))"

definition put_u32 :: "32 word \<Rightarrow> bytes" where
  "put_u32 n = be32 n"

definition get_u32 :: "bytes \<Rightarrow> codec_error + (32 word \<times> bytes)" where
  "get_u32 p = (if length p < 4 then Inl TruncatedU32 else Inr (rd32 (take 4 p), drop 4 p))"

definition put_u64 :: "64 word \<Rightarrow> bytes" where
  "put_u64 n = be64 n"

definition get_u64 :: "bytes \<Rightarrow> codec_error + 64 word" where
  "get_u64 p = (if length p \<noteq> 8 then Inl PingPayloadSize else Inr (rd64 p))"

text \<open>Pings carry a signed count of nanoseconds: Go converts \<open>int64\<close> to \<open>uint64\<close> and back.
  \<open>fits_int64\<close> is the range of the Go type of the argument.\<close>

definition fits_int64 :: "int \<Rightarrow> bool" where
  "fits_int64 n \<longleftrightarrow> - (2 ^ 63) \<le> n \<and> n < 2 ^ 63"

definition PingPayload :: "int \<Rightarrow> bytes" where
  "PingPayload nsec = put_u64 (word_of_int nsec)"

definition ParsePing :: "bytes \<Rightarrow> codec_error + int" where
  "ParsePing p = rbind (get_u64 p) (\<lambda>n. Inr (sint n))"

text \<open>The closing \<open>if len(rest) != 0\<close> of the parsers.\<close>

definition no_rest :: "bytes \<Rightarrow> 'a \<Rightarrow> codec_error + 'a" where
  "no_rest rest x = (if length rest \<noteq> 0 then Inl TrailingBytes else Inr x)"

section \<open>Messages\<close>

record auth_request =
  ar_token :: string
  ar_agent_id :: string

definition marshal_auth_request :: "auth_request \<Rightarrow> codec_error + bytes" where
  "marshal_auth_request a =
     rbind (put_string [] (ar_token a)) (\<lambda>buf. put_string buf (ar_agent_id a))"

definition parse_auth_request :: "bytes \<Rightarrow> codec_error + auth_request" where
  "parse_auth_request p =
     rbind (get_string p) (\<lambda>(tok, rest).
     rbind (get_string rest) (\<lambda>(aid, rest).
     no_rest rest \<lparr>ar_token = tok, ar_agent_id = aid\<rparr>))"

definition ok_byte :: "bool \<Rightarrow> byte" where
  "ok_byte b = (if b then 1 else 0)"

record auth_response =
  ap_ok :: bool
  ap_message :: string

definition marshal_auth_response :: "auth_response \<Rightarrow> codec_error + bytes" where
  "marshal_auth_response a = put_string [ok_byte (ap_ok a)] (ap_message a)"

definition parse_auth_response :: "bytes \<Rightarrow> codec_error + auth_response" where
  "parse_auth_response p =
     (if length p < 1 then Inl TruncatedAuthResponse
      else rbind (get_string (drop 1 p)) (\<lambda>(msg, rest).
        no_rest rest \<lparr>ap_ok = (p ! 0 = 1), ap_message = msg\<rparr>))"

record open_meta =
  om_name :: string
  om_local :: string
  om_client_addr :: string
  om_proto :: byte

definition marshal_open_meta :: "open_meta \<Rightarrow> codec_error + bytes" where
  "marshal_open_meta m =
     rbind (put_string [om_proto m] (om_name m)) (\<lambda>buf.
     rbind (put_string buf (om_local m)) (\<lambda>buf.
     put_string buf (om_client_addr m)))"

definition parse_open_meta :: "bytes \<Rightarrow> codec_error + open_meta" where
  "parse_open_meta p =
     (if length p < 1 then Inl TruncatedOpen
      else rbind (get_string (drop 1 p)) (\<lambda>(name, rest).
        rbind (get_string rest) (\<lambda>(loc, rest).
        rbind (get_string rest) (\<lambda>(addr, rest).
        no_rest rest \<lparr>om_name = name, om_local = loc, om_client_addr = addr, om_proto = p ! 0\<rparr>))))"

record open_ack =
  oa_ok :: bool
  oa_message :: string

definition marshal_open_ack :: "open_ack \<Rightarrow> codec_error + bytes" where
  "marshal_open_ack a = put_string [ok_byte (oa_ok a)] (oa_message a)"

definition parse_open_ack :: "bytes \<Rightarrow> codec_error + open_ack" where
  "parse_open_ack p =
     (if length p < 1 then Inl TruncatedAck
      else rbind (get_string (drop 1 p)) (\<lambda>(msg, rest).
        no_rest rest \<lparr>oa_ok = (p ! 0 = 1), oa_message = msg\<rparr>))"

record open_assoc =
  as_id :: "32 word"
  as_client_addr :: string

definition marshal_open_assoc :: "open_assoc \<Rightarrow> codec_error + bytes" where
  "marshal_open_assoc m = put_string (put_u32 (as_id m)) (as_client_addr m)"

definition parse_open_assoc :: "bytes \<Rightarrow> codec_error + open_assoc" where
  "parse_open_assoc p =
     rbind (get_u32 p) (\<lambda>(i, rest).
     rbind (get_string rest) (\<lambda>(addr, rest).
     no_rest rest \<lparr>as_id = i, as_client_addr = addr\<rparr>))"

record open_assoc_ack =
  ak_id :: "32 word"
  ak_ok :: bool
  ak_message :: string

definition marshal_open_assoc_ack :: "open_assoc_ack \<Rightarrow> codec_error + bytes" where
  "marshal_open_assoc_ack a = put_string (put_u32 (ak_id a) @ [ok_byte (ak_ok a)]) (ak_message a)"

definition parse_open_assoc_ack :: "bytes \<Rightarrow> codec_error + open_assoc_ack" where
  "parse_open_assoc_ack p =
     rbind (get_u32 p) (\<lambda>(i, rest).
     if length rest < 1 then Inl TruncatedAssocAck
     else let ok = (rest ! 0 = 1) in
       rbind (get_string (drop 1 rest)) (\<lambda>(msg, rest').
       no_rest rest' \<lparr>ak_id = i, ak_ok = ok, ak_message = msg\<rparr>))"

record datagram =
  dg_id :: "32 word"
  dg_payload :: bytes

definition marshal_datagram :: "datagram \<Rightarrow> codec_error + bytes" where
  "marshal_datagram d =
     (if length (dg_payload d) > MaxDatagramPayload
      then Inl (DatagramTooLarge (length (dg_payload d)))
      else Inr (put_u32 (dg_id d) @ dg_payload d))"

definition parse_datagram :: "bytes \<Rightarrow> codec_error + datagram" where
  "parse_datagram p =
     rbind (get_u32 p) (\<lambda>(i, rest). Inr \<lparr>dg_id = i, dg_payload = rest\<rparr>)"

record close_assoc =
  ca_id :: "32 word"

definition marshal_close_assoc :: "close_assoc \<Rightarrow> codec_error + bytes" where
  "marshal_close_assoc m = Inr (put_u32 (ca_id m))"

definition parse_close_assoc :: "bytes \<Rightarrow> codec_error + close_assoc" where
  "parse_close_assoc p =
     rbind (get_u32 p) (\<lambda>(i, rest). no_rest rest \<lparr>ca_id = i\<rparr>)"

section \<open>Frames on the wire\<close>

lemma length_frame_header [simp]: "length (frame_header t n) = headerSize"
  by (simp add: frame_header_def headerSize_def)

lemma lift_io_simps [simp]:
  "lift_io (Inl e, c) = (Inl (Io e), c)" "lift_io (Inr x, c) = (Inr x, c)"
  by (simp_all add: lift_io_def)

lemma lift_io_Inr: "lift_io r = (Inr x, c) \<longleftrightarrow> r = (Inr x, c)"
  by (cases r; cases "fst r") (auto simp: lift_io_def)

lemma lift_io_Inl: "lift_io r = (Inl e, c) \<longleftrightarrow> (\<exists>i. e = Io i \<and> r = (Inl i, c))"
  by (cases r; cases "fst r") (auto simp: lift_io_def)

lemma MaxPayloadSize_le [simp]: "n \<le> MaxPayloadSize \<Longrightarrow> n < 4294967296"
  by (simp add: MaxPayloadSize_def)

lemma frame_header_nth [simp]:
  "frame_header t n ! 0 = Version" "frame_header t n ! Suc 0 = t" "frame_header t n ! 2 = 0"
  "take 4 (drop 4 (frame_header t n)) = be32 (of_nat n)"
  by (simp_all add: frame_header_def eval_nat_numeral)

lemma write_frame_ok:
  assumes "length p \<le> MaxPayloadSize" and "can_write (headerSize + length p) c"
  shows "\<exists>c'. write_frame t p c = (Inr (), c') \<and> tx c' = tx c @ frame_bytes t p \<and> rx c' = rx c
              \<and> closed c' = closed c \<and> rx_err c' = rx_err c"
proof -
  have "can_write (length (frame_header t (length p))) c"
    using assms(2) by (auto simp: can_write_def split: option.splits)
  then obtain c1 where c1: "conn_write (frame_header t (length p)) c = (Inr (), c1)"
    and h: "tx c1 = tx c @ frame_header t (length p)" "rx c1 = rx c" "closed c1 = closed c"
      "rx_err c1 = rx_err c" "can_write (length p) c1"
    using assms(2) by (auto simp: conn_write_ok can_write_def split: option.splits)
  then show ?thesis
    using assms(1) conn_write_ok [of p c1]
    by (auto simp: write_frame_def frame_bytes_def)
qed

lemma write_frame_Inr:
  assumes "write_frame t p c = (Inr u, c')"
  shows "length p \<le> MaxPayloadSize" "tx c' = tx c @ frame_bytes t p" "rx c' = rx c"
  using assms
  by (auto simp: write_frame_def frame_bytes_def lift_io_Inr split: if_splits prod.splits sum.splits
      dest!: conn_write_Inr)

lemma write_frame_rx:
  assumes "write_frame t p c = (r, c')"
  shows "rx c' = rx c \<and> rx_err c' = rx_err c \<and> closed c' = closed c"
  using assms
  by (auto simp: write_frame_def lift_io_def split: if_splits prod.splits sum.splits
      dest!: conn_write_rx)

lemma of_nat_length_eq_0 [simp]:
  assumes "length p \<le> MaxPayloadSize"
  shows "(of_nat (length p) :: 32 word) = 0 \<longleftrightarrow> p = []"
  using MaxPayloadSize_le [OF assms] by (auto simp: word_of_nat_eq_0_iff dest: dvd_imp_le)

lemma read_frame_bytes:
  assumes "length p \<le> MaxPayloadSize" and "rx c = frame_bytes t p @ r"
  shows "read_frame c = (Inr \<lparr>fr_type = t, fr_flags = 0, fr_payload = p\<rparr>, c\<lparr>rx := r\<rparr>)"
proof -
  let ?h = "frame_header t (length p)"
  have h: "read_full headerSize c = (Inr ?h, c\<lparr>rx := p @ r\<rparr>)"
    by (rule read_full_ok) (simp_all add: assms(2) frame_bytes_def)
  have b: "read_full (length p) (c\<lparr>rx := p @ r\<rparr>) = (Inr p, c\<lparr>rx := r\<rparr>)"
    by (subst read_full_ok) simp_all
  show ?thesis
    using assms(1)
    by (simp only: read_frame_def h lift_io_simps prod.case sum.case frame_header_nth Let_def)
      (simp add: b)
qed

text \<open>What a successful read says about the stream: it starts with a whole frame, whose header
  has the version and a length within the bound, and exactly that frame is consumed.\<close>

lemma read_frame_Inr:
  assumes "read_frame c = (Inr f, c')"
  shows "\<exists>x. rx c = [Version, fr_type f, fr_flags f, x] @ be32 (of_nat (length (fr_payload f)))
                    @ fr_payload f @ rx c'
              \<and> length (fr_payload f) \<le> MaxPayloadSize \<and> c' = c\<lparr>rx := rx c'\<rparr>"
proof -
  obtain h r1 where h: "length h = 8" "rx c = h @ r1"
    and v: "h ! 0 = Version" and n: "unat (rd32 (take 4 (drop 4 h))) \<le> MaxPayloadSize"
    and rest: "rd32 (take 4 (drop 4 h)) = 0 \<and> f = \<lparr>fr_type = h ! 1, fr_flags = h ! 2, fr_payload = []\<rparr>
          \<and> c' = c\<lparr>rx := r1\<rparr> \<or>
        (\<exists>p. length p = unat (rd32 (take 4 (drop 4 h))) \<and> r1 = p @ rx c' \<and> c' = c\<lparr>rx := rx c'\<rparr>
          \<and> f = \<lparr>fr_type = h ! 1, fr_flags = h ! 2, fr_payload = p\<rparr>)"
    using assms
    by (auto simp: read_frame_def lift_io_Inr Let_def read_full_Inr headerSize_def
        split: if_splits prod.splits sum.splits)
  have four: "take 4 h = [h ! 0, h ! 1, h ! 2, h ! 3]"
    using h(1) by (intro nth_equalityI) (auto simp: eval_nat_numeral less_Suc_eq)
  have "h = take 4 h @ drop 4 h" by simp
  also have "\<dots> = [h ! 0, h ! 1, h ! 2, h ! 3] @ drop 4 h" by (simp only: four)
  also have "drop 4 h = be32 (rd32 (drop 4 h))"
    by (rule be32_rd32 [symmetric]) (simp add: h(1))
  finally have hd: "h = [h ! 0, h ! 1, h ! 2, h ! 3] @ be32 (rd32 (drop 4 h))" .
  have len: "of_nat (length (fr_payload f)) = rd32 (drop 4 h)"
    using rest h(1) by auto
  show ?thesis
  proof (intro exI conjI)
    show "rx c = [Version, fr_type f, fr_flags f, h ! 3] @ be32 (of_nat (length (fr_payload f)))
                    @ fr_payload f @ rx c'"
      using h(2) hd v rest unfolding len by (auto simp del: append_Cons)
    show "length (fr_payload f) \<le> MaxPayloadSize"
      using rest n by auto
    show "c' = c\<lparr>rx := rx c'\<rparr>"
      using rest by auto
  qed
qed

lemma read_frame_shrinks:
  assumes "read_frame c = (Inr f, c')"
  shows "length (rx c') < length (rx c)"
  using read_frame_Inr [OF assms] by auto

lemma read_frame_tx:
  assumes "read_frame c = (r, c')"
  shows "tx c' = tx c \<and> tx_room c' = tx_room c \<and> closed c' = closed c \<and> rx_err c' = rx_err c"
  using assms
  by (auto simp: read_frame_def lift_io_def Let_def split: if_splits prod.splits sum.splits
      dest!: read_full_frame)

section \<open>Strings, integers and messages in payloads\<close>

text \<open>The wire form of a string; writing and reading it are the two directions of one fact.\<close>

definition string_bytes :: "string \<Rightarrow> bytes" where
  "string_bytes s = be16 (of_nat (length s)) @ bytes_of_string s"

lemma put_string_Inr [simp]:
  "put_string buf s = Inr b \<longleftrightarrow> length s \<le> 65535 \<and> b = buf @ string_bytes s"
  by (auto simp: put_string_def string_bytes_def)

lemma get_string_bytes [simp]:
  "length s \<le> 65535 \<Longrightarrow> get_string (string_bytes s @ r) = Inr (s, r)"
  "length s \<le> 65535 \<Longrightarrow> get_string (string_bytes s) = Inr (s, [])"
  by (simp_all add: get_string_def string_bytes_def)

lemma get_string_Inr:
  "get_string b = Inr (s, r) \<longleftrightarrow> length s \<le> 65535 \<and> b = string_bytes s @ r"
proof
  assume "length s \<le> 65535 \<and> b = string_bytes s @ r"
  then show "get_string b = Inr (s, r)" by simp
next
  assume g: "get_string b = Inr (s, r)"
  let ?n = "unat (rd16 (take 2 b))"
  have l: "2 \<le> length b" "?n \<le> length (drop 2 b)"
    and s: "s = string_of_bytes (take ?n (drop 2 b))" and r: "r = drop ?n (drop 2 b)"
    using g by (auto simp: get_string_def Let_def split: if_splits)
  have ls: "length s = ?n"
    using s l by simp
  have "be16 (of_nat (length s)) = take 2 b"
    using l be16_rd16 [of "take 2 b"] unfolding ls by simp
  moreover have "b = take 2 b @ take ?n (drop 2 b) @ drop ?n (drop 2 b)"
    by (simp only: append_take_drop_id)
  ultimately have "b = string_bytes s @ r"
    unfolding s r by (simp add: string_bytes_def)
  then show "length s \<le> 65535 \<and> b = string_bytes s @ r"
    using ls unat_word16_less [of "rd16 (take 2 b)"] by simp
qed

lemma get_u32_be32 [simp]:
  "get_u32 (be32 i @ r) = Inr (i, r)" "get_u32 (be32 i) = Inr (i, [])"
  by (simp_all add: get_u32_def)

lemma get_u32_Inr: "get_u32 p = Inr (i, r) \<longleftrightarrow> p = be32 i @ r"
proof
  assume "get_u32 p = Inr (i, r)"
  then have "4 \<le> length p" "i = rd32 (take 4 p)" "r = drop 4 p"
    by (auto simp: get_u32_def split: if_splits)
  then show "p = be32 i @ r"
    by (simp add: be32_rd32)
qed simp

lemma no_rest_Nil [simp]: "no_rest [] x = Inr x"
  by (simp add: no_rest_def)

lemma no_rest_Inr: "no_rest r x = Inr y \<longleftrightarrow> r = [] \<and> y = x"
  by (auto simp: no_rest_def)

lemma length_string_bytes [simp]: "length (string_bytes s) = 2 + length s"
  by (simp add: string_bytes_def)

lemma ok_byte_eq_1 [simp]: "ok_byte b = 1 \<longleftrightarrow> b"
  by (simp add: ok_byte_def)

lemmas marshal_defs = marshal_auth_request_def marshal_auth_response_def marshal_open_meta_def
  marshal_open_ack_def marshal_open_assoc_def marshal_open_assoc_ack_def marshal_datagram_def
  marshal_close_assoc_def put_u32_def

lemmas parse_defs = parse_auth_request_def parse_auth_response_def parse_open_meta_def
  parse_open_ack_def parse_open_assoc_def parse_open_assoc_ack_def parse_datagram_def
  parse_close_assoc_def

lemmas parse_Inr = get_string_Inr get_u32_Inr no_rest_Inr

text \<open>What each \<open>Marshal\<close> writes is parsed back.\<close>

lemma auth_request_rt: "marshal_auth_request m = Inr p \<Longrightarrow> parse_auth_request p = Inr m"
  by (cases m) (auto simp: marshal_defs parse_defs)

lemma auth_response_rt: "marshal_auth_response m = Inr p \<Longrightarrow> parse_auth_response p = Inr m"
  by (cases m) (auto simp: marshal_defs parse_defs)

lemma open_meta_rt: "marshal_open_meta m = Inr p \<Longrightarrow> parse_open_meta p = Inr m"
  by (cases m) (auto simp: marshal_defs parse_defs)

lemma open_ack_rt: "marshal_open_ack m = Inr p \<Longrightarrow> parse_open_ack p = Inr m"
  by (cases m) (auto simp: marshal_defs parse_defs)

lemma open_assoc_rt: "marshal_open_assoc m = Inr p \<Longrightarrow> parse_open_assoc p = Inr m"
  by (cases m) (auto simp: marshal_defs parse_defs)

lemma open_assoc_ack_rt: "marshal_open_assoc_ack m = Inr p \<Longrightarrow> parse_open_assoc_ack p = Inr m"
  by (cases m) (auto simp: marshal_defs parse_defs)

lemma datagram_rt: "marshal_datagram m = Inr p \<Longrightarrow> parse_datagram p = Inr m"
  by (cases m) (auto simp: marshal_defs parse_defs split: if_splits)

lemma close_assoc_rt: "marshal_close_assoc m = Inr p \<Longrightarrow> parse_close_assoc p = Inr m"
  by (cases m) (auto simp: marshal_defs parse_defs)

text \<open>Five of them accept nothing else; the two acknowledgements and the authentication response
  read any byte but 1 as "not ok", so they are not in this list.\<close>

lemma auth_request_tr: "parse_auth_request p = Inr m \<Longrightarrow> marshal_auth_request m = Inr p"
  by (auto simp: marshal_defs parse_defs parse_Inr)

lemma open_meta_tr: "parse_open_meta p = Inr m \<Longrightarrow> marshal_open_meta m = Inr p"
  by (cases p) (auto simp: marshal_defs parse_defs parse_Inr)

lemma open_assoc_tr: "parse_open_assoc p = Inr m \<Longrightarrow> marshal_open_assoc m = Inr p"
  by (auto simp: marshal_defs parse_defs parse_Inr)

lemma close_assoc_tr: "parse_close_assoc p = Inr m \<Longrightarrow> marshal_close_assoc m = Inr p"
  by (auto simp: marshal_defs parse_defs parse_Inr)

lemma datagram_tr:
  "length p \<le> MaxPayloadSize \<Longrightarrow> parse_datagram p = Inr m \<Longrightarrow> marshal_datagram m = Inr p"
  by (auto simp: marshal_defs parse_defs parse_Inr MaxDatagramPayload_def AssocIDSize_def)

section \<open>The codec interface\<close>

locale codec =
  fixes marshal :: "'m \<Rightarrow> codec_error + bytes"
    and parse :: "bytes \<Rightarrow> codec_error + 'm"
  assumes parse_marshal: "marshal m = Inr p \<Longrightarrow> parse p = Inr m"
begin

lemma marshal_inj: "marshal m = Inr p \<Longrightarrow> marshal m' = Inr p \<Longrightarrow> m = m'"
  using parse_marshal [of m p] parse_marshal [of m' p] by simp

text \<open>A message written as one frame is read back from any stream that starts with it, and the
  stream is left at the next frame.\<close>

lemma message_over_wire:
  assumes "marshal m = Inr p" and "write_frame t p c = (Inr u, c')"
    and "rx d = drop (length (tx c)) (tx c') @ r"
  shows "\<exists>f. read_frame d = (Inr f, d\<lparr>rx := r\<rparr>) \<and> fr_type f = t \<and> parse (fr_payload f) = Inr m"
proof -
  have "rx d = frame_bytes t p @ r"
    using assms(2,3) write_frame_Inr(2) [OF assms(2)] by simp
  then show ?thesis
    using write_frame_Inr(1) [OF assms(2)] parse_marshal [OF assms(1)]
    by (simp add: read_frame_bytes)
qed

end

locale strict_codec = codec +
  assumes marshal_parse: "length p \<le> MaxPayloadSize \<Longrightarrow> parse p = Inr m \<Longrightarrow> marshal m = Inr p"
begin

lemma parse_inj:
  "length p \<le> MaxPayloadSize \<Longrightarrow> length p' \<le> MaxPayloadSize \<Longrightarrow>
   parse p = Inr m \<Longrightarrow> parse p' = Inr m \<Longrightarrow> p = p'"
  using marshal_parse [of p m] marshal_parse [of p' m] by simp

lemma parse_iff_marshal: "length p \<le> MaxPayloadSize \<Longrightarrow> parse p = Inr m \<longleftrightarrow> marshal m = Inr p"
  using marshal_parse parse_marshal by blast

text \<open>Nothing but a marshalled message is ever accepted from a frame.\<close>

lemma accepted_was_marshalled:
  assumes "read_frame c = (Inr f, c')" and "parse (fr_payload f) = Inr m"
  shows "marshal m = Inr (fr_payload f)"
  using assms read_frame_Inr [OF assms(1)] marshal_parse by blast

end

interpretation auth_request: strict_codec marshal_auth_request parse_auth_request
  by unfold_locales (erule auth_request_rt, erule auth_request_tr)

interpretation auth_response: codec marshal_auth_response parse_auth_response
  by unfold_locales (erule auth_response_rt)

interpretation open_meta: strict_codec marshal_open_meta parse_open_meta
  by unfold_locales (erule open_meta_rt, erule open_meta_tr)

interpretation open_ack: codec marshal_open_ack parse_open_ack
  by unfold_locales (erule open_ack_rt)

interpretation open_assoc: strict_codec marshal_open_assoc parse_open_assoc
  by unfold_locales (erule open_assoc_rt, erule open_assoc_tr)

interpretation open_assoc_ack: codec marshal_open_assoc_ack parse_open_assoc_ack
  by unfold_locales (erule open_assoc_ack_rt)

interpretation datagram: strict_codec marshal_datagram parse_datagram
  by unfold_locales (erule datagram_rt, erule (1) datagram_tr)

interpretation close_assoc: strict_codec marshal_close_assoc parse_close_assoc
  by unfold_locales (erule close_assoc_rt, erule close_assoc_tr)

section \<open>Streams of frames\<close>

fun write_frames :: "(byte \<times> bytes) list \<Rightarrow> conn \<Rightarrow> (tunnel_error + unit) \<times> conn" where
  "write_frames [] c = (Inr (), c)"
| "write_frames ((t, p) # fs) c =
     (case write_frame t p c of (Inl e, c') \<Rightarrow> (Inl e, c') | (Inr _, c') \<Rightarrow> write_frames fs c')"

fun read_frames :: "nat \<Rightarrow> conn \<Rightarrow> (tunnel_error + frame list) \<times> conn" where
  "read_frames 0 c = (Inr [], c)"
| "read_frames (Suc n) c =
     (case read_frame c of (Inl e, c') \<Rightarrow> (Inl e, c')
      | (Inr f, c') \<Rightarrow> (case read_frames n c' of (Inl e, c'') \<Rightarrow> (Inl e, c'')
                        | (Inr fs, c'') \<Rightarrow> (Inr (f # fs), c'')))"

definition wire :: "(byte \<times> bytes) list \<Rightarrow> bytes" where
  "wire fs = concat (map (\<lambda>(t, p). frame_bytes t p) fs)"

lemma write_frames_Inr:
  "write_frames fs c = (Inr u, c') \<Longrightarrow> tx c' = tx c @ wire fs \<and> list_all (\<lambda>(t, p). length p \<le> MaxPayloadSize) fs"
proof (induction fs arbitrary: c)
  case (Cons a fs)
  obtain t p where a: "a = (t, p)" by (cases a)
  from Cons.prems obtain v c1 where w: "write_frame t p c = (Inr v, c1)" "write_frames fs c1 = (Inr u, c')"
    by (auto simp: a split: prod.splits sum.splits)
  show ?case
    using Cons.IH [OF w(2)] write_frame_Inr [OF w(1)] by (simp add: a wire_def)
qed (simp add: wire_def)

lemma read_frames_wire:
  "list_all (\<lambda>(t, p). length p \<le> MaxPayloadSize) fs \<Longrightarrow> rx c = wire fs @ r \<Longrightarrow>
   read_frames (length fs) c
     = (Inr (map (\<lambda>(t, p). \<lparr>fr_type = t, fr_flags = 0, fr_payload = p\<rparr>) fs), c\<lparr>rx := r\<rparr>)"
proof (induction fs arbitrary: c)
  case (Cons a fs)
  obtain t p where a: "a = (t, p)" by (cases a)
  have "read_frame c = (Inr \<lparr>fr_type = t, fr_flags = 0, fr_payload = p\<rparr>, c\<lparr>rx := wire fs @ r\<rparr>)"
    using Cons.prems by (intro read_frame_bytes) (auto simp: a wire_def)
  then show ?case
    using Cons.IH [of "c\<lparr>rx := wire fs @ r\<rparr>"] Cons.prems(1) by (simp add: a)
qed (simp add: wire_def)

text \<open>
C18: framing is self-delimiting. Any sequence of frames that was written without error is read back, by a reader whose input starts with those bytes, as exactly the same types and payloads in the same order, and the reader is left at the first byte after them.
\<close>

theorem frames_over_wire:
  assumes "write_frames fs c = (Inr u, c')" "rx d = drop (length (tx c)) (tx c') @ r"
  shows "read_frames (length fs) d
     = (Inr (map (\<lambda>(t, p). \<lparr>fr_type = t, fr_flags = 0, fr_payload = p\<rparr>) fs), d\<lparr>rx := r\<rparr>)"
  using write_frames_Inr [OF assms(1)] assms(2) by (intro read_frames_wire) auto

theorem frames_over_wire_witness:
  "read_frames 2 (mk_conn (wire [(TypePing, [1, 2]), (TypePong, [])] @ [9]))
     = (Inr [\<lparr>fr_type = TypePing, fr_flags = 0, fr_payload = [1, 2]\<rparr>,
             \<lparr>fr_type = TypePong, fr_flags = 0, fr_payload = []\<rparr>],
        mk_conn (wire [(TypePing, [1, 2]), (TypePong, [])] @ [9])\<lparr>rx := [9]\<rparr>)"
proof -
  let ?fs = "[(TypePing, [1, 2]), (TypePong, [])]"
  obtain c' where w: "write_frames ?fs (mk_conn []) = (Inr (), c')"
    by (simp add: write_frame_def mk_conn_def conn_write_def MaxPayloadSize_def)
  have "tx c' = wire ?fs" using write_frames_Inr [OF w] by (simp add: mk_conn_def)
  then show ?thesis
    using frames_over_wire [OF w, of "mk_conn (wire ?fs @ [9])" "[9]"]
    by (simp add: numeral_2_eq_2 del: read_frames.simps)
qed

text \<open>
What an accepted frame says is what was on the wire. When reading succeeds, the input began with the version byte, the type and flags of the frame, its length as a big-endian word and its payload; the payload is at most 64 KiB; and exactly those bytes are consumed, the rest of the input and what was sent being untouched.
\<close>

theorem read_frame_sound:
  assumes "read_frame c = (Inr f, c')"
  shows "(\<exists>x. rx c = [Version, fr_type f, fr_flags f, x] @ be32 (of_nat (length (fr_payload f)))
                 @ fr_payload f @ rx c') \<and>
     length (fr_payload f) \<le> MaxPayloadSize \<and> tx c' = tx c \<and> length (rx c') < length (rx c)"
  using read_frame_Inr [OF assms] read_frame_tx [OF assms] by auto

theorem read_frame_sound_witness:
  "\<exists>x. [1, 6, 0, 0, 0, 0, 0, 1, 42, 7] = [Version, TypePing, 0, x] @ be32 (of_nat (length [42 :: byte])) @ [42, 7]"
proof -
  let ?c = "mk_conn (frame_bytes TypePing [42] @ [7])"
  have b: "frame_bytes TypePing [42] @ [7] = [1, 6, 0, 0, 0, 0, 0, 1, 42, 7]"
    by (simp add: frame_bytes_def frame_header_def be32_def Version_def TypePing_def)
  have "read_frame ?c = (Inr \<lparr>fr_type = TypePing, fr_flags = 0, fr_payload = [42]\<rparr>, ?c\<lparr>rx := [7]\<rparr>)"
    by (rule read_frame_bytes) (simp_all add: MaxPayloadSize_def mk_conn_def)
  from read_frame_sound [OF this] show ?thesis
    by (simp add: mk_conn_def b)
qed

text \<open>
Which first bytes are a probe. Reading a frame fails as a probe exactly when a whole header has arrived and either its version byte is wrong or the length it announces is over 64 KiB; no payload byte is read in that case. A stream that ends before the header, or inside the payload, is an input error and not a probe.
\<close>

theorem read_frame_probe_iff:
  "(\<exists>e. fst (read_frame c) = Inl e \<and> is_probe e) \<longleftrightarrow>
     headerSize \<le> length (rx c) \<and>
     \<not> (rx c ! 0 = Version \<and> unat (rd32 (take 4 (drop 4 (rx c)))) \<le> MaxPayloadSize)"
proof (cases "headerSize \<le> length (rx c)")
  case True
  let ?n = "rd32 (take 4 (drop 4 (rx c)))"
  let ?r = "lift_io (read_full (unat ?n) (c\<lparr>rx := drop headerSize (rx c)\<rparr>))"
  from True have "read_full headerSize c = (Inr (take headerSize (rx c)), c\<lparr>rx := drop headerSize (rx c)\<rparr>)"
    by (simp add: read_full_def)
  moreover have "take 4 (drop 4 (take headerSize (rx c))) = take 4 (drop 4 (rx c))"
    "take headerSize (rx c) ! 0 = rx c ! 0"
    by (simp_all add: headerSize_def drop_take)
  ultimately have r: "read_frame c =
     (if rx c ! 0 \<noteq> Version then (Inl (Probe (BadVersion (rx c ! 0))), c\<lparr>rx := drop headerSize (rx c)\<rparr>)
      else if MaxPayloadSize < unat ?n then (Inl (Probe (HugePayload ?n)), c\<lparr>rx := drop headerSize (rx c)\<rparr>)
      else if ?n = 0 then (Inr (mk []), c\<lparr>rx := drop headerSize (rx c)\<rparr>)
      else case ?r of (Inl e, c2) \<Rightarrow> (Inl e, c2) | (Inr p, c2) \<Rightarrow> (Inr (mk p), c2))"
    if "mk = (\<lambda>p. \<lparr>fr_type = take headerSize (rx c) ! 1, fr_flags = take headerSize (rx c) ! 2, fr_payload = p\<rparr>)" for mk
    unfolding read_frame_def Let_def that by simp
  have "\<not> is_probe e" if "?r = (Inl e, d)" for e d
    using that by (auto simp: lift_io_Inl)
  then show ?thesis
    using True unfolding r [OF refl] by (auto split: prod.splits sum.splits)
next
  case False
  then show ?thesis by (auto simp: read_frame_def read_full_def)
qed

section \<open>What the parsers accept\<close>

text \<open>
Messages survive the wire. For every message type, a value whose Marshal succeeds is parsed back from its bytes as the same value.
\<close>

theorem messages_roundtrip:
  "(marshal_auth_request a = Inr p \<longrightarrow> parse_auth_request p = Inr a) \<and>
   (marshal_auth_response b = Inr p \<longrightarrow> parse_auth_response p = Inr b) \<and>
   (marshal_open_meta m = Inr p \<longrightarrow> parse_open_meta p = Inr m) \<and>
   (marshal_open_ack k = Inr p \<longrightarrow> parse_open_ack p = Inr k) \<and>
   (marshal_open_assoc s = Inr p \<longrightarrow> parse_open_assoc p = Inr s) \<and>
   (marshal_open_assoc_ack l = Inr p \<longrightarrow> parse_open_assoc_ack p = Inr l) \<and>
   (marshal_datagram d = Inr p \<longrightarrow> parse_datagram p = Inr d) \<and>
   (marshal_close_assoc c = Inr p \<longrightarrow> parse_close_assoc p = Inr c)"
  by (auto intro: auth_request.parse_marshal auth_response.parse_marshal open_meta.parse_marshal
      open_ack.parse_marshal open_assoc.parse_marshal open_assoc_ack.parse_marshal
      datagram.parse_marshal close_assoc.parse_marshal)

theorem messages_roundtrip_witness:
  "parse_auth_request [0, 1, 116, 0, 0] = Inr \<lparr>ar_token = ''t'', ar_agent_id = ''''\<rparr>"
  using messages_roundtrip [of "\<lparr>ar_token = ''t'', ar_agent_id = ''''\<rparr>" "[0, 1, 116, 0, 0]"]
  by (simp add: marshal_auth_request_def string_bytes_def be16_def bytes_of_string_def byte_of_char_def)

text \<open>
Nothing else is accepted. For the five requests and datagrams a payload taken from a frame is parsed as a value only when it is byte for byte what Marshal writes for that value, so no two payloads are read as the same message and a request with missing or trailing bytes is refused.
\<close>

theorem messages_strict:
  assumes "read_frame r = (Inr f, r')"
  shows "(parse_auth_request (fr_payload f) = Inr a \<longleftrightarrow> marshal_auth_request a = Inr (fr_payload f)) \<and>
   (parse_open_meta (fr_payload f) = Inr m \<longleftrightarrow> marshal_open_meta m = Inr (fr_payload f)) \<and>
   (parse_open_assoc (fr_payload f) = Inr s \<longleftrightarrow> marshal_open_assoc s = Inr (fr_payload f)) \<and>
   (parse_datagram (fr_payload f) = Inr d \<longleftrightarrow> marshal_datagram d = Inr (fr_payload f)) \<and>
   (parse_close_assoc (fr_payload f) = Inr c \<longleftrightarrow> marshal_close_assoc c = Inr (fr_payload f))"
proof -
  have "length (fr_payload f) \<le> MaxPayloadSize" using read_frame_Inr [OF assms] by auto
  then show ?thesis
    by (simp add: auth_request.parse_iff_marshal open_meta.parse_iff_marshal open_assoc.parse_iff_marshal
        datagram.parse_iff_marshal close_assoc.parse_iff_marshal)
qed

theorem messages_strict_witness:
  "parse_close_assoc [0, 0, 0, 7, 0] \<noteq> Inr \<lparr>ca_id = 7\<rparr>"
proof -
  let ?c = "mk_conn (frame_bytes TypeCloseAssoc [0, 0, 0, 7, 0])"
  have "read_frame ?c = (Inr \<lparr>fr_type = TypeCloseAssoc, fr_flags = 0, fr_payload = [0, 0, 0, 7, 0]\<rparr>, ?c\<lparr>rx := []\<rparr>)"
    by (rule read_frame_bytes) (simp_all add: MaxPayloadSize_def)
  from messages_strict [OF this, of _ _ _ _ "\<lparr>ca_id = 7\<rparr>"] show ?thesis
    by (simp add: marshal_close_assoc_def put_u32_def be32_def)
qed

lemma string_bytes_prefix_free:
  "length s \<le> 65535 \<Longrightarrow> length s' \<le> 65535 \<Longrightarrow>
   string_bytes s @ r = string_bytes s' @ r' \<longleftrightarrow> s = s' \<and> r = r'"
  using get_string_bytes(1) [of s r] get_string_bytes(1) [of s' r'] by (metis Inr_inject prod.inject)

lemma string_bytes_prefix_free_end:
  "length s \<le> 65535 \<Longrightarrow> length s' \<le> 65535 \<Longrightarrow> string_bytes s @ r = string_bytes s' \<longleftrightarrow> s = s' \<and> r = []"
  using string_bytes_prefix_free [of s s' r "[]"] by simp

lemma be32_prefix_free [simp]: "be32 i @ r = be32 j @ r' \<longleftrightarrow> i = j \<and> r = r'"
  using get_u32_be32(1) [of i r] get_u32_be32(1) [of j r'] by (metis Inr_inject prod.inject)

text \<open>
A cut-off request is never taken for a shorter one. If Marshal of an authentication, stream or association request succeeds, every proper prefix of its bytes is refused by the parser.
\<close>

theorem truncated_requests_refused:
  assumes "n < length p"
  shows "(marshal_auth_request a = Inr p \<longrightarrow> (\<forall>b. parse_auth_request (take n p) \<noteq> Inr b)) \<and>
   (marshal_open_meta m = Inr p \<longrightarrow> (\<forall>b. parse_open_meta (take n p) \<noteq> Inr b)) \<and>
   (marshal_open_assoc s = Inr p \<longrightarrow> (\<forall>b. parse_open_assoc (take n p) \<noteq> Inr b))"
proof (intro conjI impI allI notI)
  obtain q r where p: "take n p = q" "p = q @ r" "r \<noteq> []"
    using assms append_take_drop_id [of n p] drop_eq_Nil [of n p] by (metis not_less)
  show False if "marshal_auth_request a = Inr p" "parse_auth_request (take n p) = Inr b" for b
    using that(1) auth_request_tr [of q b] that(2) [unfolded p(1)] p(2,3)
    by (auto simp: marshal_defs string_bytes_prefix_free string_bytes_prefix_free_end)
  show False if "marshal_open_assoc s = Inr p" "parse_open_assoc (take n p) = Inr b" for b
    using that(1) open_assoc_tr [of q b] that(2) [unfolded p(1)] p(2,3)
    by (auto simp: marshal_defs string_bytes_prefix_free string_bytes_prefix_free_end)
  show False if "marshal_open_meta m = Inr p" "parse_open_meta (take n p) = Inr b" for b
    using that(1) open_meta_tr [of q b] that(2) [unfolded p(1)] p(2,3)
    by (auto simp: marshal_defs string_bytes_prefix_free string_bytes_prefix_free_end)
qed

theorem truncated_requests_refused_witness:
  "parse_auth_request [0, 1, 116] \<noteq> Inr \<lparr>ar_token = ''t'', ar_agent_id = ''''\<rparr>"
  using truncated_requests_refused [of 3 "[0, 1, 116, 0, 0]" "\<lparr>ar_token = ''t'', ar_agent_id = ''''\<rparr>"]
  by (simp add: marshal_auth_request_def string_bytes_def be16_def bytes_of_string_def byte_of_char_def)

text \<open>
A ping carries its time stamp. The payload has eight bytes, every 64-bit signed count of nanoseconds is read back unchanged, and a payload of any other length is refused.
\<close>

theorem ping_roundtrip:
  "(fits_int64 n \<longrightarrow> length (PingPayload n) = 8 \<and> ParsePing (PingPayload n) = Inr n) \<and>
   (length p \<noteq> 8 \<longrightarrow> ParsePing p = Inl PingPayloadSize)"
  by (auto simp: PingPayload_def ParsePing_def put_u64_def get_u64_def fits_int64_def
      sint_sbintrunc' signed_take_bit_int_eq_self)

theorem ping_roundtrip_witness:
  "ParsePing (PingPayload (-1)) = Inr (-1) \<and> ParsePing [1] = Inl PingPayloadSize"
  using ping_roundtrip [of "-1" "[1]"] by (simp add: fits_int64_def)

end
