(* ===== verification/Handshake.thy ===== *)
theory Handshake
  imports Frame
begin

text \<open>
  Authentication of the tunnel connection (\<open>internal/tunnel/handshake.go\<close>).

  Both ends are functions of their connection: what they read is \<open>rx\<close>, what they write is
  appended to \<open>tx\<close>. The hash of \<open>tokenValid\<close> (SHA-256) is the parameter \<open>sha\<close>; no property
  below needs more of it than that the two tokens at hand do not collide.
\<close>

definition token_valid :: "(bytes \<Rightarrow> bytes) \<Rightarrow> string \<Rightarrow> string \<Rightarrow> bool" where
  "token_valid sha got want \<longleftrightarrow> sha (bytes_of_string got) = sha (bytes_of_string want)"

definition write_auth :: "bool \<Rightarrow> string \<Rightarrow> conn \<Rightarrow> (tunnel_error + unit) \<times> conn" where
  "write_auth ok msg c =
     (case marshal_auth_response \<lparr>ap_ok = ok, ap_message = msg\<rparr> of
        Inl e \<Rightarrow> (Inl (Codec e), c)
      | Inr payload \<Rightarrow> write_frame TypeAuthResponse payload c)"

definition server_handshake ::
    "(bytes \<Rightarrow> bytes) \<Rightarrow> string \<Rightarrow> conn \<Rightarrow> (tunnel_error + string) \<times> conn" where
  "server_handshake sha token c =
     (case read_frame c of
        (Inl e, c1) \<Rightarrow> (Inl (Wrap ''read auth'' e), c1)
      | (Inr fr, c1) \<Rightarrow>
          if fr_type fr \<noteq> TypeAuthRequest then
            (Inl (Probe (NotAuthRequest (fr_type fr))), snd (write_auth False ''unauthorized'' c1))
          else case parse_auth_request (fr_payload fr) of
            Inl e \<Rightarrow> (Inl (Codec e), snd (write_auth False ''unauthorized'' c1))
          | Inr req \<Rightarrow>
              if \<not> token_valid sha (ar_token req) token then
                (Inl Unauthorized, snd (write_auth False ''unauthorized'' c1))
              else case write_auth True ''ok'' c1 of
                (Inl e, c2) \<Rightarrow> (Inl e, c2)
              | (Inr _, c2) \<Rightarrow> (Inr (ar_agent_id req), c2))"

definition client_handshake ::
    "string \<Rightarrow> string \<Rightarrow> conn \<Rightarrow> (tunnel_error + unit) \<times> conn" where
  "client_handshake token agent_id c =
     (case marshal_auth_request \<lparr>ar_token = token, ar_agent_id = agent_id\<rparr> of
        Inl e \<Rightarrow> (Inl (Codec e), c)
      | Inr payload \<Rightarrow>
          case write_frame TypeAuthRequest payload c of
            (Inl e, c1) \<Rightarrow> (Inl e, c1)
          | (Inr _, c1) \<Rightarrow>
              case read_frame c1 of
                (Inl e, c2) \<Rightarrow> (Inl (Wrap ''read auth response'' e), c2)
              | (Inr fr, c2) \<Rightarrow>
                  if fr_type fr \<noteq> TypeAuthResponse then
                    (Inl (ExpectedType TypeAuthResponse (fr_type fr)), c2)
                  else case parse_auth_response (fr_payload fr) of
                    Inl e \<Rightarrow> (Inl (Codec e), c2)
                  | Inr resp \<Rightarrow>
                      if \<not> ap_ok resp then
                        (Inl (if ap_message resp = '''' then Rejected ''unauthorized''
                              else Rejected (''auth rejected: '' @ ap_message resp)), c2)
                      else (Inr (), c2))"

section \<open>The reply\<close>

definition auth_reply :: "bool \<Rightarrow> string \<Rightarrow> bytes" where
  "auth_reply ok msg = frame_bytes TypeAuthResponse (ok_byte ok # string_bytes msg)"

lemma length_auth_reply: "length (auth_reply ok msg) = 11 + length msg"
  by (simp add: auth_reply_def frame_bytes_def headerSize_def)

lemma write_auth_ok:
  assumes "length msg \<le> 1000" and "can_write (length (auth_reply ok msg)) c"
  shows "\<exists>c'. write_auth ok msg c = (Inr (), c') \<and> tx c' = tx c @ auth_reply ok msg \<and> rx c' = rx c"
proof -
  let ?p = "ok_byte ok # string_bytes msg"
  have m: "marshal_auth_response \<lparr>ap_ok = ok, ap_message = msg\<rparr> = Inr ?p"
    using assms(1) by (simp add: marshal_defs)
  have "length ?p \<le> MaxPayloadSize" "can_write (headerSize + length ?p) c"
    using assms by (simp_all add: MaxPayloadSize_def auth_reply_def frame_bytes_def)
  from write_frame_ok [OF this, of TypeAuthResponse] show ?thesis
    by (auto simp: write_auth_def m auth_reply_def)
qed

lemma write_auth_Inr: "write_auth ok msg c = (Inr u, c') \<Longrightarrow> tx c' = tx c @ auth_reply ok msg"
  by (auto simp: write_auth_def auth_reply_def marshal_defs put_string_def string_bytes_def
      split: if_splits dest!: write_frame_Inr(2))

lemma read_auth_reply:
  assumes "rx c = auth_reply ok msg @ r" and "length msg \<le> 1000"
  shows "read_frame c = (Inr \<lparr>fr_type = TypeAuthResponse, fr_flags = 0,
            fr_payload = ok_byte ok # string_bytes msg\<rparr>, c\<lparr>rx := r\<rparr>)"
  using assms by (auto simp: auth_reply_def MaxPayloadSize_def intro!: read_frame_bytes)

lemma parse_auth_reply:
  "length msg \<le> 1000 \<Longrightarrow>
   parse_auth_response (ok_byte ok # string_bytes msg) = Inr \<lparr>ap_ok = ok, ap_message = msg\<rparr>"
  by (rule auth_response_rt) (simp add: marshal_defs)

section \<open>What the server concludes from the bytes it reads\<close>

text \<open>The four outcomes, by what the stream starts with.\<close>

lemma server_handshake_request:
  assumes "marshal_auth_request \<lparr>ar_token = tok, ar_agent_id = aid\<rparr> = Inr p"
    and "length p \<le> MaxPayloadSize" and "rx c = frame_bytes TypeAuthRequest p @ r"
  shows "server_handshake sha token c =
     (if token_valid sha tok token then
        (case write_auth True ''ok'' (c\<lparr>rx := r\<rparr>) of
           (Inl e, c2) \<Rightarrow> (Inl e, c2) | (Inr _, c2) \<Rightarrow> (Inr aid, c2))
      else (Inl Unauthorized, snd (write_auth False ''unauthorized'' (c\<lparr>rx := r\<rparr>))))"
  using read_frame_bytes [OF assms(2,3)] auth_request_rt [OF assms(1)]
  by (auto simp: server_handshake_def split: prod.splits sum.splits)

lemma server_handshake_Inr:
  assumes "server_handshake sha token c = (Inr aid, c')"
  shows "\<exists>f c1 tok. read_frame c = (Inr f, c1) \<and> fr_type f = TypeAuthRequest
     \<and> marshal_auth_request \<lparr>ar_token = tok, ar_agent_id = aid\<rparr> = Inr (fr_payload f)
     \<and> token_valid sha tok token \<and> tx c' = tx c @ auth_reply True ''ok''"
proof -
  obtain f c1 req where r: "read_frame c = (Inr f, c1)" and t: "fr_type f = TypeAuthRequest"
    and p: "parse_auth_request (fr_payload f) = Inr req" and v: "token_valid sha (ar_token req) token"
    and w: "write_auth True ''ok'' c1 = (Inr (), c')" and a: "aid = ar_agent_id req"
    using assms by (auto simp: server_handshake_def split: prod.splits sum.splits if_splits)
  have "marshal_auth_request \<lparr>ar_token = ar_token req, ar_agent_id = aid\<rparr> = Inr (fr_payload f)"
    using auth_request_tr [OF p] a by (cases req) simp
  then show ?thesis
    using r t v write_auth_Inr [OF w] read_frame_tx [OF r] by auto
qed

lemma server_handshake_errors:
  assumes "server_handshake sha token c = (Inl e, c')"
  shows "(\<exists>e0. fst (read_frame c) = Inl e0 \<and> e = Wrap ''read auth'' e0 \<and> tx c' = tx c) \<or>
     (\<exists>f c1 e1. read_frame c = (Inr f, c1)
        \<and> (e = Probe (NotAuthRequest (fr_type f)) \<and> fr_type f \<noteq> TypeAuthRequest
           \<or> e = Codec e1 \<and> fr_type f = TypeAuthRequest \<and> parse_auth_request (fr_payload f) = Inl e1
           \<or> e = Unauthorized \<and> fr_type f = TypeAuthRequest)
        \<and> c' = snd (write_auth False ''unauthorized'' c1)) \<or>
     (\<exists>f c1. read_frame c = (Inr f, c1) \<and> write_auth True ''ok'' c1 = (Inl e, c'))"
  using assms read_frame_tx
  by (auto simp: server_handshake_def split: prod.splits sum.splits if_splits)

lemma read_frame_Inl:
  assumes "fst (read_frame c) = Inl e"
  shows "is_probe e \<longleftrightarrow> headerSize \<le> length (rx c) \<and>
     (rx c ! 0 \<noteq> Version \<or> unat (rd32 (take 4 (drop 4 (rx c)))) > MaxPayloadSize)"
    "\<not> is_unauthorized e"
  using assms
  by (auto simp: read_frame_def read_full_def lift_io_def Let_def headerSize_def drop_take
      split: if_splits prod.splits sum.splits)

lemma write_auth_Inl: "write_auth True ''ok'' c = (Inl e, c') \<Longrightarrow> \<not> is_probe e \<and> \<not> is_unauthorized e"
  by (auto simp: write_auth_def write_frame_def marshal_defs lift_io_def
      split: if_splits prod.splits sum.splits)

section \<open>Properties\<close>

text \<open>C19: the two ends agree. When the request fits in a frame and the tokens are equal, the server
  reading what the client wrote returns the client's agent id, and the client reading what the
  server wrote returns success; each end consumed exactly the other's message.\<close>

theorem handshake_agree:
  assumes "marshal_auth_request \<lparr>ar_token = token, ar_agent_id = aid\<rparr> = Inr p"
    and "length p \<le> MaxPayloadSize"
  shows "\<exists>srv cli. server_handshake sha token (mk_conn (tx cli)) = (Inr aid, srv)
     \<and> client_handshake token aid (mk_conn (tx srv)) = (Inr (), cli) \<and> rx srv = [] \<and> rx cli = []"
proof -
  let ?q = "frame_bytes TypeAuthRequest p"
  obtain srv where w: "write_auth True ''ok'' (mk_conn ?q\<lparr>rx := []\<rparr>) = (Inr (), srv)"
    and srv: "tx srv = auth_reply True ''ok''" "rx srv = []"
    using write_auth_ok [of "''ok''" True "mk_conn ?q\<lparr>rx := []\<rparr>"] by auto
  have s: "server_handshake sha token (mk_conn ?q) = (Inr aid, srv)"
    using server_handshake_request [OF assms, of "mk_conn ?q" "[]"] w by (simp add: token_valid_def)
  obtain c1 where c1: "write_frame TypeAuthRequest p (mk_conn (tx srv)) = (Inr (), c1)"
    "tx c1 = ?q" "rx c1 = tx srv"
    using write_frame_ok [OF assms(2), of "mk_conn (tx srv)" TypeAuthRequest] by auto
  have "client_handshake token aid (mk_conn (tx srv)) = (Inr (), c1\<lparr>rx := []\<rparr>)"
    using read_auth_reply [of c1 True "''ok''" "[]"] c1 srv parse_auth_reply [of "''ok''" True]
    by (simp add: client_handshake_def assms(1))
  then show ?thesis
    using s srv c1 by (intro exI [of _ srv] exI [of _ "c1\<lparr>rx := []\<rparr>"]) simp
qed

theorem handshake_agree_witness:
  "\<exists>srv cli. server_handshake id ''tok'' (mk_conn (tx cli)) = (Inr ''a1'', srv)
     \<and> client_handshake ''tok'' ''a1'' (mk_conn (tx srv)) = (Inr (), cli) \<and> rx srv = [] \<and> rx cli = []"
  by (rule handshake_agree [of _ _ "string_bytes ''tok'' @ string_bytes ''a1''"])
    (simp_all add: marshal_defs MaxPayloadSize_def)

text \<open>A wrong token is refused and both ends know it. If the hash separates the two tokens, the
  server returns the unauthorized error, which counts towards a ban and is not a probe, and the
  client reading the reply reports the rejection.\<close>

theorem handshake_reject:
  assumes "marshal_auth_request \<lparr>ar_token = tok, ar_agent_id = aid\<rparr> = Inr p"
    and "length p \<le> MaxPayloadSize"
    and "sha (bytes_of_string tok) \<noteq> sha (bytes_of_string token)"
  shows "\<exists>srv cli. server_handshake sha token (mk_conn (tx cli)) = (Inl Unauthorized, srv)
     \<and> client_handshake tok aid (mk_conn (tx srv)) = (Inl (Rejected ''auth rejected: unauthorized''), cli)"
proof -
  let ?q = "frame_bytes TypeAuthRequest p" and ?m = "''unauthorized''"
  obtain srv where w: "write_auth False ?m (mk_conn ?q\<lparr>rx := []\<rparr>) = (Inr (), srv)"
    and srv: "tx srv = auth_reply False ?m"
    using write_auth_ok [of ?m False "mk_conn ?q\<lparr>rx := []\<rparr>"] by auto
  have s: "server_handshake sha token (mk_conn ?q) = (Inl Unauthorized, srv)"
    using server_handshake_request [OF assms(1,2), of "mk_conn ?q" "[]"] w assms(3)
    by (simp add: token_valid_def)
  obtain c1 where c1: "write_frame TypeAuthRequest p (mk_conn (tx srv)) = (Inr (), c1)"
    "tx c1 = ?q" "rx c1 = tx srv"
    using write_frame_ok [OF assms(2), of "mk_conn (tx srv)" TypeAuthRequest] by auto
  have "client_handshake tok aid (mk_conn (tx srv))
          = (Inl (Rejected ''auth rejected: unauthorized''), c1\<lparr>rx := []\<rparr>)"
    using read_auth_reply [of c1 False ?m "[]"] c1 srv parse_auth_reply [of ?m False]
    by (simp add: client_handshake_def assms(1))
  then show ?thesis
    using s c1 by (intro exI [of _ srv] exI [of _ "c1\<lparr>rx := []\<rparr>"]) simp
qed

theorem handshake_reject_witness:
  "\<exists>srv cli. server_handshake id ''tok'' (mk_conn (tx cli)) = (Inl Unauthorized, srv)
     \<and> client_handshake ''bad'' ''a1'' (mk_conn (tx srv))
         = (Inl (Rejected ''auth rejected: unauthorized''), cli)"
  by (rule handshake_reject [of _ _ "string_bytes ''bad'' @ string_bytes ''a1''"])
    (simp_all add: marshal_defs MaxPayloadSize_def)

text \<open>C1: the server admits an agent only on a well-formed request. Whenever it returns an agent id,
  the stream started with one AuthRequest frame that is exactly the marshalled request for that id
  and a token with the configured token's hash, and the reply is one frame that says OK.\<close>

theorem server_accepts_only_authenticated:
  assumes "server_handshake sha token c = (Inr aid, c')"
  shows "\<exists>tok x flags p r. marshal_auth_request \<lparr>ar_token = tok, ar_agent_id = aid\<rparr> = Inr p
     \<and> rx c = [Version, TypeAuthRequest, flags, x] @ be32 (of_nat (length p)) @ p @ r
     \<and> sha (bytes_of_string tok) = sha (bytes_of_string token)
     \<and> tx c' = tx c @ auth_reply True ''ok''"
proof -
  obtain f c1 tok where f: "read_frame c = (Inr f, c1)" "fr_type f = TypeAuthRequest"
    "marshal_auth_request \<lparr>ar_token = tok, ar_agent_id = aid\<rparr> = Inr (fr_payload f)"
    "token_valid sha tok token" "tx c' = tx c @ auth_reply True ''ok''"
    using server_handshake_Inr [OF assms] by blast
  with read_frame_Inr [OF f(1)] show ?thesis
    unfolding token_valid_def by metis
qed

theorem server_accepts_only_authenticated_witness:
  "\<exists>tok x flags p r. marshal_auth_request \<lparr>ar_token = tok, ar_agent_id = ''a''\<rparr> = Inr p
     \<and> rx (mk_conn (frame_bytes TypeAuthRequest (string_bytes ''t'' @ string_bytes ''a'')))
         = [Version, TypeAuthRequest, flags, x] @ be32 (of_nat (length p)) @ p @ r
     \<and> id (bytes_of_string tok) = id (bytes_of_string ''t'')
     \<and> tx (snd (server_handshake id ''t''
           (mk_conn (frame_bytes TypeAuthRequest (string_bytes ''t'' @ string_bytes ''a'')))))
         = tx (mk_conn (frame_bytes TypeAuthRequest (string_bytes ''t'' @ string_bytes ''a'')))
           @ auth_reply True ''ok''"
proof (rule server_accepts_only_authenticated)
  let ?p = "string_bytes ''t'' @ string_bytes ''a''"
  let ?c = "mk_conn (frame_bytes TypeAuthRequest ?p)"
  have "server_handshake id ''t'' ?c
      = (case write_auth True ''ok'' (?c\<lparr>rx := []\<rparr>) of
           (Inl e, c2) \<Rightarrow> (Inl e, c2) | (Inr _, c2) \<Rightarrow> (Inr ''a'', c2))"
    by (subst server_handshake_request [where p = ?p and tok = "''t''" and aid = "''a''" and r = "[]"])
      (simp_all add: marshal_defs MaxPayloadSize_def token_valid_def)
  moreover have "\<exists>c'. write_auth True ''ok'' (?c\<lparr>rx := []\<rparr>) = (Inr (), c')"
    using write_auth_ok [of "''ok''" True "?c\<lparr>rx := []\<rparr>"] by auto
  ultimately show "server_handshake id ''t'' ?c = (Inr ''a'', snd (server_handshake id ''t'' ?c))"
    by auto
qed

text \<open>Which failures are which. A failed handshake is a probe exactly when a whole frame header
  arrived that is not this protocol's (wrong version, or a length beyond the limit) or a frame of
  another type arrived; it is an unauthorized attempt exactly when a well-formed AuthRequest carried
  a token with another hash. Truncated or malformed requests are neither.\<close>

theorem server_error_classes:
  assumes "server_handshake sha token c = (Inl e, c')"
  shows "(is_probe e \<longleftrightarrow>
       headerSize \<le> length (rx c)
         \<and> (rx c ! 0 \<noteq> Version \<or> unat (rd32 (take 4 (drop 4 (rx c)))) > MaxPayloadSize)
         \<and> (\<forall>f c1. read_frame c \<noteq> (Inr f, c1))
       \<or> (\<exists>f c1. read_frame c = (Inr f, c1) \<and> fr_type f \<noteq> TypeAuthRequest))
   \<and> (is_unauthorized e \<longleftrightarrow>
       (\<exists>f c1 req. read_frame c = (Inr f, c1) \<and> fr_type f = TypeAuthRequest
          \<and> parse_auth_request (fr_payload f) = Inr req
          \<and> sha (bytes_of_string (ar_token req)) \<noteq> sha (bytes_of_string token)))"
  using assms read_frame_Inl [of c]
  by (auto simp: server_handshake_def token_valid_def dest: write_auth_Inl
      split: prod.splits sum.splits if_splits)

text \<open>A web scanner's request line: refused as a probe of version 71, the letter G.\<close>

lemma http_read:
  "read_frame (mk_conn (bytes_of_string ''GET / HTTP/1.1''))
     = (Inl (Probe (BadVersion 71)), mk_conn (bytes_of_string ''TP/1.1''))"
  by (simp add: read_frame_def read_full_def headerSize_def lift_io_def
      bytes_of_string_def byte_of_char_def Version_def mk_conn_def)

lemma http_probe:
  "server_handshake id ''t'' (mk_conn (bytes_of_string ''GET / HTTP/1.1''))
     = (Inl (Wrap ''read auth'' (Probe (BadVersion 71))), mk_conn (bytes_of_string ''TP/1.1''))"
  by (simp add: server_handshake_def http_read)

theorem server_error_classes_witness:
  "is_probe (Wrap ''read auth'' (Probe (BadVersion 71)))
   \<and> \<not> (\<exists>f c1. read_frame (mk_conn (bytes_of_string ''GET / HTTP/1.1'')) = (Inr f, c1))"
  using server_error_classes [OF http_probe] http_read by simp

text \<open>The server answers once, and only a peer whose first frame it could read. On a connection
  that takes writes, it writes nothing at all when no frame could be read, and otherwise exactly one
  AuthResponse, saying OK with "ok" if it admits the agent and not OK with "unauthorized" if not.\<close>

theorem server_replies_once:
  assumes "can_write 100 c"
  shows "tx (snd (server_handshake sha token c)) = tx c @
     (case read_frame c of
        (Inl _, _) \<Rightarrow> []
      | (Inr _, _) \<Rightarrow>
          (case server_handshake sha token c of
             (Inr _, _) \<Rightarrow> auth_reply True ''ok''
           | (Inl _, _) \<Rightarrow> auth_reply False ''unauthorized''))"
proof (cases "read_frame c")
  case (Pair r c1)
  have c1: "tx c1 = tx c" "can_write 100 c1"
    using read_frame_tx [OF Pair] assms by (auto simp: can_write_def)
  have w: "can_write (length (auth_reply ok msg)) c1" if "length msg \<le> 12" for ok msg
    using c1(2) that by (auto simp: can_write_def length_auth_reply split: option.splits)
  obtain y where y: "write_auth True ''ok'' c1 = (Inr (), y)" "tx y = tx c @ auth_reply True ''ok''"
    using write_auth_ok [OF _ w, of "''ok''" True] c1 by auto
  obtain n where n: "write_auth False ''unauthorized'' c1 = (Inr (), n)"
    "tx n = tx c @ auth_reply False ''unauthorized''"
    using write_auth_ok [OF _ w, of "''unauthorized''" False] c1 by auto
  show ?thesis
    using Pair c1 y n by (auto simp: server_handshake_def split: sum.splits)
qed

theorem server_replies_once_witness:
  "tx (snd (server_handshake id ''t'' (mk_conn (bytes_of_string ''GET / HTTP/1.1'')))) = []"
  using server_replies_once [of "mk_conn (bytes_of_string ''GET / HTTP/1.1'')" id "''t''"]
    http_probe by simp

end
