(* ===== verification/Session.thy ===== *)
theory Session
  imports Handshake
begin

text \<open>
  The tunnel session (\<open>internal/tunnel/session.go\<close>): opening and accepting data streams, the
  acknowledgement, and the ping loops. yamux is a parameter: \<open>mux.Open\<close> and \<open>mux.Accept\<close>
  appear as the result they return, an error or a stream whose \<open>rx\<close> is what the peer sends.
\<close>

section \<open>Opening a stream (Edge side)\<close>

text \<open>\<open>OpenData\<close>: the deferred \<open>Close\<close> runs on every path that does not set \<open>ok\<close>. The
  result is the stream (usable only with \<open>Inr\<close>).\<close>

definition open_data :: "tunnel_error + conn \<Rightarrow> open_meta \<Rightarrow> (tunnel_error + unit) \<times> conn option" where
  "open_data opened m =
     (case opened of
        Inl e \<Rightarrow> (Inl e, None)
      | Inr stream \<Rightarrow>
          case marshal_open_meta m of
            Inl e \<Rightarrow> (Inl (Codec e), Some (close_conn stream))
          | Inr payload \<Rightarrow>
              case write_frame TypeOpenStream payload stream of
                (Inl e, s1) \<Rightarrow> (Inl e, Some (close_conn s1))
              | (Inr _, s1) \<Rightarrow>
                  case read_frame s1 of
                    (Inl e, s2) \<Rightarrow> (Inl (Wrap ''read open ack'' e), Some (close_conn s2))
                  | (Inr fr, s2) \<Rightarrow>
                      if fr_type fr \<noteq> TypeOpenStreamAck then
                        (Inl (ExpectedType TypeOpenStreamAck (fr_type fr)), Some (close_conn s2))
                      else case parse_open_ack (fr_payload fr) of
                        Inl e \<Rightarrow> (Inl (Codec e), Some (close_conn s2))
                      | Inr ack \<Rightarrow>
                          if \<not> oa_ok ack then
                            (Inl (if oa_message ack = '''' then Rejected ''agent rejected stream''
                                  else Rejected (''agent rejected stream: '' @ oa_message ack)),
                             Some (close_conn s2))
                          else (Inr (), Some s2))"

section \<open>Accepting a stream (Agent side)\<close>

definition accept_data :: "tunnel_error + conn \<Rightarrow> (tunnel_error + open_meta) \<times> conn option" where
  "accept_data accepted =
     (case accepted of
        Inl e \<Rightarrow> (Inl e, None)
      | Inr stream \<Rightarrow>
          case read_frame stream of
            (Inl e, s1) \<Rightarrow> (Inl e, Some (close_conn s1))
          | (Inr fr, s1) \<Rightarrow>
              if fr_type fr \<noteq> TypeOpenStream then
                (Inl (ExpectedType TypeOpenStream (fr_type fr)), Some (close_conn s1))
              else case parse_open_meta (fr_payload fr) of
                Inl e \<Rightarrow> (Inl (Codec e), Some (close_conn s1))
              | Inr m \<Rightarrow> (Inr m, Some s1))"

definition ack_data :: "bool \<Rightarrow> string \<Rightarrow> conn \<Rightarrow> (tunnel_error + unit) \<times> conn" where
  "ack_data ok msg stream =
     (case marshal_open_ack \<lparr>oa_ok = ok, oa_message = msg\<rparr> of
        Inl e \<Rightarrow> (Inl (Codec e), stream)
      | Inr payload \<Rightarrow> write_frame TypeOpenStreamAck payload stream)"

section \<open>Ping and Pong\<close>

text \<open>\<open>ServePong\<close> loops until the stream fails; every frame read makes the stream shorter, which
  is why it ends.\<close>

lemma exchange_shrinks:
  "read_frame c = (Inr f, c1) \<Longrightarrow> write_frame t p c1 = (r, c2) \<Longrightarrow> length (rx c2) < length (rx c)"
  using read_frame_shrinks [of c f c1] write_frame_rx [of t p c1 r c2] by simp

function serve_pong :: "conn \<Rightarrow> tunnel_error \<times> conn" where
  "serve_pong stream =
     (case read_frame stream of
        (Inl e, s1) \<Rightarrow> (e, close_conn s1)
      | (Inr fr, s1) \<Rightarrow>
          if fr_type fr \<noteq> TypePing then serve_pong s1
          else case write_frame TypePong (fr_payload fr) s1 of
            (Inl e, s2) \<Rightarrow> (e, close_conn s2)
          | (Inr _, s2) \<Rightarrow> serve_pong s2)"
  by pat_completeness auto
termination
  by (relation "measure (\<lambda>c. length (rx c))")
    (auto dest: read_frame_shrinks exchange_shrinks dest!: sym [of "(_, _)"])

declare serve_pong.simps [simp del]

text \<open>One round trip: \<open>nsec\<close> is the send time, \<open>elapsed\<close> what \<open>time.Since\<close> measures when
  the reply is in. The result is the sample passed to the observer.\<close>

definition send_ping_wait_pong :: "int \<Rightarrow> int \<Rightarrow> conn \<Rightarrow> (tunnel_error + int) \<times> conn" where
  "send_ping_wait_pong nsec elapsed stream =
     (case write_frame TypePing (PingPayload nsec) stream of
        (Inl e, s1) \<Rightarrow> (Inl e, s1)
      | (Inr _, s1) \<Rightarrow>
          case read_frame s1 of
            (Inl e, s2) \<Rightarrow> (Inl e, s2)
          | (Inr fr, s2) \<Rightarrow>
              if fr_type fr \<noteq> TypePong then (Inl (ExpectedType TypePong (fr_type fr)), s2)
              else (Inr elapsed, s2))"

text \<open>\<open>RunPing\<close>: one exchange at once and one per tick of the timer. A list of (send time,
  elapsed) pairs stands for the exchanges so far; the result is the error that ended the loop
  (\<open>None\<close>: still running), the samples observed and the stream.\<close>

fun run_ping :: "(int \<times> int) list \<Rightarrow> conn \<Rightarrow> tunnel_error option \<times> int list \<times> conn" where
  "run_ping [] stream = (None, [], stream)"
| "run_ping ((nsec, elapsed) # ticks) stream =
     (case send_ping_wait_pong nsec elapsed stream of
        (Inl e, s1) \<Rightarrow> (Some e, [], close_conn s1)
      | (Inr rtt, s1) \<Rightarrow>
          (case run_ping ticks s1 of (r, obs, s2) \<Rightarrow> (r, rtt # obs, s2)))"

section \<open>Facts\<close>

lemma parse_open_ack_bytes:
  "length msg \<le> 65535 \<Longrightarrow>
   parse_open_ack (ok_byte ok # string_bytes msg) = Inr \<lparr>oa_ok = ok, oa_message = msg\<rparr>"
  by (rule open_ack_rt) (simp add: marshal_defs)

lemma marshal_ack_bytes:
  "length msg \<le> 65000 \<Longrightarrow>
   marshal_open_ack \<lparr>oa_ok = ok, oa_message = msg\<rparr> = Inr (ok_byte ok # string_bytes msg)"
  by (simp add: marshal_defs)

lemma ack_data_ok:
  assumes "length msg \<le> 65000" and "can_write (length msg + 11) c"
  shows "\<exists>c'. ack_data ok msg c = (Inr (), c') \<and> rx c' = rx c
     \<and> tx c' = tx c @ frame_bytes TypeOpenStreamAck (ok_byte ok # string_bytes msg)"
proof -
  let ?p = "ok_byte ok # string_bytes msg"
  have "length ?p \<le> MaxPayloadSize" "can_write (headerSize + length ?p) c"
    using assms by (simp_all add: MaxPayloadSize_def headerSize_def add.commute)
  from write_frame_ok [OF this, of TypeOpenStreamAck] show ?thesis
    by (auto simp: ack_data_def marshal_ack_bytes assms(1))
qed

lemma accept_data_bytes:
  assumes "marshal_open_meta m = Inr p" and "length p \<le> MaxPayloadSize"
    and "rx c = frame_bytes TypeOpenStream p @ r"
  shows "accept_data (Inr c) = (Inr m, Some (c\<lparr>rx := r\<rparr>))"
  using read_frame_bytes [OF assms(2,3)] open_meta_rt [OF assms(1)] by (simp add: accept_data_def)

lemma read_pong:
  assumes "rx c = frame_bytes TypePong (PingPayload n) @ r"
  shows "read_frame c = (Inr \<lparr>fr_type = TypePong, fr_flags = 0, fr_payload = PingPayload n\<rparr>,
            c\<lparr>rx := r\<rparr>)"
  using assms by (auto simp: PingPayload_def put_u64_def MaxPayloadSize_def intro!: read_frame_bytes)

lemma serve_pong_ping:
  assumes "rx c = frame_bytes TypePing p @ r" and "length p \<le> MaxPayloadSize" and "tx_room c = None"
  shows "serve_pong c = serve_pong (c\<lparr>rx := r, tx := tx c @ frame_bytes TypePong p\<rparr>)"
proof -
  let ?c = "c\<lparr>rx := r\<rparr>"
  have w: "write_frame TypePong p ?c = (Inr (), ?c\<lparr>tx := tx c @ frame_bytes TypePong p\<rparr>)"
    using assms(2,3) by (simp add: write_frame_def conn_write_def frame_bytes_def)
  show ?thesis
    using read_frame_bytes [OF assms(2,1)] w by (subst serve_pong.simps) simp
qed

lemma serve_pong_end: "rx c = [] \<Longrightarrow> serve_pong c = (Io (rx_err c), close_conn c)"
  by (subst serve_pong.simps) (auto simp: read_frame_def read_full_def headerSize_def)

section \<open>Properties\<close>

text \<open>A data stream opens end to end. If the metadata fits in a frame, the Agent reading what Edge
  wrote accepts exactly that metadata and keeps the bytes that follow it, and Edge reading the
  Agent's OK acknowledgement succeeds, leaves the stream open and keeps the bytes that follow it:
  the raw data of both directions starts right after the two frames.\<close>

theorem stream_open_agree:
  assumes "marshal_open_meta m = Inr p" and "length p \<le> MaxPayloadSize"
  shows "\<exists>edge agent ag2. open_data (Inr (mk_conn (tx ag2 @ d2))) m = (Inr (), Some edge)
     \<and> accept_data (Inr (mk_conn (tx edge @ d1))) = (Inr m, Some agent)
     \<and> ack_data True ''ok'' agent = (Inr (), ag2)
     \<and> rx agent = d1 \<and> rx edge = d2 \<and> \<not> closed edge"
proof -
  let ?f = "frame_bytes TypeOpenStream p" and ?q = "ok_byte True # string_bytes ''ok''"
  let ?g = "frame_bytes TypeOpenStreamAck ?q"
  obtain ag2 where a: "ack_data True ''ok'' (mk_conn (?f @ d1)\<lparr>rx := d1\<rparr>) = (Inr (), ag2)"
    and tx2: "tx ag2 = ?g"
    using ack_data_ok [of "''ok''" "mk_conn (?f @ d1)\<lparr>rx := d1\<rparr>" True] by auto
  obtain c1 where w: "write_frame TypeOpenStream p (mk_conn (?g @ d2)) = (Inr (), c1)"
    and c1: "tx c1 = ?f" "rx c1 = ?g @ d2" "\<not> closed c1"
    using write_frame_ok [OF assms(2), of "mk_conn (?g @ d2)" TypeOpenStream] by auto
  have r: "read_frame c1 = (Inr \<lparr>fr_type = TypeOpenStreamAck, fr_flags = 0, fr_payload = ?q\<rparr>,
             c1\<lparr>rx := d2\<rparr>)"
    by (rule read_frame_bytes) (simp_all add: c1 MaxPayloadSize_def)
  have "open_data (Inr (mk_conn (tx ag2 @ d2))) m = (Inr (), Some (c1\<lparr>rx := d2\<rparr>))"
    using parse_open_ack_bytes [of "''ok''" True] by (simp add: open_data_def assms(1) tx2 w r)
  moreover have "accept_data (Inr (mk_conn (tx (c1\<lparr>rx := d2\<rparr>) @ d1)))
      = (Inr m, Some (mk_conn (?f @ d1)\<lparr>rx := d1\<rparr>))"
    using accept_data_bytes [OF assms, of "mk_conn (?f @ d1)" d1] c1 by simp
  ultimately show ?thesis
    using a c1 by (intro exI [of _ "c1\<lparr>rx := d2\<rparr>"] exI [of _ "mk_conn (?f @ d1)\<lparr>rx := d1\<rparr>"]
        exI [of _ ag2]) simp
qed

theorem stream_open_agree_witness:
  "\<exists>edge agent ag2. open_data (Inr (mk_conn (tx ag2 @ [9]))) \<lparr>om_name = ''ssh'',
        om_local = ''127.0.0.1:22'', om_client_addr = ''a'', om_proto = ProtoTCP\<rparr> = (Inr (), Some edge)
     \<and> accept_data (Inr (mk_conn (tx edge @ [7]))) = (Inr \<lparr>om_name = ''ssh'',
        om_local = ''127.0.0.1:22'', om_client_addr = ''a'', om_proto = ProtoTCP\<rparr>, Some agent)
     \<and> ack_data True ''ok'' agent = (Inr (), ag2)
     \<and> rx agent = [7] \<and> rx edge = [9] \<and> \<not> closed edge"
  by (rule stream_open_agree [of _
        "ProtoTCP # string_bytes ''ssh'' @ string_bytes ''127.0.0.1:22'' @ string_bytes ''a''"])
    (simp_all add: marshal_defs MaxPayloadSize_def)

text \<open>\<open>OpenData\<close> never leaks a stream. Whatever the peer does, a stream that was opened is
  closed again exactly when the call fails, and when it succeeds the metadata was written whole.\<close>

theorem open_data_closes_on_failure:
  assumes "\<not> closed stream"
  shows "(case open_data (Inr stream) m of
      (Inl e, Some s) \<Rightarrow> closed s
    | (Inr _, Some s) \<Rightarrow> \<not> closed s \<and>
        (case marshal_open_meta m of
           Inr p \<Rightarrow> tx s = tx stream @ frame_bytes TypeOpenStream p | Inl _ \<Rightarrow> False)
    | (_, None) \<Rightarrow> False)"
  using assms write_frame_rx [of TypeOpenStream _ stream] write_frame_Inr(2) [of TypeOpenStream _ stream]
    read_frame_tx
  by (auto simp: open_data_def split: sum.splits prod.splits)

theorem open_data_closes_on_failure_witness:
  "\<not> closed (mk_conn []) \<and> (case open_data (Inr (mk_conn [])) \<lparr>om_name = ''n'', om_local = ''l'',
        om_client_addr = ''c'', om_proto = ProtoTCP\<rparr> of
      (Inl e, Some s) \<Rightarrow> closed s
    | (Inr _, Some s) \<Rightarrow> \<not> closed s \<and>
        (case marshal_open_meta \<lparr>om_name = ''n'', om_local = ''l'',
            om_client_addr = ''c'', om_proto = ProtoTCP\<rparr> of
           Inr p \<Rightarrow> tx s = tx (mk_conn []) @ frame_bytes TypeOpenStream p | Inl _ \<Rightarrow> False)
    | (_, None) \<Rightarrow> False)"
  using open_data_closes_on_failure [of "mk_conn []"] by simp

text \<open>The Agent echoes every ping. Reading a stream of pings, whatever their payloads and however
  many, \<open>ServePong\<close> writes a pong with the same payload for each, in order, and ends, closing
  the stream, with the error that ended the reads.\<close>

theorem serve_pong_echoes:
  assumes "rx c = concat (map (frame_bytes TypePing) ps)" and "\<forall>p \<in> set ps. length p \<le> MaxPayloadSize"
    and "tx_room c = None"
  shows "\<exists>c'. serve_pong c = (Io (rx_err c), c') \<and> closed c'
     \<and> tx c' = tx c @ concat (map (frame_bytes TypePong) ps)"
  using assms
proof (induction ps arbitrary: c)
  case Nil
  then show ?case by (simp add: serve_pong_end)
next
  case (Cons p ps)
  let ?r = "concat (map (frame_bytes TypePing) ps)"
  let ?c = "c\<lparr>rx := ?r, tx := tx c @ frame_bytes TypePong p\<rparr>"
  have "serve_pong c = serve_pong ?c"
    using Cons.prems by (intro serve_pong_ping) simp_all
  with Cons.IH [of ?c] Cons.prems show ?case by simp
qed

theorem serve_pong_echoes_witness:
  "\<exists>c'. serve_pong (mk_conn (concat (map (frame_bytes TypePing) [[1], [2, 3]]))) = (Io EOF, c')
     \<and> closed c' \<and> tx c' = concat (map (frame_bytes TypePong) [[1], [2, 3]])"
  using serve_pong_echoes [of "mk_conn (concat (map (frame_bytes TypePing) [[1], [2, 3]]))" "[[1], [2, 3]]"]
  by (simp add: MaxPayloadSize_def)

text \<open>One RTT sample per answered ping. When the peer echoes the pings, \<open>RunPing\<close> observes
  each measured time once and in order, its stream stays open, and what it wrote is the pings in
  order; \<open>ServePong\<close>, fed with that, gives the replies assumed here.\<close>

theorem run_ping_observes:
  assumes "rx c = concat (map (\<lambda>t. frame_bytes TypePong (PingPayload (fst t))) ticks) @ r"
    and "tx_room c = None"
  shows "\<exists>c'. run_ping ticks c = (None, map snd ticks, c') \<and> rx c' = r \<and> closed c' = closed c
     \<and> tx c' = tx c @ concat (map (\<lambda>t. frame_bytes TypePing (PingPayload (fst t))) ticks)"
  using assms
proof (induction ticks arbitrary: c)
  case Nil
  then show ?case by simp
next
  case (Cons t ticks)
  let ?p = "PingPayload (fst t)"
  let ?r = "concat (map (\<lambda>t. frame_bytes TypePong (PingPayload (fst t))) ticks) @ r"
  let ?c = "c\<lparr>rx := ?r, tx := tx c @ frame_bytes TypePing ?p\<rparr>"
  have l: "length ?p \<le> MaxPayloadSize"
    by (simp add: PingPayload_def put_u64_def MaxPayloadSize_def)
  have w: "write_frame TypePing ?p c = (Inr (), c\<lparr>tx := tx c @ frame_bytes TypePing ?p\<rparr>)"
    using l Cons.prems(2) by (simp add: write_frame_def conn_write_def frame_bytes_def)
  have "read_frame (c\<lparr>tx := tx c @ frame_bytes TypePing ?p\<rparr>)
      = (Inr \<lparr>fr_type = TypePong, fr_flags = 0, fr_payload = ?p\<rparr>, ?c)"
    using Cons.prems(1) by (subst read_pong [where r = ?r]) simp_all
  then have "send_ping_wait_pong (fst t) (snd t) c = (Inr (snd t), ?c)"
    by (simp add: send_ping_wait_pong_def w)
  moreover obtain c' where "run_ping ticks ?c = (None, map snd ticks, c')" "rx c' = r"
    "closed c' = closed c" "tx c' = tx ?c @ concat (map (\<lambda>t. frame_bytes TypePing (PingPayload (fst t))) ticks)"
    using Cons.IH [of ?c] Cons.prems by auto
  ultimately show ?case
    by (cases t) simp
qed

theorem run_ping_observes_witness:
  "\<exists>c'. run_ping [(5, 3), (8, 4)] (mk_conn (concat (map (\<lambda>t. frame_bytes TypePong (PingPayload (fst t)))
          [(5, 3), (8, 4)]) @ [])) = (None, map snd [(5, 3), (8, 4)], c') \<and> rx c' = []
     \<and> closed c' = False \<and> tx c' = concat (map (\<lambda>t. frame_bytes TypePing (PingPayload (fst t)))
          [(5::int, 3::int), (8, 4)])"
  using run_ping_observes [of "mk_conn (concat (map (\<lambda>t. frame_bytes TypePong (PingPayload (fst t)))
          [(5, 3), (8, 4)]) @ [])" "[(5, 3), (8, 4)]" "[]"] by simp

end
