(* ===== verification/Dest.thy ===== *)
theory Dest
  imports NetMask Config Session
begin

text \<open>
  Where an Agent may connect to: the destination check of \<open>internal/proxy/dest.go\<close>, and the part
  of \<open>internal/agent/client.go\<close> that resolves a stream's local target, checks it, dials it and
  answers Edge, with the reconnect delay. DNS is an argument, \<open>lookup\<close>, and so is what dialling
  gives; \<open>resolve_err\<close> is the text of a failed lookup.
\<close>

datatype dest_error =
    SplitFailed | EmptyHost | EmptyPort | ResolveFailed | NoAddresses | InvalidIP
  | NotPermitted ip | NotPrivateV4 ip | NotPrivateV6 ip

definition loopbackV4 :: ipnet where
  "loopbackV4 = \<lparr>net_ip = [127, 0, 0, 0], net_mask = [255, 0, 0, 0]\<rparr>"
definition rfc1918a :: ipnet where
  "rfc1918a = \<lparr>net_ip = [10, 0, 0, 0], net_mask = [255, 0, 0, 0]\<rparr>"
definition rfc1918b :: ipnet where
  "rfc1918b = \<lparr>net_ip = [172, 16, 0, 0], net_mask = [255, 240, 0, 0]\<rparr>"
definition rfc1918c :: ipnet where
  "rfc1918c = \<lparr>net_ip = [192, 168, 0, 0], net_mask = [255, 255, 0, 0]\<rparr>"
definition ulaV6 :: ipnet where
  "ulaV6 = \<lparr>net_ip = 0xFC # replicate 15 0, net_mask = 0xFE # replicate 15 0\<rparr>"

text \<open>The IPv4 ranges are what \<open>mustCIDR\<close> parses from the texts of the source; \<open>ulaV6\<close> is \<open>fc00::/7\<close>.\<close>

lemma must_cidr_v4:
  "parse_cidr ''127.0.0.0/8'' = Some loopbackV4" "parse_cidr ''10.0.0.0/8'' = Some rfc1918a"
  "parse_cidr ''172.16.0.0/12'' = Some rfc1918b" "parse_cidr ''192.168.0.0/16'' = Some rfc1918c"
  by code_simp+

definition check_ip :: "ip \<Rightarrow> bool \<Rightarrow> dest_error option" where
  "check_ip i0 private =
     (if i0 = [] then Some InvalidIP
      else let i = (case to4 i0 of Some v4 \<Rightarrow> v4 | None \<Rightarrow> i0) in
        if is_unspecified i \<or> is_multicast i \<or> is_link_local_multicast i then Some (NotPermitted i)
        else if \<not> private then None
        else if to4 i \<noteq> None then
          (if net_contains loopbackV4 i \<or> net_contains rfc1918a i \<or> net_contains rfc1918b i \<or> net_contains rfc1918c i
           then None else Some (NotPrivateV4 i))
        else if is_loopback i \<or> net_contains ulaV6 i then None
        else Some (NotPrivateV6 i))"

definition is_private_or_loopback :: "ip \<Rightarrow> bool" where
  "is_private_or_loopback i = (check_ip i True = None)"

text \<open>\<open>ValidateLocal\<close>: all the addresses a host resolves to, the first bad one being the error.\<close>

definition first_bad :: "ip list \<Rightarrow> bool \<Rightarrow> dest_error option" where
  "first_bad ips private = (case List.find (\<lambda>i. check_ip i private \<noteq> None) ips of None \<Rightarrow> None | Some i \<Rightarrow> check_ip i private)"

definition local_ips :: "(string \<Rightarrow> ip list option) \<Rightarrow> string \<Rightarrow> dest_error + ip list" where
  "local_ips lookup host =
     (let i = parse_ip host in
      if i \<noteq> [] then Inr [i]
      else case lookup host of None \<Rightarrow> Inl ResolveFailed | Some ips \<Rightarrow> if ips = [] then Inl NoAddresses else Inr ips)"

definition validate_local :: "(string \<Rightarrow> ip list option) \<Rightarrow> string \<Rightarrow> bool \<Rightarrow> dest_error option" where
  "validate_local lookup addr private =
     (case split_host_port addr of
        None \<Rightarrow> Some SplitFailed
      | Some (host, port) \<Rightarrow>
          if trim_space host = [] then Some EmptyHost
          else if trim_space port = [] then Some EmptyPort
          else case local_ips lookup host of Inl e \<Rightarrow> Some e | Inr ips \<Rightarrow> first_bad ips private)"

section \<open>The Agent's side of a stream\<close>

definition resolve_local :: "config \<Rightarrow> open_meta \<Rightarrow> string + string" where
  "resolve_local c m =
     (if \<not> restrict_tunnels c then
        (if trim_space (om_local m) = [] then Inl ''edge did not send local target'' else Inr (om_local m))
      else case tunnel_by_name c (om_name m) of
        None \<Rightarrow> Inl ''unknown tunnel''
      | Some t \<Rightarrow>
          if trim_space (t_local t) \<noteq> [] then Inr (t_local t)
          else if trim_space (om_local m) = [] then Inl (''no local target for tunnel '' @ om_name m)
          else Inr (om_local m))"

datatype stream_outcome = NoTarget string | TargetRejected dest_error | DialFailed string | AckFailed string | Forwarding string

text \<open>\<open>handleStream\<close> for a TCP or HTTP stream. \<open>dial\<close> tells whether dialling a target works,
  \<open>text\<close> is the message of an error; the stream is closed on every path but the last, which
  hands it to the relay.\<close>

definition handle_stream ::
  "config \<Rightarrow> (string \<Rightarrow> ip list option) \<Rightarrow> (dest_error \<Rightarrow> string) \<Rightarrow> (string \<Rightarrow> bool) \<Rightarrow> open_meta \<Rightarrow> conn \<Rightarrow> stream_outcome \<times> conn" where
  "handle_stream c lookup text dial m s =
     (case resolve_local c m of
        Inl msg \<Rightarrow> (NoTarget msg, close_conn (snd (ack_data False msg s)))
      | Inr target \<Rightarrow>
          (case validate_local lookup target (private_only c) of
             Some e \<Rightarrow> (TargetRejected e, close_conn (snd (ack_data False (text e) s)))
           | None \<Rightarrow>
               if \<not> dial target then (DialFailed target, close_conn (snd (ack_data False ''dial failed'' s)))
               else (case ack_data True ''ok'' s of
                   (Inl _, s1) \<Rightarrow> (AckFailed target, close_conn s1)
                 | (Inr _, s1) \<Rightarrow> (Forwarding target, s1))))"

section \<open>Reconnecting\<close>

definition minBackoff :: int where "minBackoff = 500 * 1000000"
definition maxBackoff :: int where "maxBackoff = 15 * 1000000000"

text \<open>\<open>jitter\<close> is the random number, from 0 up to 400 ms.\<close>

definition next_backoff :: "int \<Rightarrow> int \<Rightarrow> int" where
  "next_backoff jitter prev =
     (let d = prev * 2; d = (if d < minBackoff then minBackoff else d);
          d = (if d > maxBackoff then maxBackoff else d)
      in d + jitter)"

section \<open>Which destinations are private\<close>

lemma v4_contains:
  "net_contains loopbackV4 [a, b, c, d] \<longleftrightarrow> a = 127"
  "net_contains rfc1918a [a, b, c, d] \<longleftrightarrow> a = 10"
  "net_contains rfc1918b [a, b, c, d] \<longleftrightarrow> a = 172 \<and> b AND 0xF0 = 16"
  "net_contains rfc1918c [a, b, c, d] \<longleftrightarrow> a = 192 \<and> b = 168"
  by (auto simp: net_contains_def net_number_mask_def loopbackV4_def rfc1918a_def rfc1918b_def rfc1918c_def
      to4_def and_bytes_def Let_def)

text \<open>The private ranges, on the bytes.\<close>

definition private_v4 :: "bytes \<Rightarrow> bool" where
  "private_v4 v \<longleftrightarrow> v ! 0 = 127 \<or> v ! 0 = 10 \<or> (v ! 0 = 172 \<and> v ! 1 AND 0xF0 = 16) \<or> (v ! 0 = 192 \<and> v ! 1 = 168)"

definition private_v6 :: "bytes \<Rightarrow> bool" where
  "private_v6 b \<longleftrightarrow> b = replicate 15 0 @ [1] \<or> b ! 0 AND 0xFE = 0xFC"

lemma check_v4:
  assumes "length v = 4"
  shows "check_ip v True = None \<longleftrightarrow> private_v4 v"
proof -
  obtain a b c d where v: "v = [a, b, c, d]"
    using assms by (auto simp: length_Suc_conv numeral_eq_Suc)
  have c: "check_ip v True = None \<longleftrightarrow> \<not> is_unspecified v \<and> \<not> is_multicast v \<and> \<not> is_link_local_multicast v \<and> private_v4 v"
    by (simp add: check_ip_def v to4_def v4_contains private_v4_def Let_def)
  have "\<not> is_unspecified v \<and> \<not> is_multicast v \<and> \<not> is_link_local_multicast v" if "private_v4 v"
    using that unfolding private_v4_def
    by (elim disjE conjE) (simp_all add: v is_unspecified_4 is_multicast_def is_link_local_multicast_def to4_def)
  then show ?thesis using c by blast
qed

lemma and_zeros: "length xs = n \<Longrightarrow> and_bytes xs (replicate n 0) = replicate n 0"
  by (induction xs arbitrary: n) (auto simp: and_bytes_def)

lemma ula_contains:
  assumes "length b = 16" "to4 b = None"
  shows "net_contains ulaV6 b \<longleftrightarrow> b ! 0 AND 0xFE = 0xFC"
proof -
  obtain x r where b: "b = x # r" "length r = 15" using assms(1) by (cases b) auto
  have m: "and_bytes (y # s) (0xFE # replicate 15 0) = (y AND 0xFE) # replicate 15 0" if "length s = 15" for y s
    using and_zeros [OF that] by (simp add: and_bytes_def)
  have u: "to4 (0xFC # replicate 15 0) = None"
  proof -
    have "take 12 (0xFC # replicate 15 (0 :: byte)) ! 0 \<noteq> v4_prefix ! 0" by (simp add: v4_prefix_def nth_append)
    then have "take 12 (0xFC # replicate 15 (0 :: byte)) \<noteq> v4_prefix" by metis
    then show ?thesis by (simp add: to4_def)
  qed
  then have "net_number_mask ulaV6 = (0xFC # replicate 15 0, 0xFE # replicate 15 0)"
    by (simp add: net_number_mask_def ulaV6_def)
  then show ?thesis
    using assms(2) m [OF b(2), of x] m [of "replicate 15 0" "0xFC"] by (auto simp: net_contains_def b)
qed

lemma check_v6:
  assumes "length b = 16" "to4 b = None"
  shows "check_ip b True = None \<longleftrightarrow> private_v6 b"
proof -
  have "b \<noteq> []" using assms(1) by auto
  then have c: "check_ip b True = None \<longleftrightarrow> \<not> is_unspecified b \<and> \<not> is_multicast b \<and> \<not> is_link_local_multicast b \<and> private_v6 b"
    using assms by (simp add: check_ip_def Let_def ula_contains private_v6_def is_loopback_def ip_equal_def)
  have "\<not> is_unspecified b \<and> \<not> is_multicast b \<and> \<not> is_link_local_multicast b" if p: "private_v6 b"
  proof -
    have "b ! 0 = 0 \<and> b ! 15 = 1 \<or> b ! 0 AND 0xFE = 0xFC"
      using p by (auto simp: private_v6_def nth_append)
    then have "b ! 0 \<noteq> 0xFF" "b \<noteq> replicate 16 0" by auto
    moreover have "b \<noteq> v4_prefix @ [0, 0, 0, 0]" using assms(2) by (auto simp: to4_def v4_prefix_def)
    ultimately show ?thesis
      using assms by (simp add: is_unspecified_def ip_equal_def is_multicast_def is_link_local_multicast_def length_v4_prefix)
  qed
  then show ?thesis using c by blast
qed

lemma check_mapped:
  assumes "to4 i = Some v"
  shows "check_ip i p = check_ip v p"
proof -
  have "to4 v = Some v" "v \<noteq> []" "i \<noteq> []"
    using assms by (auto simp: to4_def split: if_splits)
  then show ?thesis using assms by (simp add: check_ip_def)
qed

text \<open>
C15: with private-only on, an Agent's target is a private address. The check accepts an address exactly if, read as IPv4 when it is an IPv4 or IPv4-mapped one, it is in 127/8, 10/8, 172.16/12 or 192.168/16, and otherwise exactly if it is ::1 or in fc00::/7.
\<close>

theorem private_only_exact:
  assumes "length i = 4 \<or> length i = 16"
  shows "check_ip i True = None \<longleftrightarrow> (case to4 i of Some v \<Rightarrow> private_v4 v | None \<Rightarrow> private_v6 i)"
proof (cases "to4 i")
  case None
  then have "length i = 16" using assms by (auto simp: to4_def)
  then show ?thesis using None check_v6 by simp
next
  case (Some v)
  then have "length v = 4" by (auto simp: to4_def split: if_splits)
  then show ?thesis using Some check_v4 [of v] check_mapped [OF Some] by simp
qed

theorem private_only_exact_witness:
  "check_ip [172, 31, 0, 1] True = None \<and> check_ip [172, 32, 0, 1] True \<noteq> None"
  using private_only_exact [of "[172, 31, 0, 1]"] private_only_exact [of "[172, 32, 0, 1]"]
  by (simp add: to4_def private_v4_def)


definition example_config :: config where
  "example_config = empty_config\<lparr>edge := ''edge:7000'', cfg_token := ''t''\<rparr>"


text \<open>
Reconnects are paced. The delay before a reconnect is never below half a second nor 15.4 seconds or more, whatever the previous one was, and while it is below the cap it at least doubles.
\<close>

theorem backoff_bounds:
  assumes "0 \<le> jitter" "jitter < 400000000"
  shows "minBackoff \<le> next_backoff jitter prev \<and> next_backoff jitter prev < maxBackoff + 400000000 \<and>
     (0 \<le> prev \<and> 2 * prev \<le> maxBackoff \<longrightarrow> 2 * prev \<le> next_backoff jitter prev) \<and>
     next_backoff jitter 0 < minBackoff + 400000000"
  using assms by (auto simp: next_backoff_def minBackoff_def maxBackoff_def Let_def)

theorem backoff_bounds_witness:
  "next_backoff 5 500000000 \<ge> 1000000000 \<and> next_backoff 5 (maxBackoff * 9) < 15400000000"
  using backoff_bounds [of 5 500000000] backoff_bounds [of 5 "maxBackoff * 9"] by (simp add: maxBackoff_def)

end
