(* ===== verification/Metrics.thy ===== *)
theory Metrics
  imports GoStrings
begin

text \<open>
  The runtime counters of Edge, \<open>internal/metrics/metrics.go\<close>. Each method is one atomic step
  (the compare-and-swap loop of \<open>AddSessions\<close> included). Durations and times are integer
  nanoseconds; the clock is an argument. The text form is modelled up to the \<open>%g\<close> rendering of
  the one floating point value, which is an argument.
\<close>

record registry =
  denies :: "64 word"
  active_sessions :: int
  agent_connected :: bool
  rtt_nanos :: int
  rtt_samples :: "64 word"
  last_deny_at :: int
  last_rtt_at :: int

definition new_registry :: registry where
  "new_registry = \<lparr>denies = 0, active_sessions = 0, agent_connected = False, rtt_nanos = 0,
     rtt_samples = 0, last_deny_at = 0, last_rtt_at = 0\<rparr>"

definition inc_deny :: "int \<Rightarrow> registry \<Rightarrow> registry" where
  "inc_deny now r = r\<lparr>denies := denies r + 1, last_deny_at := now\<rparr>"

definition add_sessions :: "int \<Rightarrow> registry \<Rightarrow> registry" where
  "add_sessions delta r =
     (let next = active_sessions r + delta in
      r\<lparr>active_sessions := (if next < 0 then 0 else next)\<rparr>)"

definition set_agent_connected :: "bool \<Rightarrow> registry \<Rightarrow> registry" where
  "set_agent_connected b r = r\<lparr>agent_connected := b\<rparr>"

definition observe_rtt :: "int \<Rightarrow> int \<Rightarrow> registry \<Rightarrow> registry" where
  "observe_rtt now d r =
     (if d < 0 then r
      else r\<lparr>rtt_nanos := d, rtt_samples := rtt_samples r + 1, last_rtt_at := now\<rparr>)"

definition last_rtt :: "registry \<Rightarrow> int option" where
  "last_rtt r = (if rtt_samples r = 0 then None else Some (rtt_nanos r))"

record status =
  st_agent_connected :: bool
  st_active_sessions :: int
  st_acl_denies :: "64 word"
  st_temp_bans :: nat
  st_permanent_bans :: nat
  st_rtt :: "int option"

text \<open>\<open>HasRTT\<close> and \<open>TunnelRTTMs\<close> are one optional count of nanoseconds.\<close>

definition snapshot :: "registry \<Rightarrow> status" where
  "snapshot r =
     \<lparr>st_agent_connected = agent_connected r, st_active_sessions = active_sessions r,
      st_acl_denies = denies r, st_temp_bans = 0, st_permanent_bans = 0, st_rtt = last_rtt r\<rparr>"

definition int_string :: "int \<Rightarrow> string" where
  "int_string n = (if n < 0 then ''-'' @ nat_string (nat (- n)) else nat_string (nat n))"

definition nl :: string where
  "nl = [CHR 0x0A]"

text \<open>One metric: its help line, its type line and its value.\<close>

definition metric :: "string \<Rightarrow> string \<Rightarrow> string \<Rightarrow> string \<Rightarrow> string" where
  "metric name help kind v =
     ''# HELP '' @ name @ '' '' @ help @ nl @ ''# TYPE '' @ name @ '' '' @ kind @ nl @ name @ '' '' @ v @ nl"

definition write_status :: "(int \<Rightarrow> string) \<Rightarrow> status \<Rightarrow> string" where
  "write_status seconds st =
     metric ''faketunnel_agent_connected'' ''Whether an Agent is connected (1/0).'' ''gauge''
       (int_string (if st_agent_connected st then 1 else 0)) @
     metric ''faketunnel_active_sessions'' ''Active TCP/HTTP sessions and UDP associations.'' ''gauge''
       (int_string (st_active_sessions st)) @
     metric ''faketunnel_acl_denies_total'' ''Total public connections rejected by allowlist or IP ban.'' ''counter''
       (nat_string (unat (st_acl_denies st))) @
     metric ''faketunnel_temp_bans'' ''IPs currently under a 6h temporary ban.'' ''gauge''
       (nat_string (st_temp_bans st)) @
     metric ''faketunnel_permanent_bans'' ''IPs permanently banned after a second ban.'' ''gauge''
       (nat_string (st_permanent_bans st)) @
     (case st_rtt st of
        None \<Rightarrow> []
      | Some d \<Rightarrow> metric ''faketunnel_tunnel_rtt_seconds'' ''Last measured control-channel RTT.'' ''gauge'' (seconds d))"

section \<open>Facts\<close>

lemma registry_frame [simp]:
  "denies (add_sessions d r) = denies r" "agent_connected (add_sessions d r) = agent_connected r"
  "active_sessions (inc_deny now r) = active_sessions r" "agent_connected (inc_deny now r) = agent_connected r"
  "denies (inc_deny now r) = denies r + 1" "denies (set_agent_connected b r) = denies r"
  "active_sessions (set_agent_connected b r) = active_sessions r" "agent_connected (set_agent_connected b r) = b"
  by (simp_all add: add_sessions_def inc_deny_def set_agent_connected_def Let_def)

lemma gauge_nonneg: "0 \<le> active_sessions (add_sessions d r)"
  by (simp add: add_sessions_def Let_def)

text \<open>
The session gauge counts. Under any sequence of adjustments the gauge never shows a negative number; and as long as the sessions that end have been counted in before, that is no partial sum is negative, it shows exactly the sum of the adjustments.
\<close>

theorem session_gauge_counts:
  assumes "0 \<le> active_sessions r"
  shows "0 \<le> active_sessions (fold add_sessions ds r) \<and>
     ((\<forall>n \<le> length ds. 0 \<le> active_sessions r + sum_list (take n ds)) \<longrightarrow>
        active_sessions (fold add_sessions ds r) = active_sessions r + sum_list ds)"
  using assms
proof (induction ds arbitrary: r)
  case (Cons d ds)
  have i: "0 \<le> active_sessions (add_sessions d r)" by (rule gauge_nonneg)
  have "active_sessions (fold add_sessions (d # ds) r) = active_sessions r + sum_list (d # ds)"
    if h: "\<forall>n \<le> length (d # ds). 0 \<le> active_sessions r + sum_list (take n (d # ds))"
  proof -
    have "0 \<le> active_sessions r + d" using h [rule_format, of 1] by simp
    then have e: "active_sessions (add_sessions d r) = active_sessions r + d"
      by (simp add: add_sessions_def)
    have "\<forall>n \<le> length ds. 0 \<le> active_sessions r + d + sum_list (take n ds)"
      using h [rule_format, of "Suc _"] by (simp add: add.assoc)
    then show ?thesis using Cons.IH [OF i] e by (simp add: add.assoc)
  qed
  then show ?case using Cons.IH [OF i] by simp
qed simp

theorem session_gauge_counts_witness:
  "active_sessions (fold add_sessions [1, 1, -1] new_registry) = 1"
  using session_gauge_counts [of new_registry "[1, 1, -1]"]
  by (simp add: new_registry_def take_Cons' numeral_eq_Suc le_Suc_eq)

end
