(* ===== verification/UdpHub.thy ===== *)
theory UdpHub
  imports Metrics NetMask Session
begin

text \<open>
  The Edge side of a UDP tunnel, \<open>internal/edge/udp.go\<close>: one hub per tunnel with its associations,
  one per client address, over one data stream to the Agent.

  An association is an object that outlives its entries in the two maps (the goroutine that opened
  it may still wait on it), so the hub has a list of objects and maps to indices of that list.
  Every operation is one step, the part a Go method runs under the hub's lock: opening an
  association is \<open>ensure_start\<close> (up to the wait), then either the acknowledgement arrives
  (\<open>mark_ready\<close>) or \<open>ensure_timeout\<close> runs. The registry in the hub is the hub's view of the
  server's. The reader's connection and the writer's are the two directions of the stream.
\<close>

record udp_addr =
  u_ip :: ip
  u_port :: nat

definition addr_key :: "udp_addr \<Rightarrow> string" where
  "addr_key a = join_host_port (if u_ip a = [] then [] else ip_string (u_ip a)) (nat_string (u_port a))"

record assoc =
  ua_id :: "32 word"
  ua_client :: udp_addr
  ua_last :: int
  ua_ready :: bool
  ua_err :: "string option"

record hub =
  objs :: "assoc list"
  by_id :: "(32 word \<times> nat) list"
  by_addr :: "(string \<times> nat) list"
  next_id :: "32 word"
  hub_closed :: bool
  hub_reg :: registry
  hub_stream :: conn
  hub_max :: nat
  hub_out :: "(udp_addr \<times> bytes) list"
  hub_idle :: int

datatype hub_error = HubClosed | MaxAssocs | AssocError string | HubCodec codec_error | HubWrite tunnel_error

definition new_hub :: "conn \<Rightarrow> nat \<Rightarrow> int \<Rightarrow> registry \<Rightarrow> hub" where
  "new_hub c m idle r =
     \<lparr>objs = [], by_id = [], by_addr = [], next_id = 1, hub_closed = False, hub_reg = r, hub_stream = c,
      hub_max = m, hub_out = [], hub_idle = idle\<rparr>"

section \<open>Operations\<close>

definition hub_write :: "byte \<Rightarrow> bytes \<Rightarrow> hub \<Rightarrow> (hub_error + unit) \<times> hub" where
  "hub_write typ p h =
     (if hub_closed h then (Inl HubClosed, h)
      else case write_frame typ p (hub_stream h) of
        (Inl e, c) \<Rightarrow> (Inl (HubWrite e), h\<lparr>hub_stream := c\<rparr>)
      | (Inr u, c) \<Rightarrow> (Inr (), h\<lparr>hub_stream := c\<rparr>))"

definition upd_obj :: "nat \<Rightarrow> (assoc \<Rightarrow> assoc) \<Rightarrow> hub \<Rightarrow> hub" where
  "upd_obj n f h = h\<lparr>objs := (objs h)[n := f (objs h ! n)]\<rparr>"

definition unlink :: "nat \<Rightarrow> hub \<Rightarrow> hub" where
  "unlink n h =
     h\<lparr>by_id := AList.delete (ua_id (objs h ! n)) (by_id h),
       by_addr := AList.delete (addr_key (ua_client (objs h ! n))) (by_addr h)\<rparr>"

definition fail_assoc :: "nat \<Rightarrow> string \<Rightarrow> hub \<Rightarrow> hub" where
  "fail_assoc n e h = unlink n (upd_obj n (\<lambda>a. a\<lparr>ua_err := Some e, ua_ready := True\<rparr>) h)"

text \<open>The new object and its two entries.\<close>

definition add_assoc :: "udp_addr \<Rightarrow> int \<Rightarrow> hub \<Rightarrow> hub" where
  "add_assoc client now h =
     h\<lparr>next_id := next_id h + 1,
       objs := objs h @ [\<lparr>ua_id = next_id h, ua_client = client, ua_last = now, ua_ready = False, ua_err = None\<rparr>],
       by_id := AList.update (next_id h) (length (objs h)) (by_id h),
       by_addr := AList.update (addr_key client) (length (objs h)) (by_addr h)\<rparr>"

text \<open>\<open>ensureAssoc\<close> up to the wait: the object and whether this call made it.\<close>

definition ensure_start :: "udp_addr \<Rightarrow> int \<Rightarrow> hub \<Rightarrow> (hub_error + (nat \<times> bool)) \<times> hub" where
  "ensure_start client now h =
     (let key = addr_key client in
      if hub_closed h then (Inl HubClosed, h)
      else case map_of (by_addr h) key of
        Some n \<Rightarrow> (Inr (n, False), h)
      | None \<Rightarrow>
          if hub_max h \<le> length (by_id h) then (Inl MaxAssocs, h)
          else let i = next_id h; n = length (objs h); h1 = add_assoc client now h
               in (case marshal_open_assoc \<lparr>as_id = i, as_client_addr = key\<rparr> of
                     Inl e \<Rightarrow> (Inl (HubCodec e), fail_assoc n ''marshal'' h1)
                   | Inr p \<Rightarrow>
                       (case hub_write TypeOpenAssoc p h1 of
                          (Inl e, h2) \<Rightarrow> (Inl e, fail_assoc n ''write'' h2)
                        | (Inr _, h2) \<Rightarrow> (Inr (n, True), h2))))"

text \<open>What a waiting \<open>ensureAssoc\<close> returns once the object is ready.\<close>

definition assoc_result :: "nat \<Rightarrow> hub \<Rightarrow> hub_error + nat" where
  "assoc_result n h = (case ua_err (objs h ! n) of Some e \<Rightarrow> Inl (AssocError e) | None \<Rightarrow> Inr n)"

definition ensure_timeout :: "nat \<Rightarrow> hub \<Rightarrow> (hub_error + nat) \<times> hub" where
  "ensure_timeout n h =
     (if ua_ready (objs h ! n) then (assoc_result n h, h)
      else let h1 = fail_assoc n ''open assoc timeout'' h in
        (Inl (AssocError ''open assoc timeout''),
         (case marshal_close_assoc \<lparr>ca_id = ua_id (objs h ! n)\<rparr> of
            Inl _ \<Rightarrow> h1 | Inr p \<Rightarrow> snd (hub_write TypeCloseAssoc p h1))))"

text \<open>The rest of \<open>forward\<close>, with the association at hand.\<close>

definition forward_on :: "nat \<Rightarrow> bytes \<Rightarrow> int \<Rightarrow> hub \<Rightarrow> (hub_error + unit) \<times> hub" where
  "forward_on n payload now h =
     (let h1 = upd_obj n (\<lambda>a. a\<lparr>ua_last := now\<rparr>) h in
      case marshal_datagram \<lparr>dg_id = ua_id (objs h ! n), dg_payload = payload\<rparr> of
        Inl e \<Rightarrow> (Inl (HubCodec e), h1)
      | Inr p \<Rightarrow> hub_write TypeDatagram p h1)"

definition mark_ready :: "32 word \<Rightarrow> bool \<Rightarrow> string \<Rightarrow> hub \<Rightarrow> hub" where
  "mark_ready i ok msg h =
     (case map_of (by_id h) i of
        None \<Rightarrow> h
      | Some n \<Rightarrow>
          if \<not> ok then fail_assoc n (if msg = [] then ''agent rejected assoc'' else msg) h
          else if ua_ready (objs h ! n) then h
          else let h1 = upd_obj n (\<lambda>a. a\<lparr>ua_err := None, ua_ready := True\<rparr>) h in
            h1\<lparr>hub_reg := add_sessions 1 (hub_reg h1)\<rparr>)"

definition deliver :: "32 word \<Rightarrow> bytes \<Rightarrow> int \<Rightarrow> hub \<Rightarrow> hub" where
  "deliver i payload now h =
     (case map_of (by_id h) i of
        None \<Rightarrow> h
      | Some n \<Rightarrow>
          (upd_obj n (\<lambda>a. a\<lparr>ua_last := now\<rparr>) h)\<lparr>hub_out := hub_out h @ [(ua_client (objs h ! n), payload)]\<rparr>)"

definition remove_assoc :: "32 word \<Rightarrow> bool \<Rightarrow> hub \<Rightarrow> hub" where
  "remove_assoc i notify h =
     (case map_of (by_id h) i of
        None \<Rightarrow> h
      | Some n \<Rightarrow>
          let a = objs h ! n;
              h1 = unlink n h;
              was_ready = (ua_ready a \<and> ua_err a = None);
              h2 = (if ua_ready a then h1
                    else upd_obj n (\<lambda>a. a\<lparr>ua_err := Some ''assoc closed'', ua_ready := True\<rparr>) h1);
              h3 = (if was_ready then h2\<lparr>hub_reg := add_sessions (-1) (hub_reg h2)\<rparr> else h2)
          in if \<not> notify then h3
             else (case marshal_close_assoc \<lparr>ca_id = i\<rparr> of
                     Inl _ \<Rightarrow> h3 | Inr p \<Rightarrow> snd (hub_write TypeCloseAssoc p h3)))"

definition evict_assocs :: "(ip \<Rightarrow> bool) \<Rightarrow> hub \<Rightarrow> hub" where
  "evict_assocs allowed h =
     fold (\<lambda>i. remove_assoc i True)
       (map fst (filter (\<lambda>(i, n). \<not> allowed (u_ip (ua_client (objs h ! n)))) (by_id h))) h"

definition is_stale :: "int \<Rightarrow> assoc \<Rightarrow> bool" where
  "is_stale cutoff a \<longleftrightarrow> ua_ready a \<and> ua_err a = None \<and> ua_last a < cutoff"

definition reap_idle :: "int \<Rightarrow> hub \<Rightarrow> hub" where
  "reap_idle now h =
     fold (\<lambda>i. remove_assoc i True)
       (map fst (filter (\<lambda>(i, n). is_stale (now - hub_idle h) (objs h ! n)) (by_id h))) h"

definition is_live :: "assoc \<Rightarrow> bool" where
  "is_live a \<longleftrightarrow> ua_ready a \<and> ua_err a = None"

text \<open>\<open>close\<close>: every waiting opener is woken with an error, the ready ones are counted out.\<close>

definition close_hub :: "hub \<Rightarrow> hub" where
  "close_hub h =
     (if hub_closed h then h
      else let live = length (filter (\<lambda>(i, n). is_live (objs h ! n)) (by_id h));
               os = map (\<lambda>(k, a). if k \<in> snd ` set (by_id h) \<and> \<not> ua_ready a
                                   then a\<lparr>ua_err := Some ''hub closed'', ua_ready := True\<rparr> else a)
                      (zip [0..<length (objs h)] (objs h));
               gone = map (\<lambda>(i, n). addr_key (ua_client (objs h ! n))) (by_id h)
           in h\<lparr>hub_closed := True, objs := os, by_id := [],
                by_addr := filter (\<lambda>(k, n). k \<notin> set gone) (by_addr h),
                hub_reg := (if live > 0 then add_sessions (- int live) (hub_reg h) else hub_reg h),
                hub_stream := close_conn (hub_stream h)\<rparr>)"

text \<open>One turn of \<open>readLoop\<close>; when reading fails the loop ends and closes the hub.\<close>

definition read_step :: "int \<Rightarrow> hub \<Rightarrow> hub" where
  "read_step now h =
     (case read_frame (hub_stream h) of
        (Inl e, c) \<Rightarrow> close_hub (h\<lparr>hub_stream := c\<rparr>)
      | (Inr f, c) \<Rightarrow>
          let h1 = h\<lparr>hub_stream := c\<rparr> in
          if fr_type f = TypeOpenAssocAck then
            (case parse_open_assoc_ack (fr_payload f) of
               Inl _ \<Rightarrow> h1 | Inr k \<Rightarrow> mark_ready (ak_id k) (ak_ok k) (ak_message k) h1)
          else if fr_type f = TypeDatagram then
            (case parse_datagram (fr_payload f) of Inl _ \<Rightarrow> h1 | Inr d \<Rightarrow> deliver (dg_id d) (dg_payload d) now h1)
          else if fr_type f = TypeCloseAssoc then
            (case parse_close_assoc (fr_payload f) of Inl _ \<Rightarrow> h1 | Inr k \<Rightarrow> remove_assoc (ca_id k) False h1)
          else h1)"

section \<open>Events\<close>

datatype hub_event =
    HEnsure udp_addr int | HTimeout nat | HForward nat bytes int | HAck "32 word" bool string
  | HDeliver "32 word" bytes int | HRemove "32 word" bool | HEvict "ip \<Rightarrow> bool" | HReap int | HRead int | HClose

fun hub_step :: "hub_event \<Rightarrow> hub \<Rightarrow> hub" where
  "hub_step (HEnsure a now) h = snd (ensure_start a now h)"
| "hub_step (HTimeout n) h = (if n < length (objs h) then snd (ensure_timeout n h) else h)"
| "hub_step (HForward n p now) h = (if n < length (objs h) then snd (forward_on n p now h) else h)"
| "hub_step (HAck i ok msg) h = mark_ready i ok msg h"
| "hub_step (HDeliver i p now) h = deliver i p now h"
| "hub_step (HRemove i notify) h = remove_assoc i notify h"
| "hub_step (HEvict allowed) h = evict_assocs allowed h"
| "hub_step (HReap now) h = reap_idle now h"
| "hub_step (HRead now) h = (if hub_closed h then h else read_step now h)"
| "hub_step HClose h = close_hub h"

section \<open>The table of associations\<close>

text \<open>The abstract state of a hub: a partial map from ids to associations.\<close>

definition view :: "hub \<Rightarrow> 32 word \<Rightarrow> assoc option" where
  "view h i = map_option (\<lambda>n. objs h ! n) (map_of (by_id h) i)"

definition client_key :: "nat \<Rightarrow> hub \<Rightarrow> string" where
  "client_key n h = addr_key (ua_client (objs h ! n))"

definition mapped :: "nat \<Rightarrow> hub \<Rightarrow> bool" where
  "mapped n h \<longleftrightarrow> map_of (by_id h) (ua_id (objs h ! n)) = Some n"

text \<open>The two maps and the list of objects fit together.\<close>

definition hub_shape :: "hub \<Rightarrow> bool" where
  "hub_shape h \<longleftrightarrow>
     distinct (map fst (by_id h)) \<and> distinct (map fst (by_addr h)) \<and>
     (\<forall>i n. map_of (by_id h) i = Some n \<longrightarrow>
        n < length (objs h) \<and> ua_id (objs h ! n) = i \<and> map_of (by_addr h) (client_key n h) = Some n) \<and>
     (\<forall>k n. map_of (by_addr h) k = Some n \<longrightarrow> n < length (objs h) \<and> client_key n h = k \<and> mapped n h) \<and>
     (\<forall>n < length (objs h). ua_id (objs h ! n) = of_nat (n + 1)) \<and>
     next_id h = of_nat (length (objs h) + 1) \<and> length (by_id h) \<le> hub_max h \<and>
     (hub_closed h \<longrightarrow> by_id h = [])"

text \<open>An association in the table that is ready has no error; one that is not ready is in the table.\<close>

definition hub_flags :: "hub \<Rightarrow> bool" where
  "hub_flags h \<longleftrightarrow>
     (\<forall>n. mapped n h \<longrightarrow> n < length (objs h) \<longrightarrow> ua_ready (objs h ! n) \<longrightarrow> ua_err (objs h ! n) = None) \<and>
     (\<forall>n < length (objs h). \<not> ua_ready (objs h ! n) \<longrightarrow> mapped n h)"

definition hub_inv :: "hub \<Rightarrow> bool" where
  "hub_inv h \<longleftrightarrow> hub_shape h \<and> hub_flags h"

lemma hub_shapeD:
  assumes "hub_shape h"
  shows "distinct (map fst (by_id h))" "distinct (map fst (by_addr h))"
    "map_of (by_id h) i = Some n \<Longrightarrow> n < length (objs h)"
    "map_of (by_id h) i = Some n \<Longrightarrow> ua_id (objs h ! n) = i"
    "map_of (by_id h) i = Some n \<Longrightarrow> map_of (by_addr h) (client_key n h) = Some n"
    "map_of (by_addr h) k = Some n \<Longrightarrow> n < length (objs h)"
    "map_of (by_addr h) k = Some n \<Longrightarrow> client_key n h = k"
    "map_of (by_addr h) k = Some n \<Longrightarrow> mapped n h"
    "n < length (objs h) \<Longrightarrow> ua_id (objs h ! n) = of_nat (n + 1)"
    "next_id h = of_nat (length (objs h) + 1)" "length (by_id h) \<le> hub_max h"
    "hub_closed h \<Longrightarrow> by_id h = []"
  using assms unfolding hub_shape_def by blast+

lemma hub_frame [simp]:
  "by_id (upd_obj n f h) = by_id h" "by_addr (upd_obj n f h) = by_addr h"
  "next_id (upd_obj n f h) = next_id h" "hub_closed (upd_obj n f h) = hub_closed h"
  "hub_reg (upd_obj n f h) = hub_reg h" "hub_stream (upd_obj n f h) = hub_stream h"
  "hub_max (upd_obj n f h) = hub_max h" "hub_out (upd_obj n f h) = hub_out h" "hub_idle (upd_obj n f h) = hub_idle h"
  "length (objs (upd_obj n f h)) = length (objs h)"
  "objs (unlink n h) = objs h" "next_id (unlink n h) = next_id h" "hub_closed (unlink n h) = hub_closed h"
  "hub_reg (unlink n h) = hub_reg h" "hub_stream (unlink n h) = hub_stream h"
  "hub_max (unlink n h) = hub_max h" "hub_out (unlink n h) = hub_out h" "hub_idle (unlink n h) = hub_idle h"
  by (simp_all add: upd_obj_def unlink_def)

lemma objs_upd [simp]:
  "m < length (objs h) \<Longrightarrow> objs (upd_obj n f h) ! m = (if m = n then f (objs h ! n) else objs h ! m)"
  by (simp add: upd_obj_def nth_list_update)

lemma hub_write_frame:
  "hub_write t p h = (r, h') \<Longrightarrow> h' = h\<lparr>hub_stream := hub_stream h'\<rparr>"
  by (auto simp: hub_write_def split: if_splits sum.splits prod.splits)

lemma hub_write_frame_simps [simp]:
  "objs (snd (hub_write t p h)) = objs h" "by_id (snd (hub_write t p h)) = by_id h"
  "by_addr (snd (hub_write t p h)) = by_addr h" "next_id (snd (hub_write t p h)) = next_id h"
  "hub_closed (snd (hub_write t p h)) = hub_closed h" "hub_reg (snd (hub_write t p h)) = hub_reg h"
  "hub_max (snd (hub_write t p h)) = hub_max h" "hub_out (snd (hub_write t p h)) = hub_out h"
  "hub_idle (snd (hub_write t p h)) = hub_idle h"
  by (simp_all add: hub_write_def split: sum.splits prod.splits)

text \<open>The invariant and the view do not look at the stream, the registry or the output.\<close>

lemma hub_shape_cong:
  "objs h = objs g \<Longrightarrow> by_id h = by_id g \<Longrightarrow> by_addr h = by_addr g \<Longrightarrow> next_id h = next_id g \<Longrightarrow>
   hub_closed h = hub_closed g \<Longrightarrow> hub_max h = hub_max g \<Longrightarrow> hub_shape h = hub_shape g"
  by (simp add: hub_shape_def mapped_def client_key_def)

lemma hub_flags_cong: "objs h = objs g \<Longrightarrow> by_id h = by_id g \<Longrightarrow> hub_flags h = hub_flags g"
  by (simp add: hub_flags_def mapped_def)

lemma view_cong: "objs h = objs g \<Longrightarrow> by_id h = by_id g \<Longrightarrow> view h = view g"
  by (simp add: view_def fun_eq_iff)

lemma hub_inv_frame [simp]:
  "hub_inv (h\<lparr>hub_stream := c\<rparr>) = hub_inv h" "hub_inv (h\<lparr>hub_reg := r\<rparr>) = hub_inv h"
  "hub_inv (h\<lparr>hub_out := os\<rparr>) = hub_inv h" "hub_inv (snd (hub_write t p h)) = hub_inv h"
  unfolding hub_inv_def by (simp_all cong: hub_shape_cong hub_flags_cong)

lemma view_frame [simp]:
  "view (h\<lparr>hub_stream := c\<rparr>) = view h" "view (h\<lparr>hub_reg := r\<rparr>) = view h"
  "view (h\<lparr>hub_out := os\<rparr>) = view h" "view (snd (hub_write t p h)) = view h"
  by (simp_all add: view_def fun_eq_iff)

lemma hub_invD: "hub_inv h \<Longrightarrow> hub_shape h" "hub_inv h \<Longrightarrow> hub_flags h"
  by (simp_all add: hub_inv_def)

lemma hub_flagsD:
  "hub_flags h \<Longrightarrow> mapped n h \<Longrightarrow> n < length (objs h) \<Longrightarrow> ua_ready (objs h ! n) \<Longrightarrow> ua_err (objs h ! n) = None"
  "hub_flags h \<Longrightarrow> n < length (objs h) \<Longrightarrow> \<not> ua_ready (objs h ! n) \<Longrightarrow> mapped n h"
  by (simp_all add: hub_flags_def)

section \<open>Every operation keeps the invariant\<close>

definition keeps_key :: "(assoc \<Rightarrow> assoc) \<Rightarrow> bool" where
  "keeps_key f \<longleftrightarrow> (\<forall>a. ua_id (f a) = ua_id a \<and> ua_client (f a) = ua_client a)"

lemma keeps_keyD: "keeps_key f \<Longrightarrow> ua_id (f a) = ua_id a" "keeps_key f \<Longrightarrow> ua_client (f a) = ua_client a"
  by (simp_all add: keeps_key_def)

lemma keeps_key_updates [simp]:
  "keeps_key (\<lambda>a. a\<lparr>ua_last := now\<rparr>)" "keeps_key (\<lambda>a. a\<lparr>ua_err := e, ua_ready := b\<rparr>)" "keeps_key (\<lambda>a. a)"
  by (simp_all add: keeps_key_def)

lemma upd_keys [simp]:
  assumes "keeps_key f"
  shows "m < length (objs h) \<Longrightarrow> ua_id (objs (upd_obj n f h) ! m) = ua_id (objs h ! m)"
    and "m < length (objs h) \<Longrightarrow> client_key m (upd_obj n f h) = client_key m h"
    and "m < length (objs h) \<Longrightarrow> mapped m (upd_obj n f h) = mapped m h"
  using keeps_keyD [OF assms] by (auto simp: client_key_def mapped_def)

lemma shape_upd:
  assumes s: "hub_shape h" and k: "keeps_key f"
  shows "hub_shape (upd_obj n f h)"
proof -
  note d = hub_shapeD [OF s] and u = upd_keys [OF k, of _ h n]
  have "m < length (objs h) \<and> ua_id (objs (upd_obj n f h) ! m) = i \<and>
      map_of (by_addr h) (client_key m (upd_obj n f h)) = Some m"
    if "map_of (by_id h) i = Some m" for i m
    using d(3,4,5) [OF that] u(1,2) [of m] by metis
  moreover have "m < length (objs h) \<and> client_key m (upd_obj n f h) = a \<and> mapped m (upd_obj n f h)"
    if "map_of (by_addr h) a = Some m" for a m
    using d(6,7,8) [OF that] u(2,3) [of m] by metis
  moreover have "ua_id (objs (upd_obj n f h) ! m) = of_nat (m + 1)" if "m < length (objs h)" for m
    using d(9) [OF that] u(1) [OF that] by metis
  ultimately show ?thesis
    unfolding hub_shape_def hub_frame using d(1,2,10,11,12) by blast
qed

lemma unlink_upd:
  "keeps_key f \<Longrightarrow> n < length (objs h) \<Longrightarrow> unlink n (upd_obj n f h) = upd_obj n f (unlink n h)"
  by (simp add: unlink_def upd_obj_def keeps_keyD)

lemma shape_mapped_inj:
  assumes s: "hub_shape h" and m: "mapped n h" and i: "map_of (by_id h) i = Some k" "i \<noteq> ua_id (objs h ! n)"
  shows "client_key k h \<noteq> client_key n h"
proof
  assume e: "client_key k h = client_key n h"
  have "map_of (by_addr h) (client_key k h) = Some k" by (rule hub_shapeD(5) [OF s i(1)])
  moreover have "map_of (by_addr h) (client_key n h) = Some n"
    using m hub_shapeD(5) [OF s, of "ua_id (objs h ! n)" n] by (simp add: mapped_def)
  ultimately have "k = n" using e by (metis option.inject)
  then show False using hub_shapeD(4) [OF s i(1)] i(2) by metis
qed

lemma client_key_unlink [simp]: "client_key m (unlink n h) = client_key m h"
  by (simp add: client_key_def)

lemma map_of_unlink [simp]:
  "map_of (by_id (unlink n h)) = (map_of (by_id h))(ua_id (objs h ! n) := None)"
  "map_of (by_addr (unlink n h)) = (map_of (by_addr h))(client_key n h := None)"
  by (simp_all add: unlink_def client_key_def)

lemma length_unlink: "length (by_id (unlink n h)) \<le> length (by_id h)"
  by (simp add: unlink_def length_delete_le)

lemma shape_unlink:
  assumes s: "hub_shape h" and m: "mapped n h"
  shows "hub_shape (unlink n h)"
  unfolding hub_shape_def
proof (intro conjI)
  show "distinct (map fst (by_id (unlink n h)))" "distinct (map fst (by_addr (unlink n h)))"
    using hub_shapeD(1,2) [OF s] by (simp_all add: unlink_def distinct_keys_delete)
  show "\<forall>i k. map_of (by_id (unlink n h)) i = Some k \<longrightarrow> k < length (objs (unlink n h)) \<and>
      ua_id (objs (unlink n h) ! k) = i \<and> map_of (by_addr (unlink n h)) (client_key k (unlink n h)) = Some k"
  proof (intro allI impI)
    fix i k
    assume "map_of (by_id (unlink n h)) i = Some k"
    then have i: "i \<noteq> ua_id (objs h ! n)" "map_of (by_id h) i = Some k" by (auto split: if_splits)
    show "k < length (objs (unlink n h)) \<and> ua_id (objs (unlink n h) ! k) = i \<and>
        map_of (by_addr (unlink n h)) (client_key k (unlink n h)) = Some k"
      unfolding client_key_unlink map_of_unlink hub_frame
      using hub_shapeD(3,4,5) [OF s i(2)] shape_mapped_inj [OF s m i(2,1)] by (metis fun_upd_other)
  qed
  show "\<forall>k j. map_of (by_addr (unlink n h)) k = Some j \<longrightarrow>
      j < length (objs (unlink n h)) \<and> client_key j (unlink n h) = k \<and> mapped j (unlink n h)"
  proof (intro allI impI)
    fix k j
    assume "map_of (by_addr (unlink n h)) k = Some j"
    then have k: "k \<noteq> client_key n h" "map_of (by_addr h) k = Some j" by (auto split: if_splits)
    then have j: "j < length (objs h)" "client_key j h = k" "mapped j h"
      using hub_shapeD(6,7,8) [OF s k(2)] by auto
    then have "ua_id (objs h ! j) \<noteq> ua_id (objs h ! n)"
      using k(1) m unfolding mapped_def by (metis option.inject)
    then show "j < length (objs (unlink n h)) \<and> client_key j (unlink n h) = k \<and> mapped j (unlink n h)"
      using j unfolding mapped_def client_key_unlink map_of_unlink hub_frame by (metis fun_upd_other)
  qed
  show "length (by_id (unlink n h)) \<le> hub_max (unlink n h)"
    using hub_shapeD(11) [OF s] length_unlink [of n h] by simp
  show "hub_closed (unlink n h) \<longrightarrow> by_id (unlink n h) = []"
    using hub_shapeD(12) [OF s] by (simp add: unlink_def)
qed (use hub_shapeD(9,10) [OF s] in simp_all)

text \<open>Taking an object out of the table and making it ready.\<close>

lemma retire_inv:
  assumes i: "hub_inv h" and m: "mapped n h" and n: "n < length (objs h)"
    and f: "keeps_key f" "ua_ready (f (objs h ! n))"
  shows "hub_inv (unlink n (upd_obj n f h))"
proof -
  let ?g = "upd_obj n f h"
  have s: "hub_shape (unlink n ?g)"
    by (rule shape_unlink [OF shape_upd [OF hub_invD(1) [OF i] f(1)]]) (use m n f in simp)
  have "hub_flags (unlink n ?g)"
    unfolding hub_flags_def
  proof (intro conjI allI impI)
    fix k
    assume k: "mapped k (unlink n ?g)" "k < length (objs (unlink n ?g))" "ua_ready (objs (unlink n ?g) ! k)"
    then have "k \<noteq> n" by (auto simp: mapped_def)
    moreover have "mapped k h" using k n f by (auto simp: mapped_def split: if_splits)
    ultimately show "ua_err (objs (unlink n ?g) ! k) = None"
      using k hub_flagsD(1) [OF hub_invD(2) [OF i]] by simp
  next
    fix k
    assume k: "k < length (objs (unlink n ?g))" "\<not> ua_ready (objs (unlink n ?g) ! k)"
    then have kn: "k \<noteq> n" using f n by auto
    then have mk: "mapped k h" using k hub_flagsD(2) [OF hub_invD(2) [OF i]] by simp
    then have "ua_id (objs h ! k) \<noteq> ua_id (objs h ! n)" using m kn by (auto simp: mapped_def)
    then show "mapped k (unlink n ?g)" using mk k n kn keeps_keyD [OF f(1)] by (simp add: mapped_def)
  qed
  with s show ?thesis by (simp add: hub_inv_def)
qed

lemma view_unlink [simp]: "view (unlink n h) = (view h)(ua_id (objs h ! n) := None)"
  by (simp add: view_def fun_eq_iff)

lemma view_upd:
  assumes s: "hub_shape h" and m: "mapped n h"
  shows "view (upd_obj n f h) = (view h)(ua_id (objs h ! n) \<mapsto> f (objs h ! n))"
proof
  fix i
  have n: "n < length (objs h)" using hub_shapeD(3) [OF s] m by (simp add: mapped_def)
  show "view (upd_obj n f h) i = ((view h)(ua_id (objs h ! n) \<mapsto> f (objs h ! n))) i"
  proof (cases "map_of (by_id h) i")
    case None
    then show ?thesis using m by (auto simp: view_def mapped_def)
  next
    case (Some k)
    then have "k < length (objs h)" "ua_id (objs h ! k) = i" using hub_shapeD(3,4) [OF s] by auto
    then show ?thesis using Some m by (auto simp: view_def mapped_def)
  qed
qed

lemma view_retire:
  assumes "hub_inv h" "mapped n h" "keeps_key f"
  shows "view (unlink n (upd_obj n f h)) = (view h)(ua_id (objs h ! n) := None)"
proof -
  have "n < length (objs h)" using hub_shapeD(3) [OF hub_invD(1) [OF assms(1)]] assms(2) by (simp add: mapped_def)
  then show ?thesis using assms(2) keeps_keyD [OF assms(3)] view_upd [OF hub_invD(1) [OF assms(1)] assms(2), of f]
    by (simp add: fun_eq_iff)
qed

lemma view_SomeD:
  assumes "hub_inv h" "map_of (by_id h) i = Some n"
  shows "mapped n h" "n < length (objs h)" "ua_id (objs h ! n) = i" "view h i = Some (objs h ! n)"
  using hub_shapeD(3,4) [OF hub_invD(1) [OF assms(1)] assms(2)] assms(2) by (simp_all add: mapped_def view_def)

lemma view_eq_None: "view h i = None \<longleftrightarrow> map_of (by_id h) i = None"
  by (simp add: view_def)

lemma upd_inv:
  assumes i: "hub_inv h" and f: "keeps_key f" and n: "n < length (objs h)"
    and r: "mapped n h \<Longrightarrow> ua_ready (f (objs h ! n)) \<Longrightarrow> ua_err (f (objs h ! n)) = None"
    and u: "\<not> ua_ready (f (objs h ! n)) \<Longrightarrow> mapped n h"
  shows "hub_inv (upd_obj n f h)"
proof -
  note fl = hub_flagsD [OF hub_invD(2) [OF i]] and k = upd_keys(3) [OF f]
  have "hub_flags (upd_obj n f h)"
    unfolding hub_flags_def hub_frame
  proof (intro conjI allI impI)
    fix m
    assume "mapped m (upd_obj n f h)" "m < length (objs h)" "ua_ready (objs (upd_obj n f h) ! m)"
    then show "ua_err (objs (upd_obj n f h) ! m) = None" using r fl(1) [of m] k [of m h n] by (auto split: if_splits)
  next
    fix m
    assume "m < length (objs h)" "\<not> ua_ready (objs (upd_obj n f h) ! m)"
    then show "mapped m (upd_obj n f h)" using u fl(2) [of m] k [of m h n] by (auto split: if_splits)
  qed
  then show ?thesis using shape_upd [OF hub_invD(1) [OF i] f] by (simp add: hub_inv_def)
qed

lemma touch_inv: "hub_inv h \<Longrightarrow> n < length (objs h) \<Longrightarrow> hub_inv (upd_obj n (\<lambda>a. a\<lparr>ua_last := now\<rparr>) h)"
  by (rule upd_inv) (auto dest: hub_invD intro: hub_flagsD)

lemma fail_frame [simp]:
  "hub_reg (fail_assoc n e h) = hub_reg h" "hub_closed (fail_assoc n e h) = hub_closed h"
  "hub_stream (fail_assoc n e h) = hub_stream h" "hub_out (fail_assoc n e h) = hub_out h"
  "hub_idle (fail_assoc n e h) = hub_idle h" "hub_max (fail_assoc n e h) = hub_max h"
  "length (objs (fail_assoc n e h)) = length (objs h)"
  by (simp_all add: fail_assoc_def)

lemma fail_inv: "hub_inv h \<Longrightarrow> mapped n h \<Longrightarrow> n < length (objs h) \<Longrightarrow> hub_inv (fail_assoc n e h)"
  unfolding fail_assoc_def by (rule retire_inv) simp_all

lemma fail_view: "hub_inv h \<Longrightarrow> mapped n h \<Longrightarrow> view (fail_assoc n e h) = (view h)(ua_id (objs h ! n) := None)"
  unfolding fail_assoc_def by (rule view_retire) simp_all

subsection \<open>Acknowledgements and datagrams\<close>

lemma mark_ready_inv:
  assumes "hub_inv h"
  shows "hub_inv (mark_ready i ok msg h)"
proof (cases "map_of (by_id h) i")
  case None
  then show ?thesis using assms by (simp add: mark_ready_def)
next
  case (Some n)
  note v = view_SomeD(1,2) [OF assms Some]
  have "hub_inv (upd_obj n (\<lambda>a. a\<lparr>ua_err := None, ua_ready := True\<rparr>) h)"
    by (rule upd_inv [OF assms]) (use v in simp_all)
  then show ?thesis using fail_inv [OF assms v] assms Some by (simp add: mark_ready_def Let_def)
qed

lemma mark_ready_frame [simp]:
  "hub_closed (mark_ready i ok msg h) = hub_closed h" "hub_stream (mark_ready i ok msg h) = hub_stream h"
  "hub_out (mark_ready i ok msg h) = hub_out h" "hub_idle (mark_ready i ok msg h) = hub_idle h"
  "hub_max (mark_ready i ok msg h) = hub_max h" "length (objs (mark_ready i ok msg h)) = length (objs h)"
  by (simp_all add: mark_ready_def Let_def split: option.split)

lemma mark_ready_view:
  assumes "hub_inv h"
  shows "view (mark_ready i ok msg h) =
     (case view h i of
        None \<Rightarrow> view h
      | Some a \<Rightarrow> if \<not> ok then (view h)(i := None)
                  else if ua_ready a then view h else (view h)(i \<mapsto> a\<lparr>ua_err := None, ua_ready := True\<rparr>))"
proof (cases "map_of (by_id h) i")
  case None
  then show ?thesis by (simp add: mark_ready_def view_def)
next
  case (Some n)
  note v = view_SomeD [OF assms Some]
  show ?thesis
    using v(4) Some view_upd [OF hub_invD(1) [OF assms] v(1), of "\<lambda>a. a\<lparr>ua_err := None, ua_ready := True\<rparr>"]
      fail_view [OF assms v(1)] v(3)
    by (simp add: mark_ready_def Let_def)
qed

lemma deliver_inv: "hub_inv h \<Longrightarrow> hub_inv (deliver i p now h)"
  by (auto simp: deliver_def split: option.split dest: view_SomeD intro!: touch_inv)

lemma deliver_frame [simp]:
  "hub_closed (deliver i p now h) = hub_closed h" "hub_stream (deliver i p now h) = hub_stream h"
  "hub_reg (deliver i p now h) = hub_reg h" "hub_idle (deliver i p now h) = hub_idle h"
  "hub_max (deliver i p now h) = hub_max h" "length (objs (deliver i p now h)) = length (objs h)"
  by (simp_all add: deliver_def split: option.split)

lemma deliver_view:
  assumes "hub_inv h"
  shows "view (deliver i p now h) = (case view h i of None \<Rightarrow> view h | Some a \<Rightarrow> (view h)(i \<mapsto> a\<lparr>ua_last := now\<rparr>))"
proof (cases "map_of (by_id h) i")
  case None
  then show ?thesis by (simp add: deliver_def view_def)
next
  case (Some n)
  note v = view_SomeD [OF assms Some]
  show ?thesis
    using v(3,4) Some view_upd [OF hub_invD(1) [OF assms] v(1), of "\<lambda>a. a\<lparr>ua_last := now\<rparr>"] by (simp add: deliver_def)
qed

lemma deliver_out:
  "hub_out (deliver i p now h) = hub_out h @ (case view h i of None \<Rightarrow> [] | Some a \<Rightarrow> [(ua_client a, p)])"
  by (simp add: deliver_def view_def split: option.split)

subsection \<open>Removal\<close>

text \<open>\<open>remove_assoc\<close> retires the object; it changes nothing else but the gauge and the stream.\<close>

definition close_mark :: "assoc \<Rightarrow> assoc" where
  "close_mark a = (if ua_ready a then a else a\<lparr>ua_err := Some ''assoc closed'', ua_ready := True\<rparr>)"

lemma close_mark_keeps [simp]: "keeps_key close_mark" "ua_ready (close_mark a)"
  by (simp_all add: keeps_key_def close_mark_def)

lemma upd_same: "f (objs h ! n) = objs h ! n \<Longrightarrow> upd_obj n f h = h"
  by (simp add: upd_obj_def)

lemma remove_none: "map_of (by_id h) i = None \<Longrightarrow> remove_assoc i notify h = h"
  by (simp add: remove_assoc_def)

lemma remove_frame [simp]:
  "next_id (remove_assoc i notify h) = next_id h" "hub_closed (remove_assoc i notify h) = hub_closed h"
  "hub_max (remove_assoc i notify h) = hub_max h" "hub_out (remove_assoc i notify h) = hub_out h"
  "hub_idle (remove_assoc i notify h) = hub_idle h" "length (objs (remove_assoc i notify h)) = length (objs h)"
  by (simp_all add: remove_assoc_def Let_def split: option.split sum.split)

lemma remove_retires:
  assumes m: "map_of (by_id h) i = Some n" and n: "n < length (objs h)"
  shows "objs (remove_assoc i notify h) = objs (unlink n (upd_obj n close_mark h))"
    and "by_id (remove_assoc i notify h) = by_id (unlink n (upd_obj n close_mark h))"
    and "by_addr (remove_assoc i notify h) = by_addr (unlink n (upd_obj n close_mark h))"
    and "hub_reg (remove_assoc i notify h) = (if is_live (objs h ! n) then add_sessions (- 1) (hub_reg h) else hub_reg h)"
  using m n
  by (simp_all add: remove_assoc_def Let_def unlink_upd is_live_def close_mark_def upd_obj_def split: sum.split)
   (simp_all add: unlink_def)

lemma hub_inv_cong:
  "objs h = objs g \<Longrightarrow> by_id h = by_id g \<Longrightarrow> by_addr h = by_addr g \<Longrightarrow> next_id h = next_id g \<Longrightarrow>
   hub_closed h = hub_closed g \<Longrightarrow> hub_max h = hub_max g \<Longrightarrow> hub_inv h = hub_inv g"
  unfolding hub_inv_def using hub_shape_cong hub_flags_cong by blast

lemma remove_inv: "hub_inv h \<Longrightarrow> hub_inv (remove_assoc i notify h)"
proof (cases "map_of (by_id h) i")
  case (Some n)
  assume h: "hub_inv h"
  note v = view_SomeD [OF h Some]
  have "hub_inv (unlink n (upd_obj n close_mark h))" using h v by (intro retire_inv) simp_all
  then show ?thesis
    using hub_inv_cong [OF remove_retires(1,2,3) [OF Some v(2)], of notify] by simp
qed (simp add: remove_none)

lemma remove_view: "hub_inv h \<Longrightarrow> view (remove_assoc i notify h) = (view h)(i := None)"
proof (cases "map_of (by_id h) i")
  case (Some n)
  assume h: "hub_inv h"
  note v = view_SomeD [OF h Some]
  show ?thesis
    using view_cong [OF remove_retires(1,2) [OF Some v(2)], of notify] view_retire [OF h v(1) close_mark_keeps(1)] v(3)
    by simp
qed (simp add: remove_none fun_eq_iff view_eq_None)

lemma remove_reg:
  assumes "hub_inv h"
  shows "hub_reg (remove_assoc i notify h) =
     (case view h i of None \<Rightarrow> hub_reg h | Some a \<Rightarrow> if is_live a then add_sessions (- 1) (hub_reg h) else hub_reg h)"
proof (cases "map_of (by_id h) i")
  case (Some n)
  then show ?thesis using remove_retires(4) [OF Some] view_SomeD(2,4) [OF assms Some] by simp
qed (simp add: remove_none view_def)

text \<open>\<open>evictDisallowed\<close> and \<open>reapIdle\<close> remove a list of ids.\<close>

definition remove_all :: "32 word list \<Rightarrow> hub \<Rightarrow> hub" where
  "remove_all is h = fold (\<lambda>i. remove_assoc i True) is h"

lemma remove_all_simps [simp]:
  "remove_all [] h = h" "remove_all (i # is) h = remove_all is (remove_assoc i True h)"
  by (simp_all add: remove_all_def)

lemma remove_all_inv: "hub_inv h \<Longrightarrow> hub_inv (remove_all is h)"
  by (induction "is" arbitrary: h) (auto intro: remove_inv)

lemma remove_all_view: "hub_inv h \<Longrightarrow> view (remove_all is h) = (\<lambda>i. if i \<in> set is then None else view h i)"
  by (induction "is" arbitrary: h) (auto simp: remove_view remove_inv fun_eq_iff)

lemma remove_all_frame [simp]:
  "hub_closed (remove_all is h) = hub_closed h" "hub_out (remove_all is h) = hub_out h"
  "hub_max (remove_all is h) = hub_max h" "hub_idle (remove_all is h) = hub_idle h"
  "length (objs (remove_all is h)) = length (objs h)"
  by (induction "is" arbitrary: h) simp_all

definition ids_where :: "(assoc \<Rightarrow> bool) \<Rightarrow> hub \<Rightarrow> 32 word list" where
  "ids_where P h = map fst (filter (\<lambda>(i, n). P (objs h ! n)) (by_id h))"

lemma evict_ids: "evict_assocs allowed h = remove_all (ids_where (\<lambda>a. \<not> allowed (u_ip (ua_client a))) h) h"
  by (simp add: evict_assocs_def remove_all_def ids_where_def)

lemma reap_ids: "reap_idle now h = remove_all (ids_where (is_stale (now - hub_idle h)) h) h"
  by (simp add: reap_idle_def remove_all_def ids_where_def)

lemma ids_where_iff:
  assumes "hub_inv h"
  shows "i \<in> set (ids_where P h) \<longleftrightarrow> (\<exists>a. view h i = Some a \<and> P a)"
  using map_of_mem [OF hub_shapeD(1) [OF hub_invD(1) [OF assms]]]
  by (force simp: ids_where_def view_def image_iff)

lemma drop_where_view:
  assumes "hub_inv h"
  shows "view (remove_all (ids_where P h) h) i =
     (case view h i of None \<Rightarrow> None | Some a \<Rightarrow> if P a then None else Some a)"
  by (auto simp: remove_all_view [OF assms] ids_where_iff [OF assms] split: option.split)

subsection \<open>Closing\<close>

lemma close_closed [simp]: "hub_closed (close_hub h)"
  by (simp add: close_hub_def Let_def)

lemma close_frame [simp]:
  "next_id (close_hub h) = next_id h" "hub_max (close_hub h) = hub_max h" "hub_out (close_hub h) = hub_out h"
  "hub_idle (close_hub h) = hub_idle h" "length (objs (close_hub h)) = length (objs h)"
  by (simp_all add: close_hub_def Let_def)

lemma close_by_id: "hub_inv h \<Longrightarrow> by_id (close_hub h) = []"
  using hub_shapeD(12) [OF hub_invD(1)] by (auto simp: close_hub_def Let_def)

lemma close_by_addr:
  assumes i: "hub_inv h"
  shows "by_addr (close_hub h) = []"
proof -
  note s = hub_invD(1) [OF i]
  note d = map_of_mem [OF hub_shapeD(1) [OF s]] map_of_mem [OF hub_shapeD(2) [OF s]]
  have gone: "k \<in> set (map (\<lambda>(i, n). client_key n h) (by_id h))" if "(k, n) \<in> set (by_addr h)" for k n
  proof -
    have a: "map_of (by_addr h) k = Some n" using that d by simp
    have "(ua_id (objs h ! n), n) \<in> set (by_id h)"
      using hub_shapeD(8) [OF s a] d unfolding mapped_def by simp
    then show ?thesis using hub_shapeD(7) [OF s a] by force
  qed
  have "by_addr h = []" if "hub_closed h"
    using gone hub_shapeD(12) [OF s that] by (cases "by_addr h") auto
  moreover have "filter (\<lambda>(k, n). k \<notin> set (map (\<lambda>(i, n). client_key n h) (by_id h))) (by_addr h) = []"
    using gone by (auto simp: filter_empty_conv simp del: set_map)
  ultimately show ?thesis by (simp add: close_hub_def Let_def client_key_def)
qed

lemma close_objs:
  "n < length (objs h) \<Longrightarrow>
   objs (close_hub h) ! n =
     (if \<not> hub_closed h \<and> n \<in> snd ` set (by_id h) \<and> \<not> ua_ready (objs h ! n)
      then (objs h ! n)\<lparr>ua_err := Some ''hub closed'', ua_ready := True\<rparr> else objs h ! n)"
  by (simp add: close_hub_def Let_def)

lemma mapped_in_snd: "mapped n h \<Longrightarrow> n \<in> snd ` set (by_id h)"
  unfolding mapped_def by (force dest: map_of_SomeD)

lemma close_inv:
  assumes i: "hub_inv h"
  shows "hub_inv (close_hub h)"
proof -
  note s = hub_invD(1) [OF i]
  have id: "ua_id (objs (close_hub h) ! n) = ua_id (objs h ! n)" if "n < length (objs h)" for n
    using close_objs [OF that] by simp
  have "hub_shape (close_hub h)"
    unfolding hub_shape_def using close_by_id [OF i] close_by_addr [OF i] hub_shapeD(9,10,11) [OF s] id by simp
  moreover have "ua_ready (objs (close_hub h) ! n)" if n: "n < length (objs h)" for n
  proof (cases "ua_ready (objs h ! n)")
    case False
    then have m: "mapped n h" using hub_flagsD(2) [OF hub_invD(2) [OF i] n] by simp
    then have "\<not> hub_closed h" using hub_shapeD(12) [OF s] by (auto simp: mapped_def)
    then show ?thesis using close_objs [OF n] mapped_in_snd [OF m] False by simp
  qed (use close_objs [OF n] in simp)
  ultimately show ?thesis
    unfolding hub_inv_def hub_flags_def using close_by_id [OF i] by (simp add: mapped_def)
qed

lemma close_view: "hub_inv h \<Longrightarrow> view (close_hub h) = (\<lambda>i. None)"
  by (simp add: view_def close_by_id fun_eq_iff)

subsection \<open>Opening an association\<close>

text \<open>Ids do not collide as long as fewer than \<open>2 ^ 32 - 1\<close> associations were opened.\<close>

definition ids_left :: "hub \<Rightarrow> bool" where
  "ids_left h \<longleftrightarrow> length (objs h) < 4294967295"

lemma id_inj:
  assumes "m < 4294967295" "n < 4294967295" "(of_nat (m + 1) :: 32 word) = of_nat (n + 1)"
  shows "m = n"
proof -
  have "m + 1 < 4294967296" "n + 1 < 4294967296" using assms(1,2) by linarith+
  then have "m + 1 = n + 1" using assms(3) unat_word32_of_nat by metis
  then show ?thesis by simp
qed

lemma next_id_fresh:
  assumes s: "hub_shape h" and l: "ids_left h"
  shows "map_of (by_id h) (next_id h) = None"
proof (cases "map_of (by_id h) (next_id h)")
  case (Some n)
  have n: "n < length (objs h)" "ua_id (objs h ! n) = next_id h" using hub_shapeD(3,4) [OF s Some] by auto
  then have "(of_nat (n + 1) :: 32 word) = of_nat (length (objs h) + 1)"
    unfolding hub_shapeD(9) [OF s n(1), symmetric] hub_shapeD(10) [OF s, symmetric] by simp
  then have "n = length (objs h)"
    using n(1) l by (intro id_inj) (simp_all add: ids_left_def)
  then show ?thesis using n(1) by simp
qed

lemma add_assoc_sel [simp]:
  "hub_reg (add_assoc c now h) = hub_reg h" "hub_closed (add_assoc c now h) = hub_closed h"
  "hub_max (add_assoc c now h) = hub_max h" "hub_out (add_assoc c now h) = hub_out h"
  "hub_stream (add_assoc c now h) = hub_stream h" "hub_idle (add_assoc c now h) = hub_idle h"
  "length (objs (add_assoc c now h)) = length (objs h) + 1"
  "map_of (by_id (add_assoc c now h)) = (map_of (by_id h))(next_id h \<mapsto> length (objs h))"
  "map_of (by_addr (add_assoc c now h)) = (map_of (by_addr h))(addr_key c \<mapsto> length (objs h))"
  "next_id (add_assoc c now h) = next_id h + 1"
  by (simp_all add: add_assoc_def)

lemma add_assoc_nth:
  "n < length (objs h) \<Longrightarrow> objs (add_assoc c now h) ! n = objs h ! n"
  "objs (add_assoc c now h) ! length (objs h) =
     \<lparr>ua_id = next_id h, ua_client = c, ua_last = now, ua_ready = False, ua_err = None\<rparr>"
  by (simp_all add: add_assoc_def nth_append)

lemma add_assoc_keys:
  "n < length (objs h) \<Longrightarrow> client_key n (add_assoc c now h) = client_key n h"
  "client_key (length (objs h)) (add_assoc c now h) = addr_key c"
  by (simp_all add: client_key_def add_assoc_nth)

lemma add_assoc_mapped:
  assumes "hub_inv h" "ids_left h"
  shows "mapped (length (objs h)) (add_assoc c now h)" "n < length (objs h) \<Longrightarrow> mapped n (add_assoc c now h) \<longleftrightarrow> mapped n h"
  using next_id_fresh [OF hub_invD(1) [OF assms(1)] assms(2)] by (auto simp: mapped_def add_assoc_nth)

lemma add_assoc_keyed:
  assumes i: "hub_inv h" and l: "ids_left h" and k: "map_of (by_addr h) (addr_key c) = None"
  shows "map_of (by_id (add_assoc c now h)) j = Some n \<Longrightarrow> n < length (objs (add_assoc c now h)) \<and>
      ua_id (objs (add_assoc c now h) ! n) = j \<and> map_of (by_addr (add_assoc c now h)) (client_key n (add_assoc c now h)) = Some n"
    "map_of (by_addr (add_assoc c now h)) a = Some n \<Longrightarrow> n < length (objs (add_assoc c now h)) \<and>
      client_key n (add_assoc c now h) = a \<and> mapped n (add_assoc c now h)"
proof -
  note s = hub_invD(1) [OF i] and mp = add_assoc_mapped [OF i l, where c = c and now = now]
  show "n < length (objs (add_assoc c now h)) \<and> ua_id (objs (add_assoc c now h) ! n) = j \<and>
      map_of (by_addr (add_assoc c now h)) (client_key n (add_assoc c now h)) = Some n"
    if "map_of (by_id (add_assoc c now h)) j = Some n"
  proof (cases "map_of (by_id h) j = Some n")
    case True
    note d = hub_shapeD(3,4,5) [OF s True]
    then have "client_key n h \<noteq> addr_key c" using k by auto
    then show ?thesis using d by (simp add: add_assoc_nth add_assoc_keys)
  next
    case False
    then have "j = next_id h \<and> n = length (objs h)" using that by (auto split: if_splits)
    then show ?thesis by (simp add: add_assoc_nth add_assoc_keys)
  qed
  show "n < length (objs (add_assoc c now h)) \<and> client_key n (add_assoc c now h) = a \<and> mapped n (add_assoc c now h)"
    if "map_of (by_addr (add_assoc c now h)) a = Some n"
  proof (cases "map_of (by_addr h) a = Some n")
    case True
    then show ?thesis using hub_shapeD(6,7,8) [OF s True] mp by (simp add: add_assoc_keys)
  next
    case False
    then have "a = addr_key c \<and> n = length (objs h)" using that by (auto split: if_splits)
    then show ?thesis using mp by (simp add: add_assoc_keys)
  qed
qed

lemma add_assoc_shape:
  assumes i: "hub_inv h" and l: "ids_left h" and o: "\<not> hub_closed h"
    and k: "map_of (by_addr h) (addr_key c) = None" and m: "length (by_id h) < hub_max h"
  shows "hub_shape (add_assoc c now h)"
proof -
  let ?g = "add_assoc c now h"
  note s = hub_invD(1) [OF i]
  have c3: "\<forall>n < length (objs ?g). ua_id (objs ?g ! n) = of_nat (n + 1)"
    using hub_shapeD(9) [OF s] hub_shapeD(10) [OF s] by (auto simp: add_assoc_nth less_Suc_eq)
  have "length (by_id ?g) \<le> Suc (length (by_id h))"
    using next_id_fresh [OF s l] by (simp add: add_assoc_def update_new map_of_eq_None_iff)
  moreover have "next_id ?g = of_nat (length (objs ?g) + 1)" using hub_shapeD(10) [OF s] by (simp add: add_assoc_def)
  ultimately show ?thesis
    unfolding hub_shape_def using add_assoc_keyed [OF i l k, where now = now] c3 m o hub_shapeD(1,2) [OF s]
    by (simp add: add_assoc_def)
qed

lemma add_assoc_flags:
  assumes i: "hub_inv h" and l: "ids_left h"
  shows "hub_flags (add_assoc c now h)"
proof -
  note f = hub_flagsD [OF hub_invD(2) [OF i]] and mp = add_assoc_mapped [OF i l, where c = c and now = now]
  have "ua_err (objs (add_assoc c now h) ! n) = None"
    if n: "mapped n (add_assoc c now h)" "n < length (objs (add_assoc c now h))" "ua_ready (objs (add_assoc c now h) ! n)" for n
  proof -
    have "n < length (objs h)" using n by (auto simp: add_assoc_nth less_Suc_eq)
    then show ?thesis using n mp(2) f(1) [of n] by (simp add: add_assoc_nth)
  qed
  moreover have "mapped n (add_assoc c now h)"
    if n: "n < length (objs (add_assoc c now h))" "\<not> ua_ready (objs (add_assoc c now h) ! n)" for n
  proof (cases "n < length (objs h)")
    case True
    then show ?thesis using n mp(2) f(2) [of n] by (simp add: add_assoc_nth)
  next
    case False
    then show ?thesis using n(1) mp(1) by (simp add: less_Suc_eq)
  qed
  ultimately show ?thesis by (simp add: hub_flags_def)
qed

lemma add_assoc_inv:
  assumes i: "hub_inv h" and l: "ids_left h" and o: "\<not> hub_closed h"
    and k: "map_of (by_addr h) (addr_key c) = None" and m: "length (by_id h) < hub_max h"
  shows "hub_inv (add_assoc c now h)" "mapped (length (objs h)) (add_assoc c now h)"
    "view (add_assoc c now h) =
       (view h)(next_id h \<mapsto> \<lparr>ua_id = next_id h, ua_client = c, ua_last = now, ua_ready = False, ua_err = None\<rparr>)"
proof -
  show "hub_inv (add_assoc c now h)" using add_assoc_shape [OF i l o k m] add_assoc_flags [OF i l] by (simp add: hub_inv_def)
  show "mapped (length (objs h)) (add_assoc c now h)" by (rule add_assoc_mapped [OF i l])
  show "view (add_assoc c now h) =
       (view h)(next_id h \<mapsto> \<lparr>ua_id = next_id h, ua_client = c, ua_last = now, ua_ready = False, ua_err = None\<rparr>)"
  proof
    fix j
    show "view (add_assoc c now h) j =
        ((view h)(next_id h \<mapsto> \<lparr>ua_id = next_id h, ua_client = c, ua_last = now, ua_ready = False, ua_err = None\<rparr>)) j"
      using hub_shapeD(3) [OF hub_invD(1) [OF i], of j] by (cases "map_of (by_id h) j") (auto simp: view_def add_assoc_nth)
  qed
qed

lemma hub_write_mapped [simp]: "mapped n (snd (hub_write t p h)) = mapped n h"
  by (simp add: mapped_def)

text \<open>The ways \<open>ensureAssoc\<close> can start.\<close>

lemma ensure_start_cases:
  assumes i: "hub_inv h" and l: "ids_left h"
  obtains (refused) e where "ensure_start c now h = (Inl e, h)"
  | (found) n where "ensure_start c now h = (Inr (n, False), h)" "map_of (by_addr h) (addr_key c) = Some n"
  | (failed) e m g where "ensure_start c now h = (Inl e, fail_assoc (length (objs h)) m g)"
      "g = (add_assoc c now h)\<lparr>hub_stream := hub_stream g\<rparr>" "hub_inv g" "mapped (length (objs h)) g"
  | (opened) g p where "ensure_start c now h = (Inr (length (objs h), True), g)"
      "g = (add_assoc c now h)\<lparr>hub_stream := hub_stream g\<rparr>" "hub_inv g" "mapped (length (objs h)) g"
      "marshal_open_assoc \<lparr>as_id = next_id h, as_client_addr = addr_key c\<rparr> = Inr p"
      "write_frame TypeOpenAssoc p (hub_stream h) = (Inr (), hub_stream g)"
      "\<not> hub_closed h" "map_of (by_addr h) (addr_key c) = None" "length (by_id h) < hub_max h"
proof -
  let ?g = "add_assoc c now h" and ?n = "length (objs h)"
  consider (closed) "hub_closed h" | (old) n where "\<not> hub_closed h" "map_of (by_addr h) (addr_key c) = Some n"
    | (full) "\<not> hub_closed h" "map_of (by_addr h) (addr_key c) = None" "hub_max h \<le> length (by_id h)"
    | (new) "\<not> hub_closed h" "map_of (by_addr h) (addr_key c) = None" "length (by_id h) < hub_max h"
    by (cases "map_of (by_addr h) (addr_key c)") fastforce+
  then show ?thesis
  proof cases
    case new
    note a = add_assoc_inv [OF i l new, of now]
    show ?thesis
    proof (cases "marshal_open_assoc \<lparr>as_id = next_id h, as_client_addr = addr_key c\<rparr>")
      case (Inl e)
      then have "ensure_start c now h = (Inl (HubCodec e), fail_assoc ?n ''marshal'' ?g)"
        using new by (simp add: ensure_start_def Let_def)
      then show ?thesis by (rule failed) (use a in simp_all)
    next
      case (Inr p)
      obtain r g where w: "hub_write TypeOpenAssoc p ?g = (r, g)" by fastforce
      note g = hub_write_frame [OF w]
      have gi: "hub_inv g" "mapped ?n g"
        using hub_inv_frame(4) [of TypeOpenAssoc p ?g] hub_write_mapped [of ?n TypeOpenAssoc p ?g] a(1,2) w by simp_all
      show ?thesis
      proof (cases r)
        case (Inl e)
        then have "ensure_start c now h = (Inl e, fail_assoc ?n ''write'' g)"
          using new Inr w by (simp add: ensure_start_def Let_def)
        then show ?thesis by (rule failed) (use g gi in simp_all)
      next
        case r: (Inr u)
        then have "ensure_start c now h = (Inr (?n, True), g)" using new Inr w by (simp add: ensure_start_def Let_def)
        moreover have "write_frame TypeOpenAssoc p (hub_stream h) = (Inr (), hub_stream g)"
          using w r new(1) by (auto simp: hub_write_def split: sum.splits prod.splits)
        ultimately show ?thesis using opened g gi Inr new by blast
      qed
    qed
  next
    case closed
    then show ?thesis by (intro refused) (simp add: ensure_start_def)
  next
    case (old n)
    then show ?thesis by (intro found) (simp_all add: ensure_start_def)
  next
    case full
    then show ?thesis by (intro refused) (simp add: ensure_start_def)
  qed
qed

lemma view_add_then_fail:
  assumes i: "hub_inv h" and l: "ids_left h" and g: "g = (add_assoc c now h)\<lparr>hub_stream := s\<rparr>"
    and gi: "hub_inv g" "mapped (length (objs h)) g"
  shows "view (fail_assoc (length (objs h)) m g) = view h"
proof -
  have id: "ua_id (objs g ! length (objs h)) = next_id h" using g by (simp add: add_assoc_nth)
  have "view g j = view h j" if "j \<noteq> next_id h" for j
    using that hub_shapeD(3) [OF hub_invD(1) [OF i], of j]
    by (cases "map_of (by_id h) j") (auto simp: g view_def add_assoc_nth)
  moreover have "view h (next_id h) = None" using next_id_fresh [OF hub_invD(1) [OF i] l] by (simp add: view_eq_None)
  ultimately show ?thesis unfolding fail_view [OF gi, of m] id by (intro ext) (metis fun_upd_apply)
qed

lemma ensure_start_inv:
  assumes "hub_inv h" "ids_left h"
  shows "hub_inv (snd (ensure_start c now h))"
  using assms
proof (cases rule: ensure_start_cases [where c = c and now = now])
  case (failed e m g)
  have "length (objs h) < length (objs g)" by (subst failed(2)) simp
  then show ?thesis using failed by (simp add: fail_inv)
qed (use assms in simp_all)

lemma timeout_inv: "hub_inv h \<Longrightarrow> n < length (objs h) \<Longrightarrow> hub_inv (snd (ensure_timeout n h))"
  by (auto simp: ensure_timeout_def Let_def split: sum.split intro!: fail_inv
      intro: hub_flagsD(2) [OF hub_invD(2)])

lemma forward_inv: "hub_inv h \<Longrightarrow> n < length (objs h) \<Longrightarrow> hub_inv (snd (forward_on n p now h))"
  by (auto simp: forward_on_def Let_def split: sum.split intro!: touch_inv)

text \<open>One turn of the read loop is one of the operations. \<open>read_ack\<close> is the acknowledgement
  that is next on the stream, if one is.\<close>

definition read_ack :: "hub \<Rightarrow> open_assoc_ack option" where
  "read_ack h =
     (case read_frame (hub_stream h) of
        (Inl _, _) \<Rightarrow> None
      | (Inr f, _) \<Rightarrow>
          if fr_type f \<noteq> TypeOpenAssocAck then None
          else (case parse_open_assoc_ack (fr_payload f) of Inl _ \<Rightarrow> None | Inr k \<Rightarrow> Some k))"

lemma read_step_cases:
  obtains (close) c where "read_step now h = close_hub (h\<lparr>hub_stream := c\<rparr>)" "read_ack h = None"
  | (skip) c where "read_step now h = h\<lparr>hub_stream := c\<rparr>" "read_ack h = None"
  | (ack) c k where "read_step now h = mark_ready (ak_id k) (ak_ok k) (ak_message k) (h\<lparr>hub_stream := c\<rparr>)" "read_ack h = Some k"
  | (datagram) c and d :: datagram where "read_step now h = deliver (dg_id d) (dg_payload d) now (h\<lparr>hub_stream := c\<rparr>)"
      "read_ack h = None"
  | (gone) c and k :: close_assoc where "read_step now h = remove_assoc (ca_id k) False (h\<lparr>hub_stream := c\<rparr>)" "read_ack h = None"
proof -
  obtain r c where rc: "read_frame (hub_stream h) = (r, c)" by fastforce
  show ?thesis
  proof (cases r)
    case (Inl e)
    then show ?thesis using close [of c] rc by (simp add: read_step_def read_ack_def)
  next
    case (Inr f)
    note e = read_step_def [of now h, unfolded rc Inr, simplified Let_def sum.case prod.case]
      and a = read_ack_def [of h, unfolded rc Inr, simplified Let_def sum.case prod.case]
    consider "fr_type f = TypeOpenAssocAck" | "fr_type f \<noteq> TypeOpenAssocAck" "fr_type f = TypeDatagram"
      | "fr_type f \<noteq> TypeOpenAssocAck" "fr_type f \<noteq> TypeDatagram" "fr_type f = TypeCloseAssoc"
      | "fr_type f \<noteq> TypeOpenAssocAck" "fr_type f \<noteq> TypeDatagram" "fr_type f \<noteq> TypeCloseAssoc" by blast
    then show ?thesis
    proof cases
      case 1
      then show ?thesis using e a skip ack by (cases "parse_open_assoc_ack (fr_payload f)") auto
    next
      case 2
      then show ?thesis using e a skip datagram by (cases "parse_datagram (fr_payload f)") auto
    next
      case 3
      then show ?thesis using e a skip gone by (cases "parse_close_assoc (fr_payload f)") auto
    next
      case 4
      then show ?thesis using e a skip by auto
    qed
  qed
qed

lemma read_step_inv:
  assumes "hub_inv h"
  shows "hub_inv (read_step now h)"
  by (cases rule: read_step_cases [of now h])
     (use assms in \<open>auto intro: close_inv mark_ready_inv deliver_inv remove_inv\<close>)

lemma objs_grow: "length (objs h) \<le> length (objs (hub_step e h))"
proof (cases e)
  case (HEnsure c now)
  have "length (objs h) \<le> length (objs (snd (ensure_start c now h)))"
    by (simp add: ensure_start_def Let_def split: option.split sum.split prod.split)
       (metis add_assoc_sel(7) hub_write_frame_simps(1) le_add1 snd_conv)
  then show ?thesis using HEnsure by simp
next
  case (HRead now)
  then show ?thesis by (cases rule: read_step_cases [of now h]) auto
qed (auto simp: ensure_timeout_def forward_on_def Let_def evict_ids reap_ids split: sum.split)

lemma hub_step_inv: "hub_inv h \<Longrightarrow> ids_left h \<Longrightarrow> hub_inv (hub_step e h)"
  by (cases e) (simp_all add: ensure_start_inv timeout_inv forward_inv mark_ready_inv deliver_inv remove_inv
      evict_ids reap_ids remove_all_inv read_step_inv close_inv)

text \<open>The hub is a machine: the invariant holds as long as the ids last.\<close>

definition hub_good :: "hub \<Rightarrow> bool" where
  "hub_good h \<longleftrightarrow> (ids_left h \<longrightarrow> hub_inv h)"

interpretation udp_machine: machine hub_step "\<lambda>e. True" hub_good
proof
  fix e h
  assume "hub_good h"
  then show "hub_good (hub_step e h)"
    using hub_step_inv [of h e] objs_grow [of h e] unfolding hub_good_def ids_left_def by fastforce
qed

lemma new_hub_inv: "hub_inv (new_hub c m idle r)"
  by (simp add: hub_inv_def hub_shape_def hub_flags_def new_hub_def mapped_def)

section \<open>The session gauge\<close>

definition live_set :: "hub \<Rightarrow> 32 word set" where
  "live_set h = {i. \<exists>a. view h i = Some a \<and> is_live a}"

definition live_count :: "hub \<Rightarrow> nat" where
  "live_count h = length (ids_where is_live h)"

text \<open>How far the gauge is above the number of live associations.\<close>

definition gap :: "hub \<Rightarrow> int" where
  "gap h = active_sessions (hub_reg h) - int (card (live_set h))"

lemma finite_live [simp]: "finite (live_set h)"
  by (rule finite_subset [of _ "dom (map_of (by_id h))"]) (auto simp: live_set_def view_def finite_dom_map_of)

lemma live_set_None [simp]: "view h i = None \<Longrightarrow> i \<notin> live_set h"
  by (auto simp: live_set_def)

lemma live_set_Some: "view h i = Some a \<Longrightarrow> i \<in> live_set h \<longleftrightarrow> is_live a"
  by (auto simp: live_set_def)

lemma live_set_view: "view g = view h \<Longrightarrow> live_set g = live_set h"
  by (simp add: live_set_def)

lemma live_set_drop: "view g = (view h)(i := None) \<Longrightarrow> live_set g = live_set h - {i}"
  by (auto simp: live_set_def split: if_splits)

lemma live_set_put:
  "view g = (view h)(i \<mapsto> a) \<Longrightarrow> live_set g = (if is_live a then insert i (live_set h) else live_set h - {i})"
  by (auto simp: live_set_def split: if_splits)

lemma live_count_card:
  assumes "hub_inv h"
  shows "live_count h = card (live_set h)"
proof -
  have "distinct (ids_where is_live h)"
    using hub_shapeD(1) [OF hub_invD(1) [OF assms]] by (simp add: ids_where_def distinct_map_filter)
  moreover have "set (ids_where is_live h) = live_set h" by (auto simp: ids_where_iff [OF assms] live_set_def)
  ultimately show ?thesis using distinct_card by (fastforce simp: live_count_def)
qed

lemma gap_cong: "view g = view h \<Longrightarrow> hub_reg g = hub_reg h \<Longrightarrow> gap g = gap h"
  unfolding gap_def by (metis live_set_view)

lemma card_Diff_live: "int (card (live_set h - {i})) = int (card (live_set h)) - (if i \<in> live_set h then 1 else 0)"
proof (cases "i \<in> live_set h")
  case True
  then have "0 < card (live_set h)" by (auto simp: card_gt_0_iff)
  then show ?thesis using True by (simp add: card_Diff_singleton_if of_nat_diff)
qed simp

lemma active_add: "0 \<le> active_sessions r + d \<Longrightarrow> active_sessions (add_sessions d r) = active_sessions r + d"
  by (simp add: add_sessions_def)

text \<open>Sessions that a negative acknowledgement of a live association leaves in the gauge.\<close>

definition ack_leak :: "32 word \<Rightarrow> bool \<Rightarrow> hub \<Rightarrow> nat" where
  "ack_leak i ok h = (case view h i of Some a \<Rightarrow> if \<not> ok \<and> is_live a then 1 else 0 | None \<Rightarrow> 0)"

lemma is_live_last [simp]: "is_live (a\<lparr>ua_last := t\<rparr>) = is_live a"
  by (simp add: is_live_def)

lemma gap_mark_ready:
  assumes i: "hub_inv h" and g: "0 \<le> gap h"
  shows "gap (mark_ready i ok msg h) = gap h + int (ack_leak i ok h)"
proof (cases "map_of (by_id h) i")
  case None
  then show ?thesis by (simp add: mark_ready_def ack_leak_def view_def)
next
  case (Some n)
  note v = view_SomeD [OF i Some]
  note vw = mark_ready_view [OF i, of i ok msg, unfolded v(4) option.case]
  consider (neg) "\<not> ok" | (again) "ok" "ua_ready (objs h ! n)" | (first) "ok" "\<not> ua_ready (objs h ! n)" by blast
  then show ?thesis
  proof cases
    case neg
    then have "live_set (mark_ready i ok msg h) = live_set h - {i}" using vw by (intro live_set_drop) simp
    moreover have "hub_reg (mark_ready i ok msg h) = hub_reg h" using neg Some by (simp add: mark_ready_def)
    ultimately show ?thesis
      using card_Diff_live [of h i] live_set_Some [OF v(4)] v(4) neg by (simp add: gap_def ack_leak_def)
  next
    case again
    then show ?thesis using Some by (simp add: mark_ready_def ack_leak_def v(4))
  next
    case first
    then have l: "live_set (mark_ready i ok msg h) = insert i (live_set h)"
      using live_set_put [of "mark_ready i ok msg h" h i "(objs h ! n)\<lparr>ua_err := None, ua_ready := True\<rparr>"] vw
      by (simp add: is_live_def)
    have "i \<notin> live_set h" using live_set_Some [OF v(4)] first by (simp add: is_live_def)
    then have "int (card (live_set (mark_ready i ok msg h))) = int (card (live_set h)) + 1" using l by simp
    moreover have "active_sessions (hub_reg (mark_ready i ok msg h)) = active_sessions (hub_reg h) + 1"
      using first Some g by (simp add: mark_ready_def Let_def active_add gap_def)
    ultimately show ?thesis using first by (simp add: gap_def ack_leak_def v(4))
  qed
qed

lemma gap_deliver:
  assumes i: "hub_inv h"
  shows "gap (deliver i p now h) = gap h"
proof (cases "view h i")
  case (Some a)
  then have "view (deliver i p now h) = (view h)(i \<mapsto> a\<lparr>ua_last := now\<rparr>)" using deliver_view [OF i, of i p now] by simp
  from live_set_put [OF this] have "live_set (deliver i p now h) = live_set h"
    using live_set_Some [OF Some] by auto
  then show ?thesis by (simp add: gap_def)
qed (simp add: deliver_def view_def)

lemma gap_remove:
  assumes i: "hub_inv h" and g: "0 \<le> gap h"
  shows "gap (remove_assoc i notify h) = gap h"
proof -
  note l = live_set_drop [OF remove_view [OF i, of i notify]]
  show ?thesis
  proof (cases "i \<in> live_set h")
    case True
    then obtain a where a: "view h i = Some a" "is_live a" by (auto simp: live_set_def)
    have "0 < card (live_set h)" using True by (auto simp: card_gt_0_iff)
    then have "active_sessions (add_sessions (- 1) (hub_reg h)) = active_sessions (hub_reg h) - 1"
      using g active_add [of "hub_reg h" "- 1"] by (simp add: gap_def)
    then show ?thesis
      using a l remove_reg [OF i, of i notify] card_Diff_live [of h i] True by (simp add: gap_def)
  next
    case False
    then have "hub_reg (remove_assoc i notify h) = hub_reg h"
      using remove_reg [OF i, of i notify] live_set_Some by (auto split: option.splits)
    then show ?thesis using l False by (simp add: gap_def)
  qed
qed

lemma gap_remove_all: "hub_inv h \<Longrightarrow> 0 \<le> gap h \<Longrightarrow> gap (remove_all is h) = gap h"
  by (induction "is" arbitrary: h) (simp_all add: gap_remove remove_inv)

lemma live_count_filter: "live_count h = length (filter (\<lambda>(i, n). is_live (objs h ! n)) (by_id h))"
  by (simp add: live_count_def ids_where_def)

lemma gap_close:
  assumes i: "hub_inv h" and g: "0 \<le> gap h"
  shows "gap (close_hub h) = gap h"
proof (cases "hub_closed h")
  case False
  have "hub_reg (close_hub h) = (if live_count h > 0 then add_sessions (- int (live_count h)) (hub_reg h) else hub_reg h)"
    using False by (simp add: close_hub_def Let_def live_count_filter)
  then have "active_sessions (hub_reg (close_hub h)) = active_sessions (hub_reg h) - int (card (live_set h))"
    using g live_count_card [OF i] active_add [of "hub_reg h" "- int (live_count h)"] by (simp add: gap_def)
  moreover have "live_set (close_hub h) = {}" using close_view [OF i] by (simp add: live_set_def)
  ultimately show ?thesis by (simp add: gap_def)
qed (simp add: close_hub_def)

lemma gap_ensure:
  assumes i: "hub_inv h" and l: "ids_left h"
  shows "gap (snd (ensure_start c now h)) = gap h"
  using i l
proof (cases rule: ensure_start_cases [where c = c and now = now])
  case (failed e m g)
  have "hub_reg g = hub_reg h" by (subst failed(2)) simp
  then show ?thesis
    using view_add_then_fail [OF i l failed(2,3,4), of m] failed(1) by (intro gap_cong) simp_all
next
  case (opened g p)
  have "view (snd (ensure_start c now h)) = view (add_assoc c now h)"
    unfolding opened(1) snd_conv by (subst opened(2)) simp
  then have "live_set g = live_set h - {next_id h}"
    using live_set_put [OF add_assoc_inv(3) [OF i l opened(7,8,9), of now]] live_set_view [of g "add_assoc c now h"]
      opened(1) by (simp add: is_live_def)
  also have "\<dots> = live_set h"
    using next_id_fresh [OF hub_invD(1) [OF i] l] by (simp add: view_eq_None)
  finally have "live_set g = live_set h" .
  moreover have "hub_reg g = hub_reg h" by (subst opened(2)) simp
  ultimately show ?thesis using opened(1) by (simp add: gap_def)
qed simp_all

lemma gap_timeout:
  assumes i: "hub_inv h" and n: "n < length (objs h)"
  shows "gap (snd (ensure_timeout n h)) = gap h"
proof (cases "ua_ready (objs h ! n)")
  case True
  then show ?thesis by (simp add: ensure_timeout_def)
next
  case False
  have m: "mapped n h" using False hub_flagsD(2) [OF hub_invD(2) [OF i] n] by simp
  have "view h (ua_id (objs h ! n)) = Some (objs h ! n)" using m by (simp add: mapped_def view_def)
  then have "ua_id (objs h ! n) \<notin> live_set h" using False by (simp add: live_set_def is_live_def)
  then have "gap (fail_assoc n e h) = gap h" for e
    using live_set_drop [OF fail_view [OF i m, of e]] by (simp add: gap_def)
  moreover have "gap (snd (hub_write t p g)) = gap g" for t p g by (intro gap_cong) simp_all
  ultimately show ?thesis using False by (simp add: ensure_timeout_def Let_def split: sum.split)
qed

lemma gap_forward:
  assumes i: "hub_inv h" and n: "n < length (objs h)"
  shows "gap (snd (forward_on n p now h)) = gap h"
proof -
  let ?g = "upd_obj n (\<lambda>a. a\<lparr>ua_last := now\<rparr>) h"
  have "live_set ?g = live_set h"
    unfolding live_set_def view_def using hub_shapeD(3) [OF hub_invD(1) [OF i]] by (auto split: if_splits)
  then have "gap ?g = gap h" by (simp add: gap_def)
  moreover have "gap (snd (hub_write t p g)) = gap g" for t p g by (intro gap_cong) simp_all
  ultimately show ?thesis by (simp add: forward_on_def Let_def split: sum.split)
qed

text \<open>What an event leaks: only an acknowledgement can.\<close>

fun leak :: "hub_event \<Rightarrow> hub \<Rightarrow> nat" where
  "leak (HAck i ok msg) h = ack_leak i ok h"
| "leak (HRead now) h =
     (if hub_closed h then 0 else case read_ack h of None \<Rightarrow> 0 | Some k \<Rightarrow> ack_leak (ak_id k) (ak_ok k) h)"
| "leak _ h = 0"

lemma gap_stream [simp]: "gap (h\<lparr>hub_stream := c\<rparr>) = gap h"
  by (intro gap_cong) simp_all

lemma ack_leak_stream [simp]: "ack_leak i ok (h\<lparr>hub_stream := c\<rparr>) = ack_leak i ok h"
  by (simp add: ack_leak_def)

lemma gap_read:
  assumes "hub_inv h" "0 \<le> gap h"
  shows "gap (read_step now h) = gap h + int (case read_ack h of None \<Rightarrow> 0 | Some k \<Rightarrow> ack_leak (ak_id k) (ak_ok k) h)"
  by (cases rule: read_step_cases [of now h])
     (use assms in \<open>simp_all add: gap_close gap_mark_ready gap_deliver gap_remove\<close>)

lemma gap_step:
  assumes "hub_inv h" "ids_left h" "0 \<le> gap h"
  shows "gap (hub_step e h) = gap h + int (leak e h)"
  using assms by (cases e) (simp_all add: gap_ensure gap_timeout gap_forward gap_mark_ready gap_deliver gap_remove
      gap_remove_all evict_ids reap_ids gap_close gap_read)

fun leaks :: "hub_event list \<Rightarrow> hub \<Rightarrow> nat" where
  "leaks [] h = 0"
| "leaks (e # es) h = leak e h + leaks es (hub_step e h)"

lemma run_grows: "length (objs h) \<le> length (objs (run_events hub_step es h))"
  by (induction es arbitrary: h) (auto intro: order_trans [OF objs_grow])

lemma hub_run_inv:
  assumes "hub_inv h" "ids_left (run_events hub_step es h)"
  shows "hub_inv (run_events hub_step es h)"
  using udp_machine.run_inv [of es h] assms by (simp add: hub_good_def list_all_iff)

lemma run_gap:
  assumes "hub_inv h" "ids_left (run_events hub_step es h)" "0 \<le> gap h"
  shows "gap (run_events hub_step es h) = gap h + int (leaks es h)"
  using assms
proof (induction es arbitrary: h)
  case (Cons e es)
  have l: "ids_left h"
    using Cons.prems(2) run_grows [of h "e # es"] by (simp add: ids_left_def)
  note s = gap_step [OF Cons.prems(1) l Cons.prems(3), of e]
  then show ?case
    using Cons.IH [OF hub_step_inv [OF Cons.prems(1) l]] Cons.prems by simp
qed simp

section \<open>An id keeps its client\<close>

definition idents :: "hub \<Rightarrow> (32 word \<times> udp_addr) list" where
  "idents h = map (\<lambda>a. (ua_id a, ua_client a)) (objs h)"

lemma idents_upd [simp]: "keeps_key f \<Longrightarrow> idents (upd_obj n f h) = idents h"
proof (cases "n < length (objs h)")
  case True
  then show "keeps_key f \<Longrightarrow> idents (upd_obj n f h) = idents h"
    by (simp add: idents_def upd_obj_def map_update keeps_keyD list_update_same_conv)
qed (simp add: idents_def upd_obj_def list_update_beyond)

lemma idents_cong: "objs g = objs h \<Longrightarrow> idents g = idents h"
  by (simp add: idents_def)

lemma idents_frame [simp]:
  "idents (unlink n h) = idents h" "idents (snd (hub_write t p h)) = idents h"
  "idents (h\<lparr>hub_stream := c\<rparr>) = idents h" "idents (h\<lparr>hub_reg := r\<rparr>) = idents h" "idents (h\<lparr>hub_out := os\<rparr>) = idents h"
  by (simp_all add: idents_def)

lemma idents_fail [simp]: "idents (fail_assoc n m h) = idents h"
  by (simp add: fail_assoc_def)

lemma idents_ops [simp]:
  "idents (mark_ready i ok msg h) = idents h" "idents (deliver i p now h) = idents h"
  "idents (remove_assoc i notify h) = idents h" "idents (snd (ensure_timeout n h)) = idents h"
  "idents (snd (forward_on n p now h)) = idents h"
  by (simp_all add: mark_ready_def deliver_def remove_assoc_def ensure_timeout_def forward_on_def Let_def
      split: option.split sum.split)

lemma idents_remove_all [simp]: "idents (remove_all is h) = idents h"
  by (induction "is" arbitrary: h) simp_all

lemma idents_close [simp]: "idents (close_hub h) = idents h"
  by (rule nth_equalityI) (simp_all add: idents_def close_objs)

lemma idents_read [simp]: "idents (read_step now h) = idents h"
  by (cases rule: read_step_cases [of now h]) simp_all

lemma idents_ensure: "\<exists>new. idents (snd (ensure_start c now h)) = idents h @ new"
proof -
  have a: "idents (add_assoc c now h) = idents h @ [(next_id h, c)]" by (simp add: idents_def add_assoc_def)
  have "idents (snd (hub_write t p (add_assoc c now h))) = idents h @ [(next_id h, c)]" for t p using a by simp
  then have "idents g = idents h @ [(next_id h, c)]" if "hub_write t p (add_assoc c now h) = (r, g)" for t p r g
    using that by (metis snd_conv)
  then show ?thesis
    by (auto simp: ensure_start_def Let_def a split: option.split sum.split prod.split)
qed

lemma idents_step: "\<exists>new. idents (hub_step e h) = idents h @ new"
  using idents_ensure by (cases e) (auto simp: evict_ids reap_ids)

lemma idents_run: "\<exists>new. idents (run_events hub_step es h) = idents h @ new"
proof (induction es arbitrary: h)
  case (Cons e es)
  then show ?case using idents_step [of e h] by (metis append_assoc run_events.simps(2))
qed simp

section \<open>Properties\<close>

text \<open>The table a step leaves, on the abstract state alone.\<close>

definition drop_where :: "(assoc \<Rightarrow> bool) \<Rightarrow> (32 word \<Rightarrow> assoc option) \<Rightarrow> 32 word \<Rightarrow> assoc option" where
  "drop_where P t i = (case t i of None \<Rightarrow> None | Some a \<Rightarrow> if P a then None else Some a)"

text \<open>
The UDP hub is a table of associations. Seen as a map from ids to associations, every operation does exactly what it says and touches no other entry: a positive acknowledgement makes a waiting association ready once, a negative one drops it, a datagram refreshes its own association, removal drops one id, an eviction drops exactly the associations whose client is not allowed, the reaper exactly the ready ones that were idle for longer than the limit, and closing empties the table.
\<close>

theorem udp_table_refines:
  assumes "hub_inv h"
  shows "view (mark_ready i ok msg h) =
       (case view h i of None \<Rightarrow> view h
        | Some a \<Rightarrow> if \<not> ok then (view h)(i := None) else if ua_ready a then view h
                    else (view h)(i \<mapsto> a\<lparr>ua_err := None, ua_ready := True\<rparr>)) \<and>
     view (deliver i p now h) = (case view h i of None \<Rightarrow> view h | Some a \<Rightarrow> (view h)(i \<mapsto> a\<lparr>ua_last := now\<rparr>)) \<and>
     view (remove_assoc i notify h) = (view h)(i := None) \<and>
     view (evict_assocs allowed h) = drop_where (\<lambda>a. \<not> allowed (u_ip (ua_client a))) (view h) \<and>
     view (reap_idle now h) =
       drop_where (\<lambda>a. ua_ready a \<and> ua_err a = None \<and> ua_last a < now - hub_idle h) (view h) \<and>
     view (close_hub h) = (\<lambda>i. None)"
  using mark_ready_view [OF assms] deliver_view [OF assms] remove_view [OF assms] drop_where_view [OF assms] close_view [OF assms]
  by (simp add: evict_ids reap_ids drop_where_def fun_eq_iff is_stale_def [abs_def])

definition example_client :: udp_addr where
  "example_client = \<lparr>u_ip = [10, 0, 0, 7], u_port = 53\<rparr>"

definition example_hub :: hub where
  "example_hub = new_hub (mk_conn []) 4 60 new_registry"

theorem udp_table_refines_witness: "view (close_hub example_hub) = (\<lambda>i. None)"
  using udp_table_refines [of example_hub 1 True "[]" "[]" 0 True "\<lambda>_. True"]
  unfolding example_hub_def by (simp add: new_hub_inv)

text \<open>
Opening an association. Asking for a client's association yields the existing one and changes nothing, or opens a new one under an id that no other association has, with exactly one OpenAssoc frame that carries the id and the client's address, and never more associations than the limit; if it fails, the table and the session gauge are as before.
\<close>

theorem udp_ensure_outcomes:
  assumes i: "hub_inv h" and l: "ids_left h"
  shows "case ensure_start c now h of
      (Inl e, g) \<Rightarrow> hub_inv g \<and> view g = view h \<and> hub_reg g = hub_reg h
    | (Inr (n, fresh), g) \<Rightarrow> hub_inv g \<and> mapped n g \<and> client_key n g = addr_key c \<and>
        (if fresh
         then view h (next_id h) = None \<and>
           view g = (view h)(next_id h \<mapsto> \<lparr>ua_id = next_id h, ua_client = c, ua_last = now, ua_ready = False, ua_err = None\<rparr>) \<and>
           length (by_id g) \<le> hub_max h \<and>
           (\<exists>p. parse_open_assoc p = Inr \<lparr>as_id = next_id h, as_client_addr = addr_key c\<rparr> \<and>
                tx (hub_stream g) = tx (hub_stream h) @ frame_bytes TypeOpenAssoc p)
         else g = h)"
  using i l
proof (cases rule: ensure_start_cases [where c = c and now = now])
  case (refused e)
  then show ?thesis using i by simp
next
  case (found n)
  then show ?thesis using i hub_shapeD(7,8) [OF hub_invD(1) [OF i] found(2)] by simp
next
  case (failed e m g)
  have "hub_reg g = hub_reg h" "length (objs h) < length (objs g)" by (subst failed(2), simp)+
  then show ?thesis
    using failed view_add_then_fail [OF i l failed(2,3,4), of m] by (simp add: fail_inv)
next
  case (opened g p)
  have v: "view g = view (add_assoc c now h)" "client_key (length (objs h)) g = addr_key c" "hub_max g = hub_max h"
    by (subst opened(2), simp add: client_key_def add_assoc_nth)+
  have "view h (next_id h) = None" using next_id_fresh [OF hub_invD(1) [OF i] l] by (simp add: view_eq_None)
  moreover have "length (by_id g) \<le> hub_max h"
    using hub_shapeD(11) [OF hub_invD(1) [OF opened(3)]] v(3) by simp
  moreover have "parse_open_assoc p = Inr \<lparr>as_id = next_id h, as_client_addr = addr_key c\<rparr>"
    by (rule open_assoc_rt [OF opened(5)])
  moreover have "tx (hub_stream g) = tx (hub_stream h) @ frame_bytes TypeOpenAssoc p"
    by (rule write_frame_Inr(2) [OF opened(6)])
  ultimately show ?thesis
    using opened(1,3,4) v add_assoc_inv(3) [OF i l opened(7,8,9), of now] by auto
qed

theorem udp_ensure_outcomes_witness:
  "case ensure_start example_client 0 example_hub of
     (Inl e, g) \<Rightarrow> hub_reg g = hub_reg example_hub | (Inr (n, fresh), g) \<Rightarrow> mapped n g"
proof -
  have "hub_inv example_hub" "ids_left example_hub"
    by (simp_all add: example_hub_def new_hub_inv) (simp add: ids_left_def new_hub_def)
  from udp_ensure_outcomes [OF this, of example_client 0] show ?thesis
    by (auto split: prod.splits sum.splits)
qed


text \<open>Open, acknowledge, and acknowledge again with an error: one session is left in the gauge.\<close>

definition example_leak :: "hub_event list" where
  "example_leak = [HEnsure example_client 0, HAck 1 True [], HAck 1 False [], HClose]"

lemma example_key: "addr_key example_client = ''10.0.0.7:53''"
  by code_simp

lemma example_open:
  obtains c where "hub_step (HEnsure example_client 0) example_hub = (add_assoc example_client 0 example_hub)\<lparr>hub_stream := c\<rparr>"
proof -
  obtain p where p: "marshal_open_assoc \<lparr>as_id = 1, as_client_addr = addr_key example_client\<rparr> = Inr p" "length p \<le> MaxPayloadSize"
    unfolding example_key by (simp add: marshal_open_assoc_def MaxPayloadSize_def put_u32_def)
  obtain c where "write_frame TypeOpenAssoc p (mk_conn []) = (Inr (), c)"
    using write_frame_ok [OF p(2), of "mk_conn []" TypeOpenAssoc] by auto
  then have "hub_step (HEnsure example_client 0) example_hub = (add_assoc example_client 0 example_hub)\<lparr>hub_stream := c\<rparr>"
    using p(1) by (simp add: ensure_start_def hub_write_def example_hub_def new_hub_def add_assoc_def)
  then show ?thesis by (rule that)
qed


text \<open>
UDP traffic is not mixed up. An id belongs to one client for the life of the hub: whatever happens in between, an association that is found under it later has the same client. A datagram of the Agent is written to that client only, with the payload unchanged, and to nobody if the id is not in the table; and a client's datagram goes to the Agent as exactly one frame that carries the id of the client's own association.
\<close>

theorem udp_traffic_isolated:
  assumes i: "hub_inv h" and l: "ids_left g" and g: "g = run_events hub_step es h"
    and a: "view h x = Some a" and b: "view g x = Some b"
  shows "ua_client b = ua_client a \<and>
     hub_out (deliver x p now g) = hub_out g @ [(ua_client a, p)] \<and>
     (view g y = None \<longrightarrow> deliver y p now g = g) \<and>
     (\<forall>n g'. map_of (by_addr g) (addr_key (ua_client a)) = Some n \<and> forward_on n q now g = (Inr (), g') \<longrightarrow>
        client_key n g = addr_key (ua_client a) \<and>
        (\<exists>d. parse_datagram d = Inr \<lparr>dg_id = ua_id (objs g ! n), dg_payload = q\<rparr> \<and>
             tx (hub_stream g') = tx (hub_stream g) @ frame_bytes TypeDatagram d))"
proof (intro conjI)
  have gi: "hub_inv g" using hub_run_inv [OF i] l g by blast
  obtain n m where n: "map_of (by_id h) x = Some n" "objs h ! n = a" and m: "map_of (by_id g) x = Some m" "objs g ! m = b"
    using a b by (auto simp: view_def)
  obtain new where new: "idents g = idents h @ new" using idents_run [of es h] g by blast
  note sh = hub_shapeD(3,4) [OF hub_invD(1) [OF i] n(1)] and sg = hub_shapeD(3,4) [OF hub_invD(1) [OF gi] m(1)]
  have len: "length (objs h) \<le> length (objs g)" using run_grows g by simp
  have "n = m"
  proof (rule id_inj)
    show "n < 4294967295" "m < 4294967295" using sh(1) sg(1) len l by (simp_all add: ids_left_def)
    show "(of_nat (n + 1) :: 32 word) = of_nat (m + 1)"
      using hub_shapeD(9) [OF hub_invD(1) [OF i] sh(1)] hub_shapeD(9) [OF hub_invD(1) [OF gi] sg(1)] sh(2) sg(2) by metis
  qed
  moreover have "idents g ! n = idents h ! n" using new sh(1) by (simp add: nth_append idents_def)
  ultimately show c: "ua_client b = ua_client a" using sh(1) sg(1) n(2) m(2) by (simp add: idents_def)
  show "hub_out (deliver x p now g) = hub_out g @ [(ua_client a, p)]" using b c by (simp add: deliver_out)
  show "view g y = None \<longrightarrow> deliver y p now g = g" by (simp add: deliver_def view_eq_None)
  show "\<forall>n g'. map_of (by_addr g) (addr_key (ua_client a)) = Some n \<and> forward_on n q now g = (Inr (), g') \<longrightarrow>
        client_key n g = addr_key (ua_client a) \<and>
        (\<exists>d. parse_datagram d = Inr \<lparr>dg_id = ua_id (objs g ! n), dg_payload = q\<rparr> \<and>
             tx (hub_stream g') = tx (hub_stream g) @ frame_bytes TypeDatagram d)"
  proof (intro allI impI, elim conjE)
    fix n g'
    assume k: "map_of (by_addr g) (addr_key (ua_client a)) = Some n" and f: "forward_on n q now g = (Inr (), g')"
    obtain d where d: "marshal_datagram \<lparr>dg_id = ua_id (objs g ! n), dg_payload = q\<rparr> = Inr d"
      and w: "hub_write TypeDatagram d (upd_obj n (\<lambda>a. a\<lparr>ua_last := now\<rparr>) g) = (Inr (), g')"
      using f by (auto simp: forward_on_def Let_def split: sum.splits)
    then obtain u where "write_frame TypeDatagram d (hub_stream g) = (Inr u, hub_stream g')"
      by (auto simp: hub_write_def split: if_splits sum.splits prod.splits)
    then show "client_key n g = addr_key (ua_client a) \<and>
        (\<exists>d. parse_datagram d = Inr \<lparr>dg_id = ua_id (objs g ! n), dg_payload = q\<rparr> \<and>
             tx (hub_stream g') = tx (hub_stream g) @ frame_bytes TypeDatagram d)"
      using hub_shapeD(7) [OF hub_invD(1) [OF gi] k] datagram_rt [OF d] write_frame_Inr(2) by blast
  qed
qed

lemma example_hub_open:
  "hub_inv (add_assoc example_client 0 example_hub)"
  "view (add_assoc example_client 0 example_hub) 1 =
     Some \<lparr>ua_id = 1, ua_client = example_client, ua_last = 0, ua_ready = False, ua_err = None\<rparr>"
proof -
  have i: "hub_inv example_hub" by (simp add: example_hub_def new_hub_inv)
  show "hub_inv (add_assoc example_client 0 example_hub)"
    by (rule add_assoc_inv(1) [OF i]) (simp_all add: example_hub_def new_hub_def ids_left_def)
qed (simp add: example_hub_def new_hub_def add_assoc_def view_def)

theorem udp_traffic_isolated_witness:
  "hub_out (deliver 1 [7] 5 (add_assoc example_client 0 example_hub)) = [(example_client, [7])]"
proof -
  have "ids_left (add_assoc example_client 0 example_hub)" "hub_out (add_assoc example_client 0 example_hub) = []"
    by (simp_all add: ids_left_def example_hub_def new_hub_def)
  then show ?thesis
    using udp_traffic_isolated [OF example_hub_open(1) _ _ example_hub_open(2) example_hub_open(2), of "[]" "[7]" 5 2 "[]"]
    by simp
qed

text \<open>
Closing a hub leaves nobody waiting. After \<open>close\<close> every association ever opened is ready, so no opener waits any longer; those that were waiting get an error and are told so; both maps are empty, the stream is closed, nothing can be written or opened any more, and all live associations are counted out of the session gauge.
\<close>

theorem udp_close_releases:
  assumes i: "hub_inv h" and o: "\<not> hub_closed h" and g: "int (live_count h) \<le> active_sessions (hub_reg h)"
  shows "list_all ua_ready (objs (close_hub h)) \<and>
     list_all2 (\<lambda>a b. if ua_ready a then b = a else ua_err b = Some ''hub closed'') (objs h) (objs (close_hub h)) \<and>
     by_id (close_hub h) = [] \<and> by_addr (close_hub h) = [] \<and>
     closed (hub_stream (close_hub h)) \<and>
     fst (ensure_start c now (close_hub h)) = Inl HubClosed \<and> fst (hub_write t p (close_hub h)) = Inl HubClosed \<and>
     active_sessions (hub_reg (close_hub h)) = active_sessions (hub_reg h) - int (live_count h) \<and>
     close_hub (close_hub h) = close_hub h"
proof -
  have rd: "ua_ready (objs (close_hub h) ! n) \<and>
      (if ua_ready (objs h ! n) then objs (close_hub h) ! n = objs h ! n else ua_err (objs (close_hub h) ! n) = Some ''hub closed'')"
    if n: "n < length (objs h)" for n
  proof (cases "ua_ready (objs h ! n)")
    case False
    then show ?thesis
      using close_objs [OF n] o mapped_in_snd [OF hub_flagsD(2) [OF hub_invD(2) [OF i] n False]] by simp
  qed (use close_objs [OF n] in simp)
  have "active_sessions (hub_reg (close_hub h)) = active_sessions (hub_reg h) - int (live_count h)"
    using o g active_add [of "hub_reg h" "- int (live_count h)"] by (simp add: close_hub_def Let_def live_count_filter)
  then show ?thesis
    using rd close_by_id [OF i] close_by_addr [OF i] o
    by (simp add: list_all_length list_all2_conv_all_nth ensure_start_def hub_write_def)
       (simp add: close_hub_def Let_def)
qed

theorem udp_close_releases_witness:
  "list_all ua_ready (objs (close_hub (add_assoc example_client 0 example_hub)))"
proof -
  have "\<not> hub_closed (add_assoc example_client 0 example_hub)"
    "int (live_count (add_assoc example_client 0 example_hub)) \<le> active_sessions (hub_reg (add_assoc example_client 0 example_hub))"
    by (simp_all add: example_hub_def new_hub_def live_count_filter add_assoc_def is_live_def new_registry_def)
  from udp_close_releases [OF example_hub_open(1) this] show ?thesis by blast
qed

end
