(* ===== verification/AgentUdp.thy ===== *)
theory AgentUdp
  imports Dest UdpHub
begin

text \<open>
  The Agent side of a UDP tunnel, \<open>internal/agent/udp.go\<close> and \<open>internal/proxy/udp.go\<close>: one
  stream to Edge with one connected local socket per association.

  Sockets are numbered as they are dialled; \<open>us_open\<close> are the open ones and \<open>us_sent\<close> is what
  was written to them. The read loop, the readers of the sockets and the reaper take the lock for
  one step each, and these are the operations here; \<open>openAssoc\<close> runs only in the read loop, and
  \<open>closeAll\<close> only after it. Dialling a socket is an argument, and so is whether a write to a
  socket succeeds.
\<close>

record local_assoc =
  la_sock :: nat
  la_last :: int

record udp_stream =
  us_assocs :: "(32 word \<times> local_assoc) list"
  us_closed :: bool
  us_stream :: conn
  us_max :: nat
  us_idle :: int
  us_local :: string
  us_private :: bool
  us_open :: "nat list"
  us_next :: nat
  us_sent :: "(nat \<times> bytes) list"

definition new_stream :: "conn \<Rightarrow> string \<Rightarrow> bool \<Rightarrow> nat \<Rightarrow> int \<Rightarrow> udp_stream" where
  "new_stream c target private m idle =
     \<lparr>us_assocs = [], us_closed = False, us_stream = c, us_max = m, us_idle = idle, us_local = target,
      us_private = private, us_open = [], us_next = 0, us_sent = []\<rparr>"

section \<open>Operations\<close>

definition MaxUDPPayload :: nat where
  "MaxUDPPayload = MaxDatagramPayload"

text \<open>\<open>DialUDPLocal\<close>: the check comes first; \<open>dial\<close> is whether resolving and dialling work.\<close>

definition dial_udp_local :: "(string \<Rightarrow> ip list option) \<Rightarrow> (string \<Rightarrow> bool) \<Rightarrow> string \<Rightarrow> bool \<Rightarrow> bool" where
  "dial_udp_local lookup dial target private =
     (case validate_local lookup target private of Some e \<Rightarrow> False | None \<Rightarrow> dial target)"

definition us_write :: "byte \<Rightarrow> bytes \<Rightarrow> udp_stream \<Rightarrow> bool \<times> udp_stream" where
  "us_write typ p h =
     (if us_closed h then (False, h)
      else case write_frame typ p (us_stream h) of
        (Inl e, c) \<Rightarrow> (False, h\<lparr>us_stream := c\<rparr>)
      | (Inr u, c) \<Rightarrow> (True, h\<lparr>us_stream := c\<rparr>))"

definition us_ack :: "32 word \<Rightarrow> bool \<Rightarrow> string \<Rightarrow> udp_stream \<Rightarrow> bool \<times> udp_stream" where
  "us_ack i ok msg h =
     (case marshal_open_assoc_ack \<lparr>ak_id = i, ak_ok = ok, ak_message = msg\<rparr> of
        Inl e \<Rightarrow> (False, h)
      | Inr p \<Rightarrow> us_write TypeOpenAssocAck p h)"

definition us_close :: "32 word \<Rightarrow> bool \<Rightarrow> udp_stream \<Rightarrow> udp_stream" where
  "us_close i notify h =
     (case map_of (us_assocs h) i of
        None \<Rightarrow> h
      | Some a \<Rightarrow>
          let h1 = h\<lparr>us_assocs := AList.delete i (us_assocs h), us_open := removeAll (la_sock a) (us_open h)\<rparr> in
          if \<not> notify then h1
          else (case marshal_close_assoc \<lparr>ca_id = i\<rparr> of Inl e \<Rightarrow> h1 | Inr p \<Rightarrow> snd (us_write TypeCloseAssoc p h1)))"

definition us_add :: "32 word \<Rightarrow> int \<Rightarrow> udp_stream \<Rightarrow> udp_stream" where
  "us_add i now h =
     h\<lparr>us_assocs := AList.update i \<lparr>la_sock = us_next h, la_last = now\<rparr> (us_assocs h),
       us_open := us_next h # us_open h, us_next := us_next h + 1\<rparr>"

definition us_openassoc :: "(string \<Rightarrow> ip list option) \<Rightarrow> (string \<Rightarrow> bool) \<Rightarrow> int \<Rightarrow> open_assoc \<Rightarrow> udp_stream \<Rightarrow> udp_stream" where
  "us_openassoc lookup dial now oa h =
     (let i = as_id oa in
      if us_closed h then snd (us_ack i False ''hub closed'' h)
      else if map_of (us_assocs h) i \<noteq> None then snd (us_ack i True ''ok'' h)
      else if us_max h \<le> length (us_assocs h) then snd (us_ack i False ''max associations'' h)
      else if \<not> dial_udp_local lookup dial (us_local h) (us_private h) then snd (us_ack i False ''dial failed'' h)
      else case us_ack i True ''ok'' (us_add i now h) of
        (False, h1) \<Rightarrow> us_close i False h1
      | (True, h1) \<Rightarrow> h1)"

definition us_touch :: "32 word \<Rightarrow> int \<Rightarrow> udp_stream \<Rightarrow> udp_stream" where
  "us_touch i now h =
     (case map_of (us_assocs h) i of
        None \<Rightarrow> h
      | Some a \<Rightarrow> h\<lparr>us_assocs := AList.update i (a\<lparr>la_last := now\<rparr>) (us_assocs h)\<rparr>)"

definition write_local :: "bool \<Rightarrow> int \<Rightarrow> 32 word \<Rightarrow> bytes \<Rightarrow> udp_stream \<Rightarrow> udp_stream" where
  "write_local ok now i payload h =
     (case map_of (us_assocs h) i of
        None \<Rightarrow> h
      | Some a \<Rightarrow>
          let h1 = us_touch i now h in
          if \<not> ok then us_close i True h1 else h1\<lparr>us_sent := us_sent h1 @ [(la_sock a, payload)]\<rparr>)"

text \<open>One turn of \<open>readLocal\<close>: a packet, cut off at the buffer size, or an error other than a
  timeout (\<open>None\<close>). The reader of an association that is gone has stopped.\<close>

definition read_local :: "int \<Rightarrow> 32 word \<Rightarrow> bytes option \<Rightarrow> udp_stream \<Rightarrow> udp_stream" where
  "read_local now i pkt h =
     (if us_closed h \<or> map_of (us_assocs h) i = None then h
      else case pkt of
        None \<Rightarrow> us_close i True h
      | Some b \<Rightarrow>
          let payload = take MaxUDPPayload b in
          if payload = [] then h
          else let h1 = us_touch i now h in
            (case marshal_datagram \<lparr>dg_id = i, dg_payload = payload\<rparr> of
               Inl e \<Rightarrow> h1
             | Inr d \<Rightarrow>
                 (case us_write TypeDatagram d h1 of (False, h2) \<Rightarrow> us_close i False h2 | (True, h2) \<Rightarrow> h2)))"

definition us_reap :: "int \<Rightarrow> udp_stream \<Rightarrow> udp_stream" where
  "us_reap now h =
     fold (\<lambda>i. us_close i True) (map fst (filter (\<lambda>(i, a). la_last a < now - us_idle h) (us_assocs h))) h"

definition close_all :: "udp_stream \<Rightarrow> udp_stream" where
  "close_all h =
     (if us_closed h then h
      else fold (\<lambda>i. us_close i False) (map fst (us_assocs h)) (h\<lparr>us_closed := True\<rparr>))"

text \<open>One turn of the read loop; when reading fails the loop ends, and with it the deferred
  \<open>closeAll\<close> and the close of the stream run.\<close>

definition us_read :: "(string \<Rightarrow> ip list option) \<Rightarrow> (string \<Rightarrow> bool) \<Rightarrow> bool \<Rightarrow> int \<Rightarrow> udp_stream \<Rightarrow> udp_stream" where
  "us_read lookup dial ok now h =
     (case read_frame (us_stream h) of
        (Inl e, c) \<Rightarrow> let h1 = close_all (h\<lparr>us_stream := c\<rparr>) in h1\<lparr>us_stream := close_conn (us_stream h1)\<rparr>
      | (Inr f, c) \<Rightarrow>
          let h1 = h\<lparr>us_stream := c\<rparr> in
          if fr_type f = TypeOpenAssoc then
            (case parse_open_assoc (fr_payload f) of Inl _ \<Rightarrow> h1 | Inr oa \<Rightarrow> us_openassoc lookup dial now oa h1)
          else if fr_type f = TypeDatagram then
            (case parse_datagram (fr_payload f) of Inl _ \<Rightarrow> h1 | Inr d \<Rightarrow> write_local ok now (dg_id d) (dg_payload d) h1)
          else if fr_type f = TypeCloseAssoc then
            (case parse_close_assoc (fr_payload f) of Inl _ \<Rightarrow> h1 | Inr k \<Rightarrow> us_close (ca_id k) False h1)
          else h1)"

text \<open>\<open>handleUDPStream\<close> up to the loops: the stream object, if the target is accepted and the
  acknowledgement written.\<close>

definition handle_udp_stream ::
  "config \<Rightarrow> (string \<Rightarrow> ip list option) \<Rightarrow> (dest_error \<Rightarrow> string) \<Rightarrow> open_meta \<Rightarrow> conn \<Rightarrow> udp_stream option \<times> conn" where
  "handle_udp_stream c lookup text m s =
     (case resolve_local c m of
        Inl msg \<Rightarrow> (None, close_conn (snd (ack_data False msg s)))
      | Inr target \<Rightarrow>
          (case validate_local lookup target (private_only c) of
             Some e \<Rightarrow> (None, close_conn (snd (ack_data False (text e) s)))
           | None \<Rightarrow>
               (case ack_data True ''ok'' s of
                  (Inl _, s1) \<Rightarrow> (None, close_conn s1)
                | (Inr _, s1) \<Rightarrow>
                    (Some (new_stream s1 target (private_only c) (nat (max_sessions_or_default c)) (udp_idle_or_default c)), s1))))"

section \<open>Events\<close>

datatype us_event =
    URead "string \<Rightarrow> ip list option" "string \<Rightarrow> bool" bool int
  | ULocal int "32 word" "bytes option"
  | UReap int
  | UCloseAll

fun us_step :: "us_event \<Rightarrow> udp_stream \<Rightarrow> udp_stream" where
  "us_step (URead lookup dial ok now) h = (if us_closed h then h else us_read lookup dial ok now h)"
| "us_step (ULocal now i pkt) h = read_local now i pkt h"
| "us_step (UReap now) h = us_reap now h"
| "us_step UCloseAll h = close_all h"

section \<open>One socket per association\<close>

abbreviation socks :: "udp_stream \<Rightarrow> nat list" where
  "socks h \<equiv> map (la_sock \<circ> snd) (us_assocs h)"

definition us_base :: "udp_stream \<Rightarrow> bool" where
  "us_base h \<longleftrightarrow>
     distinct (map fst (us_assocs h)) \<and> distinct (socks h) \<and> set (us_open h) = set (socks h) \<and>
     distinct (us_open h) \<and> (\<forall>s \<in> set (us_open h). s < us_next h) \<and> length (us_assocs h) \<le> us_max h"

definition us_inv :: "udp_stream \<Rightarrow> bool" where
  "us_inv h \<longleftrightarrow> us_base h \<and> (us_closed h \<longrightarrow> us_assocs h = [])"

lemma us_write_frame [simp]:
  "us_assocs (snd (us_write t p h)) = us_assocs h" "us_closed (snd (us_write t p h)) = us_closed h"
  "us_open (snd (us_write t p h)) = us_open h" "us_next (snd (us_write t p h)) = us_next h"
  "us_max (snd (us_write t p h)) = us_max h" "us_sent (snd (us_write t p h)) = us_sent h"
  "us_idle (snd (us_write t p h)) = us_idle h" "us_local (snd (us_write t p h)) = us_local h"
  "us_private (snd (us_write t p h)) = us_private h"
  by (simp_all add: us_write_def split: sum.splits prod.splits)

lemma us_ack_frame [simp]:
  "us_assocs (snd (us_ack i ok m h)) = us_assocs h" "us_closed (snd (us_ack i ok m h)) = us_closed h"
  "us_open (snd (us_ack i ok m h)) = us_open h" "us_next (snd (us_ack i ok m h)) = us_next h"
  "us_max (snd (us_ack i ok m h)) = us_max h" "us_sent (snd (us_ack i ok m h)) = us_sent h"
  by (simp_all add: us_ack_def split: sum.splits)

lemma us_base_cong:
  "us_assocs h = us_assocs g \<Longrightarrow> us_open h = us_open g \<Longrightarrow> us_next h = us_next g \<Longrightarrow> us_max h = us_max g \<Longrightarrow>
   us_base h = us_base g"
  by (simp add: us_base_def)

lemma us_base_frame [simp]:
  "us_base (snd (us_write t p h)) = us_base h" "us_base (snd (us_ack i ok m h)) = us_base h"
  "us_base (h\<lparr>us_stream := c\<rparr>) = us_base h" "us_base (h\<lparr>us_closed := b\<rparr>) = us_base h"
  "us_base (h\<lparr>us_sent := xs\<rparr>) = us_base h"
  by (rule us_base_cong; simp)+

lemma us_inv_frame [simp]:
  "us_inv (snd (us_write t p h)) = us_inv h" "us_inv (snd (us_ack i ok m h)) = us_inv h"
  "us_inv (h\<lparr>us_stream := c\<rparr>) = us_inv h" "us_inv (h\<lparr>us_sent := xs\<rparr>) = us_inv h"
  by (simp_all add: us_inv_def)

lemma distinct_value_unique:
  assumes "distinct (map f xs)" "x \<in> set xs" "y \<in> set xs" "f x = f y"
  shows "x = y"
  using assms by (simp add: distinct_map inj_on_def)

text \<open>Taking one association and its socket out.\<close>

definition us_drop :: "32 word \<Rightarrow> local_assoc \<Rightarrow> udp_stream \<Rightarrow> udp_stream" where
  "us_drop i a h = h\<lparr>us_assocs := AList.delete i (us_assocs h), us_open := removeAll (la_sock a) (us_open h)\<rparr>"

lemma us_drop_base:
  assumes b: "us_base h" and a: "map_of (us_assocs h) i = Some a"
  shows "us_base (us_drop i a h)"
proof -
  let ?A = "us_assocs h"
  have d: "distinct (map fst ?A)" "distinct (socks h)" using b by (auto simp: us_base_def)
  have m: "(i, a) \<in> set ?A" using a by (rule map_of_SomeD)
  have "set (map (la_sock \<circ> snd) (AList.delete i ?A)) = set (socks h) - {la_sock a}"
  proof (intro set_eqI iffI)
    fix s
    assume "s \<in> set (map (la_sock \<circ> snd) (AList.delete i ?A))"
    then obtain j c where j: "(j, c) \<in> set ?A" "j \<noteq> i" "s = la_sock c" by (auto simp: AList.delete_eq)
    then have "s \<noteq> la_sock a" using distinct_value_unique [OF d(2) j(1) m] by auto
    then show "s \<in> set (socks h) - {la_sock a}" using j by force
  next
    fix s
    assume "s \<in> set (socks h) - {la_sock a}"
    then obtain j c where j: "(j, c) \<in> set ?A" "s = la_sock c" "s \<noteq> la_sock a" by auto
    then have "j \<noteq> i" using a map_of_mem [OF d(1), of j c] by auto
    then show "s \<in> set (map (la_sock \<circ> snd) (AList.delete i ?A))" using j by (force simp: AList.delete_eq)
  qed
  moreover have "distinct (map (la_sock \<circ> snd) (AList.delete i ?A))"
    using d(2) by (simp add: AList.delete_eq distinct_map_filter)
  ultimately show ?thesis
    using b length_delete_le [of i ?A] by (auto simp: us_base_def us_drop_def distinct_keys_delete distinct_removeAll)
qed

lemma us_close_drop:
  "map_of (us_assocs h) i = Some a \<Longrightarrow>
   us_close i notify h = (if \<not> notify then us_drop i a h
     else (case marshal_close_assoc \<lparr>ca_id = i\<rparr> of Inl e \<Rightarrow> us_drop i a h | Inr p \<Rightarrow> snd (us_write TypeCloseAssoc p (us_drop i a h))))"
  by (simp add: us_close_def us_drop_def [symmetric] Let_def)

lemma us_close_none [simp]: "map_of (us_assocs h) i = None \<Longrightarrow> us_close i notify h = h"
  by (simp add: us_close_def)

lemma us_close_base: "us_base h \<Longrightarrow> us_base (us_close i notify h)"
  by (cases "map_of (us_assocs h) i") (auto simp: us_close_drop us_drop_base split: sum.split)

lemma us_close_assocs [simp]: "map_of (us_assocs (us_close i notify h)) = (map_of (us_assocs h))(i := None)"
  by (cases "map_of (us_assocs h) i") (auto simp: us_close_drop us_drop_def fun_eq_iff split: sum.split)

lemma us_close_keep [simp]:
  "us_closed (us_close i notify h) = us_closed h" "us_next (us_close i notify h) = us_next h"
  "us_max (us_close i notify h) = us_max h" "us_sent (us_close i notify h) = us_sent h"
  by (simp_all add: us_close_def Let_def split: option.split sum.split)

lemma us_close_all_base: "us_base h \<Longrightarrow> us_base (fold (\<lambda>i. us_close i notify) is h)"
  by (induction "is" arbitrary: h) (auto intro: us_close_base)

lemma us_close_all_assocs:
  "map_of (us_assocs (fold (\<lambda>i. us_close i notify) is h)) = (\<lambda>i. if i \<in> set is then None else map_of (us_assocs h) i)"
  by (induction "is" arbitrary: h) (auto simp: fun_eq_iff)

lemma us_close_all_closed [simp]: "us_closed (fold (\<lambda>i. us_close i notify) is h) = us_closed h"
  by (induction "is" arbitrary: h) auto

lemma map_of_None_Nil:
  assumes "\<And>i. map_of m i = None"
  shows "m = []"
proof (cases m)
  case (Cons x xs)
  then show ?thesis using assms [of "fst x"] by (cases x) auto
qed simp

lemma us_close_inv: "us_inv h \<Longrightarrow> us_inv (us_close i notify h)"
  by (auto simp: us_inv_def us_close_base intro!: map_of_None_Nil)

lemma us_close_all_inv: "us_inv h \<Longrightarrow> us_inv (fold (\<lambda>i. us_close i notify) is h)"
  by (induction "is" arbitrary: h) (auto intro: us_close_inv)

lemma close_all_inv: "us_inv h \<Longrightarrow> us_inv (close_all h)"
  by (auto simp: us_inv_def close_all_def us_close_all_base us_close_all_assocs map_of_eq_None_iff intro!: map_of_None_Nil)

lemma update_touch:
  assumes "map_of m i = Some a" "f b = f a"
  shows "map (f \<circ> snd) (AList.update i b m) = map (f \<circ> snd) m" and "map fst (AList.update i b m) = map fst m"
  using assms by (induction m) (auto split: if_splits)

lemma us_touch_base: "us_base h \<Longrightarrow> us_base (us_touch i now h)"
proof (cases "map_of (us_assocs h) i")
  case (Some a)
  note u = update_touch [OF Some, of la_sock "a\<lparr>la_last := now\<rparr>", simplified]
  have l: "length (AList.update i (a\<lparr>la_last := now\<rparr>) (us_assocs h)) = length (us_assocs h)"
    using u(2) by (metis length_map)
  assume "us_base h"
  then show ?thesis
    using u Some l by (simp add: us_base_def us_touch_def)
qed (simp add: us_touch_def)

lemma us_touch_keep [simp]:
  "us_closed (us_touch i now h) = us_closed h" "us_next (us_touch i now h) = us_next h"
  "us_max (us_touch i now h) = us_max h" "us_sent (us_touch i now h) = us_sent h"
  "us_stream (us_touch i now h) = us_stream h" "us_open (us_touch i now h) = us_open h"
  by (simp_all add: us_touch_def split: option.split)

lemma us_touch_inv: "us_inv h \<Longrightarrow> us_inv (us_touch i now h)"
  by (auto simp: us_inv_def us_touch_base) (simp add: us_touch_def)

lemma us_add_base:
  assumes b: "us_base h" and n: "map_of (us_assocs h) i = None" and l: "length (us_assocs h) < us_max h"
  shows "us_base (us_add i now h)"
proof -
  have "us_next h \<notin> set (us_open h)" using b by (auto simp: us_base_def)
  then show ?thesis
    using assms by (auto simp: us_base_def us_add_def update_new map_of_eq_None_iff less_Suc_eq)
qed

lemma us_add_keep [simp]:
  "us_closed (us_add i now h) = us_closed h" "us_max (us_add i now h) = us_max h"
  "us_sent (us_add i now h) = us_sent h" "us_stream (us_add i now h) = us_stream h"
  "map_of (us_assocs (us_add i now h)) = (map_of (us_assocs h))(i \<mapsto> \<lparr>la_sock = us_next h, la_last = now\<rparr>)"
  by (simp_all add: us_add_def)

lemma us_add_inv:
  "us_inv h \<Longrightarrow> \<not> us_closed h \<Longrightarrow> map_of (us_assocs h) i = None \<Longrightarrow> length (us_assocs h) < us_max h \<Longrightarrow> us_inv (us_add i now h)"
  by (simp add: us_inv_def us_add_base)

lemma us_openassoc_inv:
  assumes i: "us_inv h"
  shows "us_inv (us_openassoc lookup dial now oa h)"
proof -
  let ?i = "as_id oa"
  have "us_inv (case us_ack ?i True ''ok'' (us_add ?i now h) of (False, h1) \<Rightarrow> us_close ?i False h1 | (True, h1) \<Rightarrow> h1)"
    if "us_inv (us_add ?i now h)"
  proof -
    have "us_inv (snd (us_ack ?i True ''ok'' (us_add ?i now h)))" using that by simp
    then show ?thesis by (auto intro: us_close_inv split: prod.split bool.split simp del: us_inv_frame)
  qed
  then show ?thesis using i us_add_inv [OF i, of ?i now] by (simp add: us_openassoc_def Let_def)
qed

lemma write_local_inv: "us_inv h \<Longrightarrow> us_inv (write_local ok now i p h)"
  by (simp add: write_local_def Let_def us_touch_inv us_close_inv split: option.split)

lemma read_local_inv:
  assumes i: "us_inv h"
  shows "us_inv (read_local now i pkt h)"
proof -
  note t = us_touch_inv [OF i, of i now]
  have "us_inv (case us_write TypeDatagram d (us_touch i now h) of (False, h2) \<Rightarrow> us_close i False h2 | (True, h2) \<Rightarrow> h2)" for d
  proof -
    have "us_inv (snd (us_write TypeDatagram d (us_touch i now h)))" using t by simp
    then show ?thesis by (auto intro: us_close_inv split: prod.split bool.split simp del: us_inv_frame)
  qed
  then show ?thesis
    using i t by (auto simp: read_local_def Let_def us_close_inv split: option.split sum.split)
qed

lemma us_reap_inv: "us_inv h \<Longrightarrow> us_inv (us_reap now h)"
  unfolding us_reap_def by (rule us_close_all_inv)

lemma us_read_inv:
  assumes "us_inv h"
  shows "us_inv (us_read lookup dial ok now h)"
proof -
  have i: "us_inv (h\<lparr>us_stream := c\<rparr>)" for c using assms by simp
  show ?thesis
    using i close_all_inv [OF i] us_openassoc_inv [OF i] write_local_inv [OF i] us_close_inv [OF i]
    by (simp add: us_read_def Let_def split: sum.split prod.split)
qed

interpretation agent_udp: machine us_step "\<lambda>e. True" us_inv
proof
  fix e h
  assume "us_inv h"
  then show "us_inv (us_step e h)"
    by (cases e) (simp_all add: us_read_inv read_local_inv us_reap_inv close_all_inv)
qed

lemma new_stream_inv: "us_inv (new_stream c target private m idle)"
  by (simp add: us_inv_def us_base_def new_stream_def)

text \<open>
C27: local sockets are neither shared nor leaked. After any sequence of frames, local packets, reaper runs and closes on a new Agent stream, every association has a local socket of its own, the open sockets are exactly those of the associations, there are never more than the configured limit, and a closed stream has no socket left.
\<close>

theorem agent_udp_sockets:
  assumes "h = run_events us_step es (new_stream c target private m idle)"
  shows "distinct (map fst (us_assocs h)) \<and> distinct (map (la_sock \<circ> snd) (us_assocs h)) \<and> distinct (us_open h) \<and>
     set (us_open h) = la_sock ` snd ` set (us_assocs h) \<and>
     length (us_assocs h) \<le> us_max h \<and> (us_closed h \<longrightarrow> us_open h = [])"
proof -
  have "us_inv h" using agent_udp.run_inv [OF _ new_stream_inv, of es] assms by (simp add: list_all_iff)
  then show ?thesis by (auto simp: us_inv_def us_base_def image_image comp_def)
qed

theorem agent_udp_sockets_witness:
  "us_open (run_events us_step [UReap 5, UCloseAll] (new_stream (mk_conn []) ''10.0.0.7:53'' True 4 60)) = []"
proof -
  let ?h = "run_events us_step [UReap 5, UCloseAll] (new_stream (mk_conn []) ''10.0.0.7:53'' True 4 60)"
  have "us_closed ?h" by (simp add: us_reap_def close_all_def new_stream_def)
  then show ?thesis using agent_udp_sockets [of ?h, OF refl] by blast
qed

section \<open>Edge and Agent together\<close>

lemma us_write_ok:
  assumes "\<not> us_closed h" "length p \<le> MaxPayloadSize" "tx_room (us_stream h) = None"
  shows "\<exists>c. us_write t p h = (True, h\<lparr>us_stream := c\<rparr>) \<and> tx c = tx (us_stream h) @ frame_bytes t p \<and>
     rx c = rx (us_stream h)"
proof -
  obtain c where "write_frame t p (us_stream h) = (Inr (), c)" "tx c = tx (us_stream h) @ frame_bytes t p" "rx c = rx (us_stream h)"
    using write_frame_ok [OF assms(2), of "us_stream h" t] assms(3) by (auto simp: can_write_def)
  then show ?thesis using assms(1) by (auto simp: us_write_def)
qed

lemma ack_payload:
  "marshal_open_assoc_ack \<lparr>ak_id = i, ak_ok = b, ak_message = ''ok''\<rparr> = Inr (be32 i @ ok_byte b # string_bytes ''ok'')"
  by (simp add: marshal_open_assoc_ack_def put_u32_def)

text \<open>The Agent's answer to an OpenAssoc frame that it accepts.\<close>

lemma agent_accepts:
  assumes h: "us_assocs h = []" "0 < us_max h" "\<not> us_closed h" "tx_room (us_stream h) = None"
    and d: "dial_udp_local lookup dial (us_local h) (us_private h)"
    and r: "rx (us_stream h) = frame_bytes TypeOpenAssoc p @ rest" "length p \<le> MaxPayloadSize" "parse_open_assoc p = Inr oa"
  shows "\<exists>c. us_read lookup dial ok now h = (us_add (as_id oa) now h)\<lparr>us_stream := c\<rparr> \<and>
     tx c = tx (us_stream h) @ frame_bytes TypeOpenAssocAck (be32 (as_id oa) @ ok_byte True # string_bytes ''ok'') \<and>
     rx c = rest"
proof -
  let ?c = "(us_stream h)\<lparr>rx := rest\<rparr>" and ?q = "be32 (as_id oa) @ ok_byte True # string_bytes ''ok''"
  let ?g = "us_add (as_id oa) now (h\<lparr>us_stream := ?c\<rparr>)"
  have f: "read_frame (us_stream h) = (Inr \<lparr>fr_type = TypeOpenAssoc, fr_flags = 0, fr_payload = p\<rparr>, ?c)"
    by (rule read_frame_bytes [OF r(2,1)])
  have "\<exists>c. us_write TypeOpenAssocAck ?q ?g = (True, ?g\<lparr>us_stream := c\<rparr>) \<and>
     tx c = tx (us_stream ?g) @ frame_bytes TypeOpenAssocAck ?q \<and> rx c = rx (us_stream ?g)"
    by (rule us_write_ok) (use h in \<open>simp_all add: MaxPayloadSize_def\<close>)
  then obtain c where c: "us_write TypeOpenAssocAck ?q ?g = (True, ?g\<lparr>us_stream := c\<rparr>)"
    "tx c = tx (us_stream h) @ frame_bytes TypeOpenAssocAck ?q" "rx c = rest" by auto
  have "us_read lookup dial ok now h = us_openassoc lookup dial now oa (h\<lparr>us_stream := ?c\<rparr>)"
    using f r(3) by (simp add: us_read_def)
  also have "\<dots> = ?g\<lparr>us_stream := c\<rparr>"
    using h d c(1) by (simp add: us_openassoc_def us_ack_def ack_payload)
  also have "\<dots> = (us_add (as_id oa) now h)\<lparr>us_stream := c\<rparr>" by (simp add: us_add_def)
  finally show ?thesis using c by blast
qed

text \<open>One packet to the service and one back: Edge opens an association for a client, the Agent
  answers, Edge forwards \<open>p\<close>, the service replies \<open>q\<close>. Between the two ends go exactly the bytes
  written since the last turn.\<close>

definition hub_rx :: "bytes \<Rightarrow> hub \<Rightarrow> hub" where
  "hub_rx b h = h\<lparr>hub_stream := (hub_stream h)\<lparr>rx := b\<rparr>\<rparr>"

definition us_rx :: "bytes \<Rightarrow> udp_stream \<Rightarrow> udp_stream" where
  "us_rx b g = g\<lparr>us_stream := (us_stream g)\<lparr>rx := b\<rparr>\<rparr>"

definition hub_news :: "hub \<Rightarrow> hub \<Rightarrow> bytes" where
  "hub_news h h' = drop (length (tx (hub_stream h))) (tx (hub_stream h'))"

definition us_news :: "udp_stream \<Rightarrow> udp_stream \<Rightarrow> bytes" where
  "us_news g g' = drop (length (tx (us_stream g))) (tx (us_stream g'))"

definition udp_exchange ::
  "(string \<Rightarrow> ip list option) \<Rightarrow> (string \<Rightarrow> bool) \<Rightarrow> int \<Rightarrow> udp_addr \<Rightarrow> bytes \<Rightarrow> bytes \<Rightarrow> hub \<Rightarrow> udp_stream \<Rightarrow> (hub \<times> udp_stream) option" where
  "udp_exchange lookup dial now c p q h0 g0 =
     (case ensure_start c now h0 of
        (Inl e, _) \<Rightarrow> None
      | (Inr (n, _), h1) \<Rightarrow>
          let g1 = us_read lookup dial True now (us_rx (hub_news h0 h1) g0);
              h2 = read_step now (hub_rx (us_news g0 g1) h1) in
          (case assoc_result n h2 of
             Inl e \<Rightarrow> None
           | Inr _ \<Rightarrow>
               (case forward_on n p now h2 of
                  (Inl e, _) \<Rightarrow> None
                | (Inr _, h3) \<Rightarrow>
                    let g2 = us_read lookup dial True now (us_rx (hub_news h2 h3) g1);
                        g3 = read_local now (ua_id (objs h3 ! n)) (Some q) g2;
                        h4 = read_step now (hub_rx (us_news g2 g3) h3)
                    in Some (h4, g3))))"

lemma datagram_payload:
  "length p \<le> MaxDatagramPayload \<Longrightarrow> marshal_datagram \<lparr>dg_id = i, dg_payload = p\<rparr> = Inr (be32 i @ p)"
  by (simp add: marshal_datagram_def put_u32_def)

lemma read_step_frame:
  assumes "rx (hub_stream h) = frame_bytes t p" "length p \<le> MaxPayloadSize"
  shows "read_frame (hub_stream h) = (Inr \<lparr>fr_type = t, fr_flags = 0, fr_payload = p\<rparr>, (hub_stream h)\<lparr>rx := []\<rparr>)"
  using read_frame_bytes [OF assms(2), of "hub_stream h" t "[]"] assms(1) by simp

lemma datagram_length: "length p \<le> MaxDatagramPayload \<Longrightarrow> length (be32 i @ p) \<le> MaxPayloadSize"
  by (simp add: MaxDatagramPayload_def AssocIDSize_def MaxPayloadSize_def)

lemma parse_datagram_bytes: "length p \<le> MaxDatagramPayload \<Longrightarrow> parse_datagram (be32 i @ p) = Inr \<lparr>dg_id = i, dg_payload = p\<rparr>"
  using datagram_rt [OF datagram_payload] by blast

lemma hub_write_ok:
  assumes "\<not> hub_closed h" "length p \<le> MaxPayloadSize" "tx_room (hub_stream h) = None"
  shows "hub_write t p h = (Inr (), h\<lparr>hub_stream := (hub_stream h)\<lparr>tx := tx (hub_stream h) @ frame_bytes t p\<rparr>\<rparr>)"
  using assms by (simp add: hub_write_def write_frame_def conn_write_def frame_bytes_def)

lemma us_write_eq:
  assumes "\<not> us_closed h" "length p \<le> MaxPayloadSize" "tx_room (us_stream h) = None"
  shows "us_write t p h = (True, h\<lparr>us_stream := (us_stream h)\<lparr>tx := tx (us_stream h) @ frame_bytes t p\<rparr>\<rparr>)"
  using assms by (simp add: us_write_def write_frame_def conn_write_def frame_bytes_def)

text \<open>One exchange in stages: the bytes on the stream after each, and the state of either end.\<close>

abbreviation wired :: "bytes \<Rightarrow> bytes \<Rightarrow> conn" where
  "wired rb tb \<equiv> \<lparr>rx = rb, rx_err = EOF, tx = tb, tx_room = None, closed = False\<rparr>"

abbreviation open_payload :: "udp_addr \<Rightarrow> bytes" where
  "open_payload c \<equiv> be32 1 @ string_bytes (addr_key c)"

abbreviation ok_payload :: bytes where
  "ok_payload \<equiv> be32 1 @ ok_byte True # string_bytes ''ok''"

abbreviation hub_opened :: "udp_addr \<Rightarrow> int \<Rightarrow> hub \<Rightarrow> registry \<Rightarrow> bytes \<Rightarrow> hub" where
  "hub_opened c now h0 r sent \<equiv> (add_assoc c now h0)\<lparr>hub_stream := wired [] (frame_bytes TypeOpenAssoc (open_payload c) @ sent),
     objs := [\<lparr>ua_id = 1, ua_client = c, ua_last = now, ua_ready = True, ua_err = None\<rparr>], hub_reg := add_sessions 1 r\<rparr>"

abbreviation agent_opened :: "int \<Rightarrow> udp_stream \<Rightarrow> bytes \<Rightarrow> udp_stream" where
  "agent_opened now g0 sent \<equiv> (us_add 1 now g0)\<lparr>us_stream := wired [] (frame_bytes TypeOpenAssocAck ok_payload @ sent)\<rparr>"

lemma exchange_opens:
  fixes m now idle r target prv k idle' c
  defines "h0 \<equiv> new_hub (mk_conn []) m idle r" and "g0 \<equiv> new_stream (mk_conn []) target prv k idle'"
  defines "h1 \<equiv> (add_assoc c now h0)\<lparr>hub_stream := wired [] (frame_bytes TypeOpenAssoc (open_payload c))\<rparr>"
  assumes a: "length (addr_key c) \<le> 65530" and m: "0 < m" "0 < k" and d: "dial_udp_local lookup dial target prv"
  shows "ensure_start c now h0 = (Inr (0, True), h1)"
    "us_read lookup dial True now (us_rx (hub_news h0 h1) g0) = agent_opened now g0 []"
    "read_step now (hub_rx (us_news g0 (agent_opened now g0 [])) h1) = hub_opened c now h0 r []"
proof -
  let ?P = "open_payload c" and ?F = "frame_bytes TypeOpenAssoc (open_payload c)" and ?A = "frame_bytes TypeOpenAssocAck ok_payload"
  have P: "marshal_open_assoc \<lparr>as_id = 1, as_client_addr = addr_key c\<rparr> = Inr ?P"
    using a by (simp add: marshal_open_assoc_def put_u32_def)
  have l: "length ?P \<le> MaxPayloadSize" "length ok_payload \<le> MaxPayloadSize" using a by (simp_all add: MaxPayloadSize_def)
  show "ensure_start c now h0 = (Inr (0, True), h1)"
    using P l m by (simp add: h0_def h1_def ensure_start_def new_hub_def mk_conn_def add_assoc_def hub_write_ok)
  have n1: "hub_news h0 h1 = ?F" by (simp add: h0_def h1_def hub_news_def new_hub_def mk_conn_def)
  have f1: "read_frame (wired ?F []) = (Inr \<lparr>fr_type = TypeOpenAssoc, fr_flags = 0, fr_payload = ?P\<rparr>, wired [] [])"
    using read_frame_bytes [OF l(1), of "wired ?F []" TypeOpenAssoc "[]"] by simp
  show "us_read lookup dial True now (us_rx (hub_news h0 h1) g0) = agent_opened now g0 []"
    using f1 open_assoc_rt [OF P] d m l unfolding n1
    by (simp add: g0_def us_read_def us_rx_def new_stream_def mk_conn_def us_openassoc_def us_ack_def ack_payload us_add_def us_write_eq)
  have n2: "us_news g0 (agent_opened now g0 []) = ?A" by (simp add: g0_def us_news_def new_stream_def mk_conn_def)
  have f2: "read_frame (wired ?A ?F) = (Inr \<lparr>fr_type = TypeOpenAssocAck, fr_flags = 0, fr_payload = ok_payload\<rparr>, wired [] ?F)"
    using read_frame_bytes [OF l(2), of "wired ?A ?F" TypeOpenAssocAck "[]"] by simp
  show "read_step now (hub_rx (us_news g0 (agent_opened now g0 [])) h1) = hub_opened c now h0 r []"
    using f2 open_assoc_ack_rt [OF ack_payload] unfolding n2
    by (simp add: h0_def h1_def read_step_def hub_rx_def mark_ready_def upd_obj_def add_assoc_def new_hub_def mk_conn_def)
qed

lemma exchange_passes:
  fixes m now idle r target prv k idle' c
  defines "h0 \<equiv> new_hub (mk_conn []) m idle r" and "g0 \<equiv> new_stream (mk_conn []) target prv k idle'"
  defines "D \<equiv> (\<lambda>p. frame_bytes TypeDatagram (be32 1 @ p))"
  assumes p: "length p \<le> MaxDatagramPayload" and q: "q \<noteq> []" "length q \<le> MaxDatagramPayload"
  shows "forward_on 0 p now (hub_opened c now h0 r []) = (Inr (), hub_opened c now h0 r (D p))"
    "us_read lookup dial True now (us_rx (hub_news (hub_opened c now h0 r []) (hub_opened c now h0 r (D p))) (agent_opened now g0 [])) =
       (agent_opened now g0 [])\<lparr>us_sent := [(0, p)]\<rparr>"
    "read_local now 1 (Some q) ((agent_opened now g0 [])\<lparr>us_sent := [(0, p)]\<rparr>) = (agent_opened now g0 (D q))\<lparr>us_sent := [(0, p)]\<rparr>"
    "read_step now (hub_rx (us_news ((agent_opened now g0 [])\<lparr>us_sent := [(0, p)]\<rparr>) ((agent_opened now g0 (D q))\<lparr>us_sent := [(0, p)]\<rparr>))
       (hub_opened c now h0 r (D p))) = (hub_opened c now h0 r (D p))\<lparr>hub_out := [(c, q)]\<rparr>"
proof -
  let ?F = "frame_bytes TypeOpenAssoc (open_payload c)" and ?A = "frame_bytes TypeOpenAssocAck ok_payload"
  show "forward_on 0 p now (hub_opened c now h0 r []) = (Inr (), hub_opened c now h0 r (D p))"
    using p datagram_length [OF p, of 1]
    by (simp add: h0_def D_def forward_on_def datagram_payload upd_obj_def hub_write_ok add_assoc_def new_hub_def mk_conn_def)
  have n3: "hub_news (hub_opened c now h0 r []) (hub_opened c now h0 r (D p)) = D p" by (simp add: hub_news_def)
  have f: "read_frame (wired (D x) tb) = (Inr \<lparr>fr_type = TypeDatagram, fr_flags = 0, fr_payload = be32 1 @ x\<rparr>, wired [] tb)"
    if "length x \<le> MaxDatagramPayload" for x tb
    using read_frame_bytes [OF datagram_length [OF that], of "wired (D x) tb" TypeDatagram 1 "[]"] by (simp add: D_def)
  show "us_read lookup dial True now (us_rx (hub_news (hub_opened c now h0 r []) (hub_opened c now h0 r (D p))) (agent_opened now g0 [])) =
      (agent_opened now g0 [])\<lparr>us_sent := [(0, p)]\<rparr>"
    using f [OF p] parse_datagram_bytes [OF p] unfolding n3
    by (simp add: g0_def us_read_def us_rx_def write_local_def us_touch_def us_add_def new_stream_def mk_conn_def frame_type_defs)
  show "read_local now 1 (Some q) ((agent_opened now g0 [])\<lparr>us_sent := [(0, p)]\<rparr>) = (agent_opened now g0 (D q))\<lparr>us_sent := [(0, p)]\<rparr>"
    using q datagram_length [OF q(2), of 1]
    by (simp add: g0_def D_def read_local_def us_touch_def us_add_def new_stream_def mk_conn_def MaxUDPPayload_def datagram_payload us_write_eq)
  have n4: "us_news ((agent_opened now g0 [])\<lparr>us_sent := [(0, p)]\<rparr>) ((agent_opened now g0 (D q))\<lparr>us_sent := [(0, p)]\<rparr>) = D q"
    by (simp add: us_news_def)
  show "read_step now (hub_rx (us_news ((agent_opened now g0 [])\<lparr>us_sent := [(0, p)]\<rparr>) ((agent_opened now g0 (D q))\<lparr>us_sent := [(0, p)]\<rparr>))
      (hub_opened c now h0 r (D p))) = (hub_opened c now h0 r (D p))\<lparr>hub_out := [(c, q)]\<rparr>"
    using f [OF q(2)] parse_datagram_bytes [OF q(2)] unfolding n4
    by (simp add: h0_def read_step_def hub_rx_def deliver_def upd_obj_def add_assoc_def new_hub_def mk_conn_def frame_type_defs)
qed

text \<open>
C26: UDP works end to end. For a fresh hub and a fresh Agent stream that can dial its target, a client's first packet opens an association that both ends agree on, reaches the service's socket unchanged, and the service's reply is written unchanged to that client and to nobody else; the session gauge counts one.
\<close>

theorem udp_end_to_end:
  assumes k: "length (addr_key c) \<le> 65530" and m: "0 < m" "0 < k"
    and d: "dial_udp_local lookup dial target private"
    and p: "length p \<le> MaxDatagramPayload" and q: "q \<noteq> []" "length q \<le> MaxDatagramPayload"
    and a: "0 \<le> active_sessions r"
  shows "\<exists>h g. udp_exchange lookup dial now c p q (new_hub (mk_conn []) m idle r) (new_stream (mk_conn []) target private k idle') = Some (h, g) \<and>
     us_sent g = [(0, p)] \<and> hub_out h = [(c, q)] \<and> map fst (by_id h) = [1] \<and> map fst (us_assocs g) = [1] \<and>
     active_sessions (hub_reg h) = active_sessions r + 1"
proof -
  let ?h0 = "new_hub (mk_conn []) m idle r" and ?g0 = "new_stream (mk_conn []) target private k idle'"
  note o = exchange_opens [OF k m d]
  note x = exchange_passes [OF p q]

  have "assoc_result 0 (hub_opened c now ?h0 r []) = Inr 0" "ua_id (objs (hub_opened c now ?h0 r s) ! 0) = 1" for s
    by (simp_all add: assoc_result_def)
  note u = udp_exchange_def o(1) prod.case sum.case o(2,3) Let_def this x
  have "\<exists>h g. udp_exchange lookup dial now c p q ?h0 ?g0 = Some (h, g) \<and> h = (hub_opened c now ?h0 r (frame_bytes TypeDatagram (be32 1 @ p)))\<lparr>hub_out := [(c, q)]\<rparr> \<and>
      g = (agent_opened now ?g0 (frame_bytes TypeDatagram (be32 1 @ q)))\<lparr>us_sent := [(0, p)]\<rparr>"
    unfolding u by simp
  moreover have "active_sessions (add_sessions 1 r) = active_sessions r + 1" using a by (simp add: active_add)
  ultimately show ?thesis by (auto simp: add_assoc_def new_hub_def us_add_def new_stream_def)
qed

theorem udp_end_to_end_witness:
  "\<exists>h g. udp_exchange (\<lambda>_. Some [[10, 0, 0, 7]]) (\<lambda>_. True) 5 example_client [1, 2] [3]
      (new_hub (mk_conn []) 4 60 new_registry) (new_stream (mk_conn []) ''10.0.0.7:53'' True 4 60) = Some (h, g) \<and>
     us_sent g = [(0, [1, 2])] \<and> hub_out h = [(example_client, [3])]"
proof -
  have "validate_local (\<lambda>_. Some [[10, 0, 0, 7]]) ''10.0.0.7:53'' True = None" by code_simp
  then have "dial_udp_local (\<lambda>_. Some [[10, 0, 0, 7]]) (\<lambda>_. True) ''10.0.0.7:53'' True"
    by (simp add: dial_udp_local_def)
  then show ?thesis
    using udp_end_to_end [of example_client 4 4 "\<lambda>_. Some [[10, 0, 0, 7]]" "\<lambda>_. True" "''10.0.0.7:53''" True "[1, 2]" "[3]" new_registry 5 60 60]
    unfolding example_key
    by (auto simp: MaxDatagramPayload_def MaxPayloadSize_def AssocIDSize_def new_registry_def)
qed

end
