(* ===== verification/ConfigLoad.thy ===== *)
theory ConfigLoad
  imports Config NetAddr
begin

text \<open>
  How a configuration file becomes a configuration: \<open>internal/config/defaults.go\<close>, the loading
  half of \<open>config.go\<close>, \<open>secret.go\<close>, \<open>find.go\<close> and the mappings of \<open>initgen.go\<close>.

  The file system is a map from paths to what is there, the environment a map from names to values
  (empty when unset). The YAML decoder, the random source and the Unicode classes of
  \<open>sanitizeName\<close> beyond ASCII are arguments.
\<close>

section \<open>Paths and files\<close>

definition slash :: char where "slash = CHR ''/''"

fun join_slash :: "string list \<Rightarrow> string" where
  "join_slash [] = []"
| "join_slash [p] = p"
| "join_slash (p # ps) = p @ slash # join_slash ps"

text \<open>\<open>filepath.Clean\<close>: the components of the result, innermost first in \<open>out\<close>.\<close>

fun clean_parts :: "bool \<Rightarrow> string list \<Rightarrow> string list \<Rightarrow> string list" where
  "clean_parts rooted out [] = rev out"
| "clean_parts rooted out (p # ps) =
     (if p = [] \<or> p = ''.'' then clean_parts rooted out ps
      else if p = ''..'' then
        (case out of
           [] \<Rightarrow> if rooted then clean_parts rooted [] ps else clean_parts rooted [''..''] ps
         | q # qs \<Rightarrow> if q = ''..'' then clean_parts rooted (''..'' # out) ps else clean_parts rooted qs ps)
      else clean_parts rooted (p # out) ps)"

definition is_abs :: "string \<Rightarrow> bool" where
  "is_abs p \<longleftrightarrow> has_prefix p ''/''"

definition clean_path :: "string \<Rightarrow> string" where
  "clean_path p =
     (if p = [] then ''.''
      else let body = join_slash (clean_parts (is_abs p) [] (split_on slash p)) in
        if is_abs p then slash # body else if body = [] then ''.'' else body)"

definition path_join :: "string list \<Rightarrow> string" where
  "path_join es = (case dropWhile (\<lambda>e. e = []) es of [] \<Rightarrow> [] | r \<Rightarrow> clean_path (join_slash r))"

definition path_dir :: "string \<Rightarrow> string" where
  "path_dir p = clean_path (case last_index_byte p slash of None \<Rightarrow> [] | Some i \<Rightarrow> take (i + 1) p)"

definition path_abs :: "string \<Rightarrow> string \<Rightarrow> string" where
  "path_abs cwd p = (if is_abs p then clean_path p else path_join [cwd, p])"

datatype file_state = FAbsent | FDirectory | FDenied | FText string

type_synonym files = "string \<Rightarrow> file_state"
type_synonym environ = "string \<Rightarrow> string"

text \<open>\<open>os.Stat\<close> finds something that is no directory.\<close>

definition stat_file :: "files \<Rightarrow> string \<Rightarrow> bool" where
  "stat_file fs p = (case fs p of FDenied \<Rightarrow> True | FText _ \<Rightarrow> True | _ \<Rightarrow> False)"

datatype read_error = NotExist | ReadError

definition read_file :: "files \<Rightarrow> string \<Rightarrow> read_error + string" where
  "read_file fs p = (case fs p of FAbsent \<Rightarrow> Inl NotExist | FText s \<Rightarrow> Inr s | _ \<Rightarrow> Inl ReadError)"

section \<open>Addresses\<close>

definition DefaultTunnelPort :: string where "DefaultTunnelPort = ''8443''"
definition DefaultListen :: string where "DefaultListen = '':8443''"
definition DefaultAdminListen :: string where "DefaultAdminListen = ''127.0.0.1:9090''"
definition DefaultTokenFile :: string where "DefaultTokenFile = ''token''"
definition DefaultAdminToken :: string where "DefaultAdminToken = ''admin.token''"
definition DefaultAllowlist :: string where "DefaultAllowlist = ''allowlist.json''"
definition DefaultDenylist :: string where "DefaultDenylist = ''denylist.json''"
definition ExampleAdminToken :: string where "ExampleAdminToken = ''admin-dev-token-change-me''"
definition MinPublicAdminToken :: nat where "MinPublicAdminToken = 16"

definition is_port :: "string \<Rightarrow> bool" where
  "is_port s = (case atoi s of None \<Rightarrow> False | Some n \<Rightarrow> 0 \<le> n \<and> n \<le> 65535)"

definition addr_port :: "string \<Rightarrow> string" where
  "addr_port s0 =
     (let s = trim_space s0 in
      if s = [] then []
      else if is_port s then s
      else case split_host_port s of Some (_, port) \<Rightarrow> port | None \<Rightarrow> [])"

definition expand_addr :: "string \<Rightarrow> bool \<Rightarrow> string" where
  "expand_addr s0 local_target =
     (let s = trim_space s0 in
      if s = [] then s
      else if is_port s then (if local_target then ''127.0.0.1:'' @ s else '':'' @ s)
      else s)"

definition expand_edge_addr :: "string \<Rightarrow> string" where
  "expand_edge_addr s0 =
     (let s = trim_space s0 in
      if s = [] then s
      else if is_port s then ''127.0.0.1:'' @ s
      else if has_prefix s '':'' then ''127.0.0.1'' @ s
      else if split_host_port s = None then join_host_port s DefaultTunnelPort
      else s)"

definition expand_admin_listen :: "string \<Rightarrow> string" where
  "expand_admin_listen s0 =
     (let s = trim_space s0 in
      if s = [] then s
      else if is_port s then ''127.0.0.1:'' @ s
      else if has_prefix s '':'' then ''127.0.0.1'' @ s
      else s)"

section \<open>Tunnel types and names\<close>

definition infer_type :: "tunnel \<Rightarrow> tunnel" where
  "infer_type t =
     (let typ = to_lower (trim_space (t_type t)) in
      if typ \<noteq> [] then t\<lparr>t_type := typ\<rparr>
      else if t_host t \<noteq> [] \<or> t_tls t \<or> t_passthrough t \<or> t_http2 t then t\<lparr>t_type := TypeHTTP\<rparr>
      else t\<lparr>t_type := TypeTCP\<rparr>)"

text \<open>The runes of a string: a UTF-8 sequence, or a single byte that starts none.\<close>

definition continuation :: "char \<Rightarrow> bool" where
  "continuation c \<longleftrightarrow> 128 \<le> (of_char c :: nat) \<and> (of_char c :: nat) < 192"

fun rune_width :: "string \<Rightarrow> nat" where
  "rune_width [] = 0"
| "rune_width (c # r) =
     (let n = (of_char c :: nat);
          k = (if 194 \<le> n \<and> n \<le> 223 then 1 else if 224 \<le> n \<and> n \<le> 239 then 2
               else if 240 \<le> n \<and> n \<le> 244 then 3 else 0 :: nat)
      in if k \<le> length r \<and> list_all continuation (take k r) then Suc k else 1)"

lemma rune_width_pos: "s \<noteq> [] \<Longrightarrow> 0 < rune_width s"
  by (cases s) (simp_all add: Let_def)

function runes :: "string \<Rightarrow> string list" where
  "runes s = (if s = [] then [] else take (rune_width s) s # runes (drop (rune_width s) s))"
  by pat_completeness auto
termination
  by (relation "measure length") (auto simp: rune_width_pos)

declare runes.simps [simp del]

text \<open>\<open>wide\<close> is \<open>unicode.IsLetter\<close> or \<open>unicode.IsDigit\<close> on a rune beyond ASCII.\<close>

definition letter_or_digit :: "(string \<Rightarrow> bool) \<Rightarrow> string \<Rightarrow> bool" where
  "letter_or_digit wide r =
     (case r of
        [c] \<Rightarrow> (let n = (of_char c :: nat) in is_digit c \<or> 65 \<le> n \<and> n \<le> 90 \<or> 97 \<le> n \<and> n \<le> 122)
      | _ \<Rightarrow> wide r)"

fun sanitize_loop :: "(string \<Rightarrow> bool) \<Rightarrow> string \<Rightarrow> bool \<Rightarrow> string list \<Rightarrow> string" where
  "sanitize_loop wide b prev_dash [] = b"
| "sanitize_loop wide b prev_dash (r # rs) =
     (if letter_or_digit wide r then sanitize_loop wide (b @ r) False rs
      else if \<not> prev_dash \<and> b \<noteq> [] then sanitize_loop wide (b @ ''-'') True rs
      else sanitize_loop wide b prev_dash rs)"

definition trim_dashes :: "string \<Rightarrow> string" where
  "trim_dashes s = trim_right_set {CHR ''-''} (dropWhile (\<lambda>c. c = CHR ''-'') s)"

definition sanitize_name :: "(string \<Rightarrow> bool) \<Rightarrow> string \<Rightarrow> string" where
  "sanitize_name wide s0 =
     (let s = to_lower (trim_space s0) in
      if s = [] then [] else trim_dashes (sanitize_loop wide [] False (runes s)))"

definition default_tunnel_name :: "(string \<Rightarrow> bool) \<Rightarrow> tunnel \<Rightarrow> string" where
  "default_tunnel_name wide t =
     (let typ = (if t_type t = [] then TypeTCP else t_type t);
          port = (if addr_port (t_public t) = [] then addr_port (t_local t) else addr_port (t_public t));
          host = sanitize_name wide (t_host t)
      in typ @ (if port \<noteq> [] then ''-'' @ port else []) @ (if host \<noteq> [] then ''-'' @ host else []))"

text \<open>\<open>uniqueName\<close>: the loop has no bound in the code. It ends because only finitely many suffixes
  are taken.\<close>

definition numbered :: "string \<Rightarrow> nat \<Rightarrow> string" where
  "numbered base i = base @ ''-'' @ nat_string i"

lemma numbered_inj [simp]: "numbered b i = numbered b j \<longleftrightarrow> i = j"
  by (metis append_same_eq dec_val_nat_string numbered_def same_append_eq)

lemma finite_taken: "finite {j. i \<le> j \<and> numbered base j \<in> set used}"
proof -
  have "finite (numbered base -` set used)"
    by (rule finite_vimageI) (simp_all add: inj_def)
  then show ?thesis by (rule rev_finite_subset) auto
qed

function name_loop :: "string \<Rightarrow> string list \<Rightarrow> nat \<Rightarrow> string" where
  "name_loop base used i =
     (if numbered base i \<notin> set used then numbered base i else name_loop base used (i + 1))"
  by pat_completeness auto
termination
proof (relation "measure (\<lambda>(base, used, i). card {j. i \<le> j \<and> numbered base j \<in> set used})", goal_cases)
  case (2 base used i)
  have "{j. i + 1 \<le> j \<and> numbered base j \<in> set used} \<subset> {j. i \<le> j \<and> numbered base j \<in> set used}"
    using 2 by (intro psubsetI) (auto dest!: equalityD2 [THEN subsetD, of _ _ i])
  then show ?case using psubset_card_mono [OF finite_taken] by simp
qed simp

declare name_loop.simps [simp del]

definition unique_name :: "string \<Rightarrow> string list \<Rightarrow> string" where
  "unique_name base0 used =
     (let base = (if base0 = [] then ''tun'' else base0) in
      if base \<notin> set used then base else name_loop base used 2)"

section \<open>Defaults\<close>

text \<open>The tunnel loop of \<open>applyCommon\<close>: \<open>used\<close> are the names so far.\<close>

definition common_tunnel :: "tunnel \<Rightarrow> tunnel" where
  "common_tunnel t = infer_type (t\<lparr>t_public := expand_addr (t_public t) False, t_local := expand_addr (t_local t) True\<rparr>)"

fun name_tunnels :: "(string \<Rightarrow> bool) \<Rightarrow> string list \<Rightarrow> tunnel list \<Rightarrow> tunnel list" where
  "name_tunnels wide used [] = []"
| "name_tunnels wide used (t0 # ts) =
     (let t = common_tunnel t0; name0 = trim_space (t_name t) in
      if name0 = [] then
        let name = unique_name (default_tunnel_name wide t) used in
        t\<lparr>t_name := name\<rparr> # name_tunnels wide (name # used) ts
      else t # name_tunnels wide (name0 # used) ts)"

definition common_addrs :: "config \<Rightarrow> config" where
  "common_addrs c =
     c\<lparr>listen := (if trim_space (listen c) \<noteq> [] then expand_addr (listen c) False else listen c),
       edge := (if trim_space (edge c) \<noteq> [] then expand_edge_addr (edge c) else edge c),
       admin_listen := (if trim_space (admin_listen c) \<noteq> [] then expand_admin_listen (admin_listen c) else admin_listen c)\<rparr>"

definition common_token :: "files \<Rightarrow> config \<Rightarrow> config" where
  "common_token fs c =
     (let cand = path_join [path_dir (cfg_path c), DefaultTokenFile] in
      if trim_space (cfg_token c) = [] \<and> token_file c = [] \<and> cfg_path c \<noteq> [] \<and> stat_file fs cand
      then c\<lparr>token_file := cand\<rparr> else c)"

definition apply_common :: "(string \<Rightarrow> bool) \<Rightarrow> files \<Rightarrow> config \<Rightarrow> config" where
  "apply_common wide fs c0 =
     (let c = common_token fs (common_addrs c0) in c\<lparr>cfg_tunnels := name_tunnels wide [] (cfg_tunnels c)\<rparr>)"

text \<open>\<open>applyEdgeDefaults\<close>, in its parts; \<open>dir\<close> is the directory of the configuration file.\<close>

definition default_listen :: "config \<Rightarrow> config" where
  "default_listen c = c\<lparr>listen := (if trim_space (listen c) = [] then DefaultListen else expand_addr (listen c) False)\<rparr>"

definition default_admin :: "config \<Rightarrow> config" where
  "default_admin c =
     c\<lparr>admin_listen := (if admin_enable c = Some False then []
                       else if trim_space (admin_listen c) = [] then DefaultAdminListen
                       else expand_admin_listen (admin_listen c))\<rparr>"

definition default_admin_token :: "string \<Rightarrow> config \<Rightarrow> config" where
  "default_admin_token dir c =
     (if admin_enabled c \<and> trim_space (admin_token c) = [] \<and> admin_token_file c = [] \<and> dir \<noteq> []
      then c\<lparr>admin_token_file := path_join [dir, DefaultAdminToken]\<rparr> else c)"

definition default_files :: "string \<Rightarrow> config \<Rightarrow> config" where
  "default_files dir c =
     c\<lparr>allowlist_file := (if trim_space (allowlist_file c) = [] \<and> dir \<noteq> [] then path_join [dir, DefaultAllowlist] else allowlist_file c),
       denylist_file := (if trim_space (denylist_file c) = [] \<and> dir \<noteq> [] then path_join [dir, DefaultDenylist] else denylist_file c)\<rparr>"

definition default_tls :: "string \<Rightarrow> config \<Rightarrow> config" where
  "default_tls dir c =
     (if tls_cert c = [] \<and> tls_key c = [] \<and> dir \<noteq> []
      then c\<lparr>auto_self_signed := True, tls_cert := path_join [dir, ''certs'', ''edge.crt''], tls_key := path_join [dir, ''certs'', ''edge.key'']\<rparr>
      else if tls_cert c = [] \<and> tls_key c = [] then c\<lparr>auto_self_signed := True\<rparr>
      else c)"

definition apply_edge_defaults :: "config \<Rightarrow> config" where
  "apply_edge_defaults c =
     (let dir = (if cfg_path c \<noteq> [] then path_dir (cfg_path c) else []) in
      default_tls dir (default_files dir (default_admin_token dir (default_admin (default_listen c)))))"

lemma defaults_frame [simp]:
  "cfg_path (common_addrs c) = cfg_path c" "cfg_path (common_token fs c) = cfg_path c" "cfg_path (apply_common w fs c) = cfg_path c"
  "admin_enable (common_token fs c) = admin_enable c" "admin_listen (common_token fs c) = admin_listen c"
  "admin_enable (apply_common w fs c) = admin_enable c"
  "cfg_path (default_admin_token d c) = cfg_path c" "admin_listen (default_admin_token d c) = admin_listen c"
  "cfg_path (default_tls d c) = cfg_path c" "admin_listen (default_tls d c) = admin_listen c"
  "cfg_path (default_files d c) = cfg_path c" "admin_listen (default_files d c) = admin_listen c"
  by (simp_all add: default_files_def common_addrs_def common_token_def apply_common_def default_admin_token_def default_tls_def Let_def)

definition apply_agent_defaults :: "config \<Rightarrow> config" where
  "apply_agent_defaults c0 =
     (let c = (if trim_space (edge c0) \<noteq> [] then c0\<lparr>edge := expand_edge_addr (edge c0)\<rparr> else c0) in
      if trim_space (tls_server_name c) \<noteq> [] then c
      else case split_host_port (trim_space (edge c)) of
        None \<Rightarrow> c\<lparr>tls_server_name := ''localhost''\<rparr>
      | Some (host, _) \<Rightarrow>
          if host = [] then c\<lparr>tls_server_name := ''localhost''\<rparr>
          else let i = parse_ip host in
            if i \<noteq> [] then
              (if is_loopback i then c\<lparr>tls_server_name := ''localhost''\<rparr>
               else if skip_verify c then c\<lparr>tls_server_name := []\<rparr>
               else c\<lparr>tls_server_name := ''localhost''\<rparr>)
            else c\<lparr>tls_server_name := host\<rparr>)"

section \<open>Paths and secrets\<close>

definition resolve :: "string \<Rightarrow> string \<Rightarrow> string" where
  "resolve base p = (if p = [] \<or> is_abs p then p else path_join [base, p])"

definition resolve_paths :: "string \<Rightarrow> config \<Rightarrow> config" where
  "resolve_paths base c =
     c\<lparr>token_file := resolve base (token_file c), allowlist_file := resolve base (allowlist_file c),
       denylist_file := resolve base (denylist_file c), admin_token_file := resolve base (admin_token_file c),
       tls_cert := resolve base (tls_cert c), tls_key := resolve base (tls_key c), tls_ca := resolve base (tls_ca c),
       cfg_tunnels := map (\<lambda>t. t\<lparr>t_cert := resolve base (t_cert t), t_key := resolve base (t_key t)\<rparr>) (cfg_tunnels c)\<rparr>"

datatype config_error =
    ReadConfig read_error | ParseConfig | ReadTokenFile read_error | EmptyTokenFile
  | ReadAdminTokenFile read_error | EmptyAdminTokenFile | NoAdminToken | GenerateAdminToken | WriteAdminToken
  | TokenRequired | NameRequired nat | DuplicateName string | UnknownType string string | NegativeMaxSessions
  | ListenRequired | TLSRequired | BadHealthPath | AdminTokenRequired | AllowlistFileRequired
  | AdminTokenExample | AdminTokenShort | AdminTokenSame
  | PublicRequired string | DuplicatePublic string | LocalRequired string | BothTCPAndHTTP string
  | PassthroughNeedsTLS string | HTTP2NeedsTLS string | NoCertificate string | CertWithoutKey string
  | MixedTLS string | DuplicateCatchAll string | DuplicateHost string string
  | AdminPortConflict string | TunnelPortConflict string string | EdgeRequired

definition load_tunnel_token :: "environ \<Rightarrow> files \<Rightarrow> config \<Rightarrow> config_error + config" where
  "load_tunnel_token env fs c0 =
     (let tok = trim_space (env ''FAKETUNNEL_TUNNEL_TOKEN'');
          c = (if tok \<noteq> [] \<and> trim_space (cfg_token c0) = [] \<and> token_file c0 = [] then c0\<lparr>cfg_token := tok\<rparr> else c0)
      in if token_file c = [] then Inr c
         else case read_file fs (token_file c) of
           Inl e \<Rightarrow> Inl (ReadTokenFile e)
         | Inr text_ \<Rightarrow>
             if trim_space text_ = [] then Inl EmptyTokenFile else Inr (c\<lparr>cfg_token := trim_space text_\<rparr>))"

definition load_admin_token :: "environ \<Rightarrow> files \<Rightarrow> config \<Rightarrow> config_error + config" where
  "load_admin_token env fs c0 =
     (let tok = trim_space (env ''FAKETUNNEL_ADMIN_TOKEN'');
          c = (if tok \<noteq> [] \<and> trim_space (admin_token c0) = [] \<and> admin_token_file c0 = [] then c0\<lparr>admin_token := tok\<rparr> else c0)
      in if admin_token_file c = [] then Inr c
         else case read_file fs (admin_token_file c) of
           Inl NotExist \<Rightarrow> Inr c
         | Inl e \<Rightarrow> Inl (ReadAdminTokenFile e)
         | Inr text_ \<Rightarrow>
             if trim_space text_ = [] then Inl EmptyAdminTokenFile else Inr (c\<lparr>admin_token := trim_space text_\<rparr>))"

definition load_token :: "environ \<Rightarrow> files \<Rightarrow> config \<Rightarrow> config_error + config" where
  "load_token env fs c = rbind (load_tunnel_token env fs c) (load_admin_token env fs)"

text \<open>\<open>RandomToken\<close>: \<open>rnd\<close> is what \<open>rand.Read\<close> put into the 32 bytes, None when it failed.\<close>

definition hex_encode :: "bytes \<Rightarrow> string" where
  "hex_encode b = concat (map (\<lambda>x. [hex_char (unat x div 16), hex_char (unat x mod 16)]) b)"

definition random_token :: "bytes option \<Rightarrow> string option" where
  "random_token rnd = map_option hex_encode rnd"

text \<open>\<open>WriteSecretFile\<close>: \<open>flt\<close> is None when the write succeeds, else what it leaves at the path.\<close>

definition write_secret_file :: "file_state option \<Rightarrow> string \<Rightarrow> string \<Rightarrow> files \<Rightarrow> bool \<times> files" where
  "write_secret_file flt p contents fs =
     (case flt of None \<Rightarrow> (True, fs(p := FText (contents @ [CHR 0x0A]))) | Some left_ \<Rightarrow> (False, fs(p := left_)))"

definition ensure_admin_token :: "bytes option \<Rightarrow> file_state option \<Rightarrow> config \<Rightarrow> files \<Rightarrow> (config_error + config) \<times> files" where
  "ensure_admin_token rnd flt c fs =
     (if \<not> admin_enabled c then (Inr c, fs)
      else if trim_space (admin_token c) \<noteq> [] then (Inr c, fs)
      else if admin_token_file c = [] then (Inl NoAdminToken, fs)
      else case random_token rnd of
        None \<Rightarrow> (Inl GenerateAdminToken, fs)
      | Some tok \<Rightarrow>
          (case write_secret_file flt (admin_token_file c) tok fs of
             (False, fs') \<Rightarrow> (Inl WriteAdminToken, fs')
           | (True, fs') \<Rightarrow> (Inr (c\<lparr>admin_token := tok\<rparr>), fs')))"

definition load_yaml :: "(string \<Rightarrow> config option) \<Rightarrow> string \<Rightarrow> files \<Rightarrow> string \<Rightarrow> config_error + config" where
  "load_yaml yaml cwd fs p =
     (let abs = path_abs cwd p in
      case read_file fs abs of
        Inl e \<Rightarrow> Inl (ReadConfig e)
      | Inr text_ \<Rightarrow> (case yaml text_ of None \<Rightarrow> Inl ParseConfig | Some c \<Rightarrow> Inr (c\<lparr>cfg_path := abs\<rparr>)))"

section \<open>Finding files\<close>

definition find_candidates :: "string \<Rightarrow> string list" where
  "find_candidates role =
     concat (map (\<lambda>n. [n, path_join [''configs'', n]]) [role @ ''.yaml'', role @ ''.yml'']) @
     [path_join [''/opt/faketunnel/configs'', role @ ''.yaml''], path_join [''/etc/faketunnel'', role @ ''.yaml'']]"

definition find_config :: "environ \<Rightarrow> files \<Rightarrow> string \<Rightarrow> string" where
  "find_config env fs role =
     (let p = trim_space (env ''FAKETUNNEL_CONFIG'') in
      if p \<noteq> [] then p
      else case find (stat_file fs) (find_candidates role) of Some c \<Rightarrow> c | None \<Rightarrow> [])"

fun first_token :: "files \<Rightarrow> string list \<Rightarrow> string" where
  "first_token fs [] = []"
| "first_token fs (p # ps) =
     (case read_file fs p of
        Inl e \<Rightarrow> first_token fs ps
      | Inr text_ \<Rightarrow> if trim_space text_ \<noteq> [] then trim_space text_ else first_token fs ps)"

definition discover_admin_token :: "environ \<Rightarrow> files \<Rightarrow> string" where
  "discover_admin_token env fs =
     (let v = trim_space (env ''FAKETUNNEL_TOKEN'') in
      if v \<noteq> [] then v
      else let cfg = trim_space (env ''FAKETUNNEL_CONFIG'') in
        first_token fs
          ((if cfg \<noteq> [] then [path_join [path_dir cfg, DefaultAdminToken]] else []) @
           [DefaultAdminToken, path_join [''configs'', DefaultAdminToken],
            ''/opt/faketunnel/configs/'' @ DefaultAdminToken, ''/etc/faketunnel/'' @ DefaultAdminToken]))"

section \<open>Mappings of the init command\<close>

definition colon :: string where "colon = '':''"

definition parse_mapping :: "string \<Rightarrow> (string \<times> string) option" where
  "parse_mapping s0 =
     (let s = trim_space s0 in
      if s = [] then None
      else case split_on CHR '':'' s of
        [a] \<Rightarrow> if is_port a then Some (a, ''127.0.0.1:'' @ a) else None
      | [a, b] \<Rightarrow>
          if is_port a \<and> is_port b then Some (a, ''127.0.0.1:'' @ b)
          else if is_port b then Some (s, ''127.0.0.1:'' @ b)
          else None
      | [a, b, c] \<Rightarrow> if is_port c then Some (a @ colon @ b, ''127.0.0.1:'' @ c) else None
      | [a, b, c, d] \<Rightarrow> Some (a @ colon @ b, c @ colon @ d)
      | _ \<Rightarrow> None)"

definition compact_local :: "string \<Rightarrow> string" where
  "compact_local l =
     (case split_host_port l of
        Some (host, port) \<Rightarrow> if (host = ''127.0.0.1'' \<or> host = ''localhost'') \<and> is_port port then port else l
      | None \<Rightarrow> l)"

section \<open>Names\<close>

lemma name_loop_spec:
  "\<exists>j \<ge> i. name_loop base used i = numbered base j \<and> numbered base j \<notin> set used \<and> (\<forall>k. i \<le> k \<and> k < j \<longrightarrow> numbered base k \<in> set used)"
proof (induction base used i rule: name_loop.induct)
  case (1 base used i)
  show ?case
  proof (cases "numbered base i \<in> set used")
    case False
    then show ?thesis by (intro exI [of _ i]) (auto simp: name_loop.simps)
  next
    case True
    then obtain j where j: "i + 1 \<le> j" "name_loop base used (i + 1) = numbered base j" "numbered base j \<notin> set used"
      "\<forall>k. i + 1 \<le> k \<and> k < j \<longrightarrow> numbered base k \<in> set used"
      using 1 by blast
    have "numbered base k \<in> set used" if "i \<le> k" "k < j" for k
      using j(4) True that by (cases "k = i") auto
    then show ?thesis using j True by (intro exI [of _ j]) (simp add: name_loop.simps)
  qed
qed

lemma taken_bound:
  assumes "\<forall>k. 2 \<le> k \<and> k < j \<longrightarrow> numbered base k \<in> set used" "base \<in> set used" "2 \<le> j"
  shows "j \<le> length used + 1"
proof -
  have ne: "numbered base k \<noteq> base" for k by (simp add: numbered_def)
  have "card (insert base (numbered base ` {2..<j})) \<le> card (set used)"
    using assms(1,2) by (intro card_mono) auto
  moreover have "card (insert base (numbered base ` {2..<j})) = Suc (j - 2)"
    using ne ne [symmetric] by (subst card_insert_disjoint) (auto simp: card_image inj_on_def image_iff)
  ultimately show ?thesis using card_length [of used] by linarith
qed

text \<open>
Naming an unnamed tunnel ends. The search for a free name, which the code writes as a loop without a bound, returns a name that is not taken: the base name if it is free, else the base name with the smallest free number from 2 on, and after at most as many steps as there are names.
\<close>

theorem unique_name_ends:
  assumes "base \<noteq> []"
  shows "unique_name base used \<notin> set used \<and>
     (if base \<in> set used
      then \<exists>j. unique_name base used = numbered base j \<and> 2 \<le> j \<and> j \<le> length used + 1 \<and>
             (\<forall>k. 2 \<le> k \<and> k < j \<longrightarrow> numbered base k \<in> set used)
      else unique_name base used = base)"
proof (cases "base \<in> set used")
  case True
  obtain j where j: "2 \<le> j" "name_loop base used 2 = numbered base j" "numbered base j \<notin> set used"
    "\<forall>k. 2 \<le> k \<and> k < j \<longrightarrow> numbered base k \<in> set used"
    using name_loop_spec [of 2 base used] by blast
  with taken_bound [OF j(4) True j(1)] True assms show ?thesis
    by (auto simp: unique_name_def Let_def)
qed (simp add: unique_name_def assms Let_def)

theorem unique_name_ends_witness:
  "unique_name ''tcp'' [''tcp'', ''tcp-2'', ''web''] = ''tcp-3''"
proof -
  have n: "numbered ''tcp'' 2 = ''tcp-2''" "numbered ''tcp'' 3 = ''tcp-3''" "numbered ''tcp'' 4 = ''tcp-4''" by code_simp+
  obtain j where j: "unique_name ''tcp'' [''tcp'', ''tcp-2'', ''web''] = numbered ''tcp'' j" "2 \<le> j" "j \<le> 4"
    "\<forall>k. 2 \<le> k \<and> k < j \<longrightarrow> numbered ''tcp'' k \<in> set [''tcp'', ''tcp-2'', ''web'']"
    "numbered ''tcp'' j \<notin> set [''tcp'', ''tcp-2'', ''web'']"
    using unique_name_ends [of "''tcp''" "[''tcp'', ''tcp-2'', ''web'']"] by auto
  then have "j = 2 \<or> j = 3 \<or> j = 4" by linarith
  then have "j = 3" using j(4,5) n by (auto dest: spec [of _ 3])
  then show ?thesis using j(1) n by simp
qed

text \<open>After the defaults every tunnel has a name and a type.\<close>

lemma default_tunnel_name_ne: "t_type t \<noteq> [] \<Longrightarrow> default_tunnel_name w t \<noteq> []"
  by (simp add: default_tunnel_name_def Let_def)

lemma common_tunnel_type: "t_type (common_tunnel t) \<noteq> []"
  by (simp add: common_tunnel_def infer_type_def Let_def)

lemma name_tunnels_length [simp]: "length (name_tunnels w used ts) = length ts"
  by (induction w used ts rule: name_tunnels.induct) (auto simp: Let_def)

lemma name_tunnels_type: "t \<in> set (name_tunnels w used ts) \<Longrightarrow> t_type t \<noteq> []"
  by (induction w used ts rule: name_tunnels.induct) (auto simp: Let_def common_tunnel_type split: if_splits)

section \<open>Expanding addresses twice\<close>

text \<open>\<open>applyCommon\<close> and the role defaults both expand the listen addresses.\<close>

lemma is_port_chars: "is_port s \<Longrightarrow> s \<noteq> [] \<and> CHR '':'' \<notin> set s \<and> solid s"
proof -
  assume p: "is_port s"
  define d where "d = (if has_prefix s ''-'' \<or> has_prefix s ''+'' then drop 1 s else s)"
  have d: "d \<noteq> []" "list_all is_digit d"
    using p by (auto simp: is_port_def atoi_def Let_def d_def split: option.splits if_splits)
  moreover have "s = d \<or> s = CHR ''-'' # d \<or> s = CHR ''+'' # d"
    by (cases s) (auto simp: d_def has_prefix_def)
  moreover have c: "is_digit c \<Longrightarrow> c \<noteq> CHR '':'' \<and> \<not> ascii_space c \<and> of_char c < (128 :: nat)" for c
    by (auto simp: is_digit_def ascii_space_def)
  ultimately have s: "s = d \<or> s = CHR ''-'' # d \<or> s = CHR ''+'' # d" by blast
  have "solid d" using d c [of "hd d"] c [of "last d"] by (simp add: solid_def list_all_iff)
  moreover have "CHR '':'' \<notin> set d" using d c by (auto simp: list_all_iff)
  ultimately show ?thesis
    using s d(1) by (elim disjE) (simp_all add: solid_def ascii_space_def)
qed

lemma solid_snoc: "solid s \<Longrightarrow> s \<noteq> [] \<Longrightarrow> solid p \<Longrightarrow> p \<noteq> [] \<Longrightarrow> solid (p @ s)"
  by (auto simp: solid_def)

lemma colon_no_port: "CHR '':'' \<in> set s \<Longrightarrow> \<not> is_port s"
  using is_port_chars by blast

lemma solid_consts [simp]: "solid '':''" "solid ''127.0.0.1:''" "solid ''127.0.0.1''"
  by (simp_all add: solid_def ascii_space_def)

lemma trim_prefixed: "is_port s \<Longrightarrow> p \<noteq> [] \<Longrightarrow> solid p \<Longrightarrow> trim_space (p @ s) = p @ s"
  using is_port_chars solid_snoc by (metis trim_space_solid)

lemma expand_addr_idem: "expand_addr (expand_addr s l) m = expand_addr s l"
proof -
  let ?s = "trim_space s"
  have c: "is_port ?s \<Longrightarrow> expand_addr ('':'' @ ?s) m = '':'' @ ?s" "is_port ?s \<Longrightarrow> expand_addr (''127.0.0.1:'' @ ?s) m = ''127.0.0.1:'' @ ?s"
    using trim_prefixed [of ?s "'':''"] trim_prefixed [of ?s "''127.0.0.1:''"] colon_no_port [of "'':'' @ ?s"] colon_no_port [of "''127.0.0.1:'' @ ?s"]
    by (simp_all add: expand_addr_def Let_def)
  have k: "expand_addr ?s m = ?s" if "\<not> is_port ?s" using that by (simp add: expand_addr_def Let_def)
  have n: "expand_addr [] m = []" by (simp add: expand_addr_def)
  show ?thesis
    unfolding expand_addr_def [of s l] Let_def using c k n by (cases "?s = []"; cases "is_port ?s") simp_all
qed

lemma expand_admin_idem: "expand_admin_listen (expand_admin_listen s) = expand_admin_listen s"
proof -
  let ?s = "trim_space s"
  have np: "\<not> has_prefix (''127.0.0.1'' @ x) '':''" "\<not> is_port (''127.0.0.1:'' @ x)" for x
    using colon_no_port [of "''127.0.0.1:'' @ x"] by (simp_all add: has_prefix_def)
  have c: "is_port ?s \<Longrightarrow> expand_admin_listen (''127.0.0.1:'' @ ?s) = ''127.0.0.1:'' @ ?s"
    using trim_prefixed [of ?s "''127.0.0.1:''"] np(2) [of ?s] by (simp add: expand_admin_listen_def has_prefix_def Let_def)
  have k: "expand_admin_listen ?s = ?s" if "\<not> is_port ?s" "\<not> has_prefix ?s '':''"
    using that by (simp add: expand_admin_listen_def Let_def)
  have l: "expand_admin_listen (''127.0.0.1'' @ ?s) = ''127.0.0.1'' @ ?s" if h: "has_prefix ?s '':''"
  proof -
    obtain r where r: "?s = CHR '':'' # r" using h by (cases ?s) (auto simp: has_prefix_def)
    have "trim_space (''127.0.0.1'' @ ?s) = ''127.0.0.1'' @ ?s"
      using trim_space_idem [of s] by (intro trim_space_ascii_head) (simp_all add: r ascii_space_def del: trim_space_idem)
    then show ?thesis using np r by (simp add: expand_admin_listen_def Let_def has_prefix_def)
  qed
  have n: "expand_admin_listen [] = []" by (simp add: expand_admin_listen_def)
  show ?thesis
    unfolding expand_admin_listen_def [of s] Let_def using c k l n
    by (cases "?s = []"; cases "is_port ?s"; cases "has_prefix ?s '':''") simp_all
qed

text \<open>
Applying the defaults twice is harmless, except to a bracketed Edge address. Expanding an expanded listen address or Admin address again changes nothing, whatever the text was. The Edge address of an Agent is expanded twice as well, and there a bracketed IPv6 address without a port is taken for a bare host name and wrapped in another pair of brackets each time.
\<close>

theorem expand_twice:
  "expand_addr (expand_addr s l) m = expand_addr s l \<and>
   expand_admin_listen (expand_admin_listen s) = expand_admin_listen s \<and>
   edge (apply_agent_defaults (empty_config\<lparr>edge := expand_edge_addr ''[::1]''\<rparr>)) = ''[[[::1]]:8443]:8443''"
proof -
  have e: "expand_edge_addr ''[::1]'' = ''[[::1]]:8443''" "expand_edge_addr ''[[::1]]:8443'' = ''[[[::1]]:8443]:8443''"
    "trim_space ''[[::1]]:8443'' \<noteq> []"
    by (simp_all add: expand_edge_addr_def trim_space_solid solid_def ascii_space_def is_port_def atoi_def has_prefix_def
        split_host_port_def last_index_byte_def contains_byte_def join_host_port_def DefaultTunnelPort_def is_digit_def Let_def)
  have "edge (apply_agent_defaults c) = (if trim_space (edge c) \<noteq> [] then expand_edge_addr (edge c) else edge c)" for c
    by (simp add: apply_agent_defaults_def Let_def split: option.split prod.split)
  then show ?thesis using expand_addr_idem expand_admin_idem e by simp
qed

section \<open>Secrets\<close>

lemma length_hex_encode [simp]: "length (hex_encode b) = 2 * length b"
  by (induction b) (simp_all add: hex_encode_def)

lemma ascii_space_low: "ascii_space c \<Longrightarrow> of_char c < (33 :: nat)"
  by (auto simp: ascii_space_def)

lemma hex_char_solid: "n < 16 \<Longrightarrow> \<not> ascii_space (hex_char n) \<and> of_char (hex_char n) < (128 :: nat)"
  using ascii_space_low [of "hex_char n"] by (auto simp: hex_char_def)

lemma hex_encode_solid: "solid (hex_encode b)"
proof -
  have d: "unat x div 16 < 16" "unat x mod 16 < 16" for x :: byte
  proof -
    have "unat x < 2 ^ LENGTH(8)" by (rule unsigned_less)
    then show "unat x div 16 < 16" "unat x mod 16 < 16" by simp_all
  qed
  have "\<forall>c \<in> set (hex_encode b). \<not> ascii_space c \<and> of_char c < (128 :: nat)"
    using hex_char_solid d by (auto simp: hex_encode_def)
  then show ?thesis using hd_in_set [of "hex_encode b"] last_in_set [of "hex_encode b"] by (auto simp: solid_def)
qed

lemma trim_newline:
  assumes "solid s" "s \<noteq> []"
  shows "trim_space (s @ [CHR 0x0A]) = s"
proof -
  let ?b = "map rev wide_spaces"
  have "trim_lead ?b (CHR 0x0A # rev s) = trim_lead ?b (rev s)"
    by (subst trim_lead.simps) (simp add: lead_space_def ascii_space_def)
  also have "\<dots> = rev s" using assms by (intro trim_lead_id) (auto simp: solid_def hd_rev)
  finally have "trim_lead ?b (rev (s @ [CHR 0x0A])) = rev s" by simp
  moreover have "trim_lead wide_spaces (s @ [CHR 0x0A]) = s @ [CHR 0x0A]"
    using assms by (intro trim_lead_id) (auto simp: solid_def)
  ultimately show ?thesis by (simp add: trim_space_def)
qed

lemma hex_secret [simp]: "b \<noteq> [] \<Longrightarrow> trim_space (hex_encode b @ [CHR 0x0A]) = hex_encode b" "trim_space (hex_encode b) = hex_encode b"
  using trim_newline [OF hex_encode_solid] length_hex_encode [of b] trim_space_solid [OF hex_encode_solid]
  by (metis length_0_conv mult_eq_0_iff zero_neq_numeral)+

lemma token_keeps: "load_tunnel_token env fs c = Inr c' \<Longrightarrow> c' = c \<or> (\<exists>t. c' = c\<lparr>cfg_token := t\<rparr>)"
  by (auto simp: load_tunnel_token_def Let_def split: if_splits sum.splits)

lemma admin_token_keeps: "load_admin_token env fs c = Inr c' \<Longrightarrow> c' = c \<or> (\<exists>t. c' = c\<lparr>admin_token := t\<rparr>)"
  by (auto simp: load_admin_token_def Let_def split: if_splits sum.splits read_error.splits)

lemma admin_token_from_file:
  "admin_token_file c \<noteq> [] \<Longrightarrow>
   load_admin_token env fs c =
     (case read_file fs (admin_token_file c) of
        Inl NotExist \<Rightarrow> Inr c
      | Inl e \<Rightarrow> Inl (ReadAdminTokenFile e)
      | Inr s \<Rightarrow> if trim_space s = [] then Inl EmptyAdminTokenFile else Inr (c\<lparr>admin_token := trim_space s\<rparr>))"
  by (simp add: load_admin_token_def)

text \<open>A generated Admin token is found again.\<close>

lemma generated_found:
  assumes l: "load_admin_token env fs c0 = Inr c" and e: "ensure_admin_token (Some b) None c fs = (Inr c', fs')" and b: "b \<noteq> []"
  shows "load_admin_token env fs' c0 = Inr c' \<and> ensure_admin_token rnd flt c' fs' = (Inr c', fs') \<and>
     (\<forall>p. p \<noteq> admin_token_file c0 \<longrightarrow> fs' p = fs p) \<and> (c' = c \<or> c' = c\<lparr>admin_token := hex_encode b\<rparr>)"
proof (cases "admin_enabled c \<and> trim_space (admin_token c) = []")
  case False
  then have "c' = c" "fs' = fs" using e by (auto simp: ensure_admin_token_def split: if_splits)
  then show ?thesis using l False by (auto simp: ensure_admin_token_def)
next
  case True
  then have "ensure_admin_token (Some b) None c fs =
      (if admin_token_file c = [] then (Inl NoAdminToken, fs)
       else (Inr (c\<lparr>admin_token := hex_encode b\<rparr>), fs(admin_token_file c := FText (hex_encode b @ [CHR 0x0A]))))"
    by (simp add: ensure_admin_token_def random_token_def write_secret_file_def)
  then have f: "admin_token_file c \<noteq> []" and c': "c' = c\<lparr>admin_token := hex_encode b\<rparr>"
    and fs': "fs' = fs(admin_token_file c := FText (hex_encode b @ [CHR 0x0A]))"
    using e by (simp_all split: if_splits)
  have a: "admin_token_file c = admin_token_file c0" using admin_token_keeps [OF l] by auto
  have ne: "hex_encode b \<noteq> []" using b length_hex_encode [of b] by (metis length_0_conv mult_eq_0_iff zero_neq_numeral)
  have f0: "admin_token_file c0 \<noteq> []" using f a by simp
  have "c = c0"
    using l True unfolding admin_token_from_file [OF f0]
    by (auto split: sum.splits read_error.splits if_splits)
  have r: "read_file fs' (admin_token_file c0) = Inr (hex_encode b @ [CHR 0x0A])" by (simp add: fs' a read_file_def)
  have "load_admin_token env fs' c0 = Inr (c0\<lparr>admin_token := hex_encode b\<rparr>)"
    using b ne unfolding admin_token_from_file [OF f0] by (simp add: r)
  moreover have "ensure_admin_token rnd flt c' fs' = (Inr c', fs')" using ne by (simp add: ensure_admin_token_def c')
  moreover have "\<forall>p. p \<noteq> admin_token_file c0 \<longrightarrow> fs' p = fs p" by (simp add: fs' a)
  ultimately show ?thesis using c' \<open>c = c0\<close> by blast
qed

end
