(* ===== verification/ConfigCheck.thy ===== *)
theory ConfigCheck
  imports ConfigLoad Netutil
begin

text \<open>
  Validation of a configuration and the three ways to load one, \<open>internal/config/config.go\<close>.

  The code checks a configuration in place: \<open>Validate\<close> writes the normalised tunnel types back, so
  a check that succeeds returns the configuration it leaves. Go's maps of listen addresses and hosts
  are lists here.
\<close>

section \<open>Checks\<close>

fun validate_tunnels :: "nat \<Rightarrow> string list \<Rightarrow> tunnel list \<Rightarrow> config_error + tunnel list" where
  "validate_tunnels i names [] = Inr []"
| "validate_tunnels i names (t # ts) =
     (if trim_space (t_name t) = [] then Inl (NameRequired i)
      else if t_name t \<in> set names then Inl (DuplicateName (t_name t))
      else let typ0 = to_lower (trim_space (t_type t));
               typ = (if typ0 = [] then TypeTCP else typ0) in
        if typ \<noteq> TypeHTTP \<and> typ \<noteq> TypeTCP \<and> typ \<noteq> TypeUDP then Inl (UnknownType (t_name t) (t_type t))
        else rbind (validate_tunnels (i + 1) (t_name t # names) ts) (\<lambda>r. Inr (t\<lparr>t_type := typ\<rparr> # r)))"

definition validate :: "config \<Rightarrow> config_error + config" where
  "validate c =
     (if trim_space (cfg_token c) = [] then Inl TokenRequired
      else rbind (validate_tunnels 0 [] (cfg_tunnels c)) (\<lambda>ts.
        if max_sessions c < 0 then Inl NegativeMaxSessions else Inr (c\<lparr>cfg_tunnels := ts\<rparr>)))"

definition validate_public_admin :: "config \<Rightarrow> config_error option" where
  "validate_public_admin c =
     (if listen_host_is_loopback (admin_listen c) then None
      else let tok = trim_space (admin_token c) in
        if tok = ExampleAdminToken then Some AdminTokenExample
        else if length tok < MinPublicAdminToken then Some AdminTokenShort
        else if tok = trim_space (cfg_token c) then Some AdminTokenSame
        else None)"

text \<open>The TCP and the UDP loop of \<open>ValidateEdge\<close>: the public addresses taken by tunnels of that type.\<close>

fun check_ports :: "string \<Rightarrow> string list \<Rightarrow> tunnel list \<Rightarrow> config_error + string list" where
  "check_ports typ used [] = Inr used"
| "check_ports typ used (t # ts) =
     (if t_type t \<noteq> typ then check_ports typ used ts
      else if trim_space (t_public t) = [] then Inl (PublicRequired (t_name t))
      else if t_public t \<in> set used then Inl (DuplicatePublic (t_public t))
      else if trim_space (t_local t) = [] then Inl (LocalRequired (t_name t))
      else check_ports typ (t_public t # used) ts)"

definition normalize_config_host :: "string \<Rightarrow> string" where
  "normalize_config_host host0 =
     (let host = trim_space host0 in
      if host = [] then []
      else case split_host_port host of Some (h, _) \<Rightarrow> to_lower h | None \<Rightarrow> to_lower host)"

text \<open>The HTTP loop: for every public address whether it is TLS, and the hosts taken on it.\<close>

definition http_tunnel_ok :: "config \<Rightarrow> string list \<Rightarrow> tunnel \<Rightarrow> config_error option" where
  "http_tunnel_ok c tcp t =
     (if trim_space (t_public t) = [] then Some (PublicRequired (t_name t))
      else if trim_space (t_local t) = [] then Some (LocalRequired (t_name t))
      else if t_public t \<in> set tcp then Some (BothTCPAndHTTP (t_public t))
      else if t_passthrough t \<and> \<not> t_tls t then Some (PassthroughNeedsTLS (t_name t))
      else if t_http2 t \<and> \<not> t_tls t then Some (HTTP2NeedsTLS (t_name t))
      else if t_tls t \<and> \<not> t_passthrough t \<and>
              \<not> (t_cert t \<noteq> [] \<and> t_key t \<noteq> [] \<or> tls_cert c \<noteq> [] \<and> tls_key c \<noteq> [] \<or> auto_self_signed c)
        then Some (NoCertificate (t_name t))
      else if t_tls t \<and> \<not> t_passthrough t \<and> (t_cert t = []) \<noteq> (t_key t = []) then Some (CertWithoutKey (t_name t))
      else None)"

fun check_http :: "config \<Rightarrow> string list \<Rightarrow> (string \<times> bool \<times> string list) list \<Rightarrow> tunnel list \<Rightarrow> config_error + (string \<times> bool \<times> string list) list" where
  "check_http c tcp groups [] = Inr groups"
| "check_http c tcp groups (t # ts) =
     (if t_type t \<noteq> TypeHTTP then check_http c tcp groups ts
      else case http_tunnel_ok c tcp t of
        Some e \<Rightarrow> Inl e
      | None \<Rightarrow>
          let (tls, hosts) = (case map_of groups (t_public t) of Some g \<Rightarrow> g | None \<Rightarrow> (t_tls t, []));
              key = normalize_config_host (t_host t) in
          if tls \<noteq> t_tls t then Inl (MixedTLS (t_public t))
          else if key \<in> set hosts then
            (if key = [] then Inl (DuplicateCatchAll (t_public t)) else Inl (DuplicateHost key (t_public t)))
          else check_http c tcp (AList.update (t_public t) (tls, key # hosts) groups) ts)"

definition validate_listen_conflicts :: "config \<Rightarrow> config_error option" where
  "validate_listen_conflicts c =
     (let listen_port = addr_port (listen c) in
      if listen_port = [] \<or> listen_port = ''0'' then None
      else let p = addr_port (admin_listen c) in
        if p \<noteq> [] \<and> p \<noteq> ''0'' \<and> p = listen_port then Some (AdminPortConflict p)
        else case find (\<lambda>t. t_type t \<noteq> TypeUDP \<and> (let p = addr_port (t_public t) in p \<noteq> [] \<and> p \<noteq> ''0'' \<and> p = listen_port)) (cfg_tunnels c) of
          Some t \<Rightarrow> Some (TunnelPortConflict (t_name t) listen_port)
        | None \<Rightarrow> None)"

definition fail_if :: "config_error option \<Rightarrow> 'a \<Rightarrow> config_error + 'a" where
  "fail_if e x = (case e of None \<Rightarrow> Inr x | Some e \<Rightarrow> Inl e)"

definition edge_settings_ok :: "config \<Rightarrow> config_error option" where
  "edge_settings_ok c =
     (if trim_space (listen c) = [] then Some ListenRequired
      else if \<not> auto_self_signed c \<and> (tls_cert c = [] \<or> tls_key c = []) then Some TLSRequired
      else if trim_space (health_path c) \<noteq> [] \<and> \<not> has_prefix (trim_space (health_path c)) ''/'' then Some BadHealthPath
      else if trim_space (admin_listen c) \<noteq> [] then
        (if trim_space (admin_token c) = [] then Some AdminTokenRequired
         else if trim_space (allowlist_file c) = [] then Some AllowlistFileRequired
         else validate_public_admin c)
      else None)"

definition validate_edge :: "config \<Rightarrow> config_error + config" where
  "validate_edge c0 =
     rbind (validate c0) (\<lambda>c.
     rbind (fail_if (edge_settings_ok c) ()) (\<lambda>_.
     rbind (check_ports TypeTCP [] (cfg_tunnels c)) (\<lambda>tcp.
     rbind (check_ports TypeUDP [] (cfg_tunnels c)) (\<lambda>_.
     rbind (check_http c tcp [] (cfg_tunnels c)) (\<lambda>_.
     fail_if (validate_listen_conflicts c) c)))))"

definition validate_agent :: "config \<Rightarrow> config_error + config" where
  "validate_agent c0 =
     rbind (validate c0) (\<lambda>c. if trim_space (edge c) = [] then Inl EdgeRequired else Inr c)"

section \<open>Loading\<close>

definition load_config :: "(string \<Rightarrow> config option) \<Rightarrow> (string \<Rightarrow> bool) \<Rightarrow> environ \<Rightarrow> string \<Rightarrow> string \<Rightarrow> files \<Rightarrow> config_error + config" where
  "load_config yaml wide env cwd p fs =
     rbind (load_yaml yaml cwd fs p) (\<lambda>c0.
       let c1 = apply_common wide fs c0; c2 = resolve_paths (path_dir (cfg_path c1)) c1 in
       rbind (load_token env fs c2) validate)"

definition prepare_edge :: "(string \<Rightarrow> config option) \<Rightarrow> (string \<Rightarrow> bool) \<Rightarrow> environ \<Rightarrow> string \<Rightarrow> string \<Rightarrow> files \<Rightarrow> config_error + config" where
  "prepare_edge yaml wide env cwd p fs =
     rbind (load_yaml yaml cwd fs p) (\<lambda>c0.
       let c1 = apply_edge_defaults (apply_common wide fs c0); c2 = resolve_paths (path_dir (cfg_path c1)) c1 in
       load_token env fs c2)"

definition load_edge ::
  "(string \<Rightarrow> config option) \<Rightarrow> (string \<Rightarrow> bool) \<Rightarrow> environ \<Rightarrow> string \<Rightarrow> bytes option \<Rightarrow> file_state option \<Rightarrow> string \<Rightarrow> files
   \<Rightarrow> (config_error + config) \<times> files" where
  "load_edge yaml wide env cwd rnd flt p fs =
     (case prepare_edge yaml wide env cwd p fs of
        Inl e \<Rightarrow> (Inl e, fs)
      | Inr c3 \<Rightarrow>
          (case ensure_admin_token rnd flt c3 fs of
             (Inl e, fs') \<Rightarrow> (Inl e, fs')
           | (Inr c4, fs') \<Rightarrow> (validate_edge c4, fs')))"

definition load_agent :: "(string \<Rightarrow> config option) \<Rightarrow> (string \<Rightarrow> bool) \<Rightarrow> environ \<Rightarrow> string \<Rightarrow> string \<Rightarrow> files \<Rightarrow> config_error + config" where
  "load_agent yaml wide env cwd p fs =
     rbind (load_yaml yaml cwd fs p) (\<lambda>c0.
       let c1 = apply_agent_defaults (apply_common wide fs c0); c2 = resolve_paths (path_dir (cfg_path c1)) c1 in
       rbind (load_token env fs c2) validate_agent)"

section \<open>What validation accepts\<close>

text \<open>The type a tunnel ends up with.\<close>

definition checked_type :: "tunnel \<Rightarrow> tunnel" where
  "checked_type t = t\<lparr>t_type := (let typ = to_lower (trim_space (t_type t)) in if typ = [] then TypeTCP else typ)\<rparr>"

definition known_type :: "tunnel \<Rightarrow> bool" where
  "known_type t \<longleftrightarrow> t_type t \<in> {TypeHTTP, TypeTCP, TypeUDP}"

text \<open>A host on a public address.\<close>

definition http_key :: "tunnel \<Rightarrow> string \<times> string" where
  "http_key t = (t_public t, normalize_config_host (t_host t))"

text \<open>A configuration Edge can run on: \<open>same_tls\<close> is about the tunnels that share an address.\<close>

definition same_tls :: "tunnel list \<Rightarrow> bool" where
  "same_tls ts \<longleftrightarrow> (\<forall>t \<in> set ts. \<forall>u \<in> set ts. t_public t = t_public u \<longrightarrow> t_tls t = t_tls u)"

definition edge_typed :: "config \<Rightarrow> bool" where
  "edge_typed c \<longleftrightarrow>
     trim_space (cfg_token c) \<noteq> [] \<and> 0 \<le> max_sessions c \<and>
     distinct (map t_name (cfg_tunnels c)) \<and> list_all (\<lambda>t. trim_space (t_name t) \<noteq> [] \<and> known_type t) (cfg_tunnels c) \<and>
     edge_settings_ok c = None \<and>
     list_all (\<lambda>t. trim_space (t_public t) \<noteq> [] \<and> trim_space (t_local t) \<noteq> []) (cfg_tunnels c) \<and>
     distinct (map t_public (tcp_tunnels c)) \<and> distinct (map t_public (udp_tunnels c)) \<and>
     list_all (\<lambda>t. http_tunnel_ok c (map t_public (tcp_tunnels c)) t = None) (http_tunnels c) \<and>
     same_tls (http_tunnels c) \<and> distinct (map http_key (http_tunnels c)) \<and>
     validate_listen_conflicts c = None"

lemma checked_type_name [simp]: "t_name (checked_type t) = t_name t" "t_public (checked_type t) = t_public t" "t_local (checked_type t) = t_local t"
  by (simp_all add: checked_type_def)

lemma known_type_fixed: "known_type t \<Longrightarrow> checked_type t = t"
  by (auto simp: known_type_def checked_type_def TypeHTTP_def TypeTCP_def TypeUDP_def trim_space_solid solid_def ascii_space_def to_lower_def lower_char_def Let_def)

lemma validate_tunnels_Inr:
  "validate_tunnels i names ts = Inr r \<longleftrightarrow>
     r = map checked_type ts \<and> distinct (map t_name ts) \<and> set (map t_name ts) \<inter> set names = {} \<and>
     list_all (\<lambda>t. trim_space (t_name t) \<noteq> [] \<and> known_type (checked_type t)) ts"
proof (induction i names ts arbitrary: r rule: validate_tunnels.induct)
  case (2 i names t ts)
  have k: "known_type (checked_type t) \<longleftrightarrow>
      \<not> ((if to_lower (trim_space (t_type t)) = [] then TypeTCP else to_lower (trim_space (t_type t))) \<noteq> TypeHTTP \<and>
         (if to_lower (trim_space (t_type t)) = [] then TypeTCP else to_lower (trim_space (t_type t))) \<noteq> TypeTCP \<and>
         (if to_lower (trim_space (t_type t)) = [] then TypeTCP else to_lower (trim_space (t_type t))) \<noteq> TypeUDP)"
    by (auto simp: known_type_def checked_type_def Let_def)
  show ?case
  proof (cases "trim_space (t_name t) \<noteq> [] \<and> t_name t \<notin> set names \<and> known_type (checked_type t)")
    case True
    then have "validate_tunnels i names (t # ts) = rbind (validate_tunnels (i + 1) (t_name t # names) ts) (\<lambda>r. Inr (checked_type t # r))"
      using k by (auto simp: Let_def checked_type_def split: if_splits)
    then show ?thesis using 2 True k by (auto simp: Let_def)
  next
    case False
    then have "\<not> (\<exists>r. validate_tunnels i names (t # ts) = Inr r)" using k by (auto simp: Let_def)
    then show ?thesis using False by auto
  qed
qed auto

lemma check_ports_Inr:
  "check_ports ty used ts = Inr r \<longleftrightarrow>
     (let fs = filter (\<lambda>t. t_type t = ty) ts in
      r = rev (map t_public fs) @ used \<and> distinct (map t_public fs) \<and> set (map t_public fs) \<inter> set used = {} \<and>
      list_all (\<lambda>t. trim_space (t_public t) \<noteq> [] \<and> trim_space (t_local t) \<noteq> []) fs)"
  by (induction ty used ts arbitrary: r rule: check_ports.induct) (auto simp: Let_def)

lemma http_tunnel_ok_set: "set a = set b \<Longrightarrow> http_tunnel_ok c a t = http_tunnel_ok c b t"
  by (simp add: http_tunnel_ok_def)

lemma http_tunnel_ok_filled: "http_tunnel_ok c tcp t = None \<Longrightarrow> trim_space (t_public t) \<noteq> [] \<and> trim_space (t_local t) \<noteq> []"
  by (simp add: http_tunnel_ok_def split: if_splits)

text \<open>What the groups so far demand of a tunnel.\<close>

definition fits :: "(string \<times> bool \<times> string list) list \<Rightarrow> tunnel \<Rightarrow> bool" where
  "fits groups t \<longleftrightarrow>
     (case map_of groups (t_public t) of None \<Rightarrow> True
      | Some (tls, hosts) \<Rightarrow> tls = t_tls t \<and> normalize_config_host (t_host t) \<notin> set hosts)"

lemma same_tls_Cons:
  "same_tls (t # ts) \<longleftrightarrow> same_tls ts \<and> (\<forall>u \<in> set ts. t_public u = t_public t \<longrightarrow> t_tls u = t_tls t)"
  by (auto simp: same_tls_def)

lemma list_all_new_key:
  "(\<And>u. G u \<longleftrightarrow> F u \<and> Q u \<and> k u \<noteq> a) \<Longrightarrow>
   list_all (\<lambda>u. P u \<and> G u) fs \<longleftrightarrow> list_all (\<lambda>u. P u \<and> F u) fs \<and> (\<forall>u \<in> set fs. Q u) \<and> a \<notin> k ` set fs"
  by (auto simp: list_all_iff)

lemma check_http_Inr:
  "(\<exists>r. check_http c tcp groups ts = Inr r) \<longleftrightarrow>
     (let fs = filter (\<lambda>t. t_type t = TypeHTTP) ts in
      list_all (\<lambda>t. http_tunnel_ok c tcp t = None \<and> fits groups t) fs \<and> same_tls fs \<and> distinct (map http_key fs))"
proof (induction c tcp groups ts rule: check_http.induct)
  case (2 c tcp groups t ts)
  let ?g = "case map_of groups (t_public t) of Some g \<Rightarrow> g | None \<Rightarrow> (t_tls t, [])"
  let ?key = "normalize_config_host (t_host t)"
  let ?groups = "AList.update (t_public t) (fst ?g, ?key # snd ?g) groups"
  show ?case
  proof (cases "t_type t = TypeHTTP \<and> http_tunnel_ok c tcp t = None")
    case False
    then show ?thesis using 2(1) by (cases "t_type t = TypeHTTP") (auto simp: Let_def)
  next
    case True
    have step: "check_http c tcp groups (t # ts) =
        (if fst ?g \<noteq> t_tls t then Inl (MixedTLS (t_public t))
         else if ?key \<in> set (snd ?g) then
            (if ?key = [] then Inl (DuplicateCatchAll (t_public t)) else Inl (DuplicateHost ?key (t_public t)))
         else check_http c tcp ?groups ts)"
      using True by (simp add: Let_def case_prod_beta)
    have f: "fits groups t \<longleftrightarrow> fst ?g = t_tls t \<and> ?key \<notin> set (snd ?g)"
      by (simp add: fits_def split: option.split prod.split)
    have ih: "(\<exists>r. check_http c tcp ?groups ts = Inr r) \<longleftrightarrow>
       (let fs = filter (\<lambda>t. t_type t = TypeHTTP) ts in
        list_all (\<lambda>t. http_tunnel_ok c tcp t = None \<and> fits ?groups t) fs \<and> same_tls fs \<and> distinct (map http_key fs))"
      if "fits groups t"
      by (rule 2(2), use True in simp, use True in simp, rule refl, simp, rule refl, use that f in simp, use that f in simp)
    have fit: "fits ?groups u \<longleftrightarrow> fits groups u \<and> (t_public u = t_public t \<longrightarrow> t_tls u = t_tls t) \<and> http_key u \<noteq> http_key t"
      if "fits groups t" for u
      using that f by (cases "t_public u = t_public t") (auto simp: fits_def http_key_def split: option.splits prod.splits)
    show ?thesis
    proof (cases "fits groups t")
      case False
      then have "\<not> (\<exists>r. check_http c tcp groups (t # ts) = Inr r)" using step f by auto
      then show ?thesis using False True by (simp add: Let_def)
    next
      case fits: True
      have "(\<exists>r. check_http c tcp groups (t # ts) = Inr r) \<longleftrightarrow> (\<exists>r. check_http c tcp ?groups ts = Inr r)"
        using step f fits by simp
      also have "\<dots> \<longleftrightarrow> (let fs = filter (\<lambda>t. t_type t = TypeHTTP) (t # ts) in
          list_all (\<lambda>t. http_tunnel_ok c tcp t = None \<and> fits groups t) fs \<and> same_tls fs \<and> distinct (map http_key fs))"
      proof -
        define fs where "fs = filter (\<lambda>t. t_type t = TypeHTTP) ts"
        have "filter (\<lambda>t. t_type t = TypeHTTP) (t # ts) = t # fs" using True by (simp add: fs_def)
        moreover have "list_all (\<lambda>u. http_tunnel_ok c tcp u = None \<and> fits ?groups u) fs \<longleftrightarrow>
            list_all (\<lambda>u. http_tunnel_ok c tcp u = None \<and> fits groups u) fs \<and>
            (\<forall>u \<in> set fs. t_public u = t_public t \<longrightarrow> t_tls u = t_tls t) \<and> http_key t \<notin> http_key ` set fs"
          by (rule list_all_new_key) (use fit [OF fits] in blast)
        ultimately show ?thesis
          unfolding ih [OF fits] Let_def fs_def [symmetric] using True fits by (simp add: same_tls_Cons) blast
      qed
      finally show ?thesis .
    qed
  qed
qed (simp add: same_tls_def)

lemma validate_Inr:
  "validate c0 = Inr c \<longleftrightarrow>
     c = c0\<lparr>cfg_tunnels := map checked_type (cfg_tunnels c0)\<rparr> \<and> trim_space (cfg_token c) \<noteq> [] \<and> 0 \<le> max_sessions c \<and>
     distinct (map t_name (cfg_tunnels c)) \<and> list_all (\<lambda>t. trim_space (t_name t) \<noteq> [] \<and> known_type t) (cfg_tunnels c)"
  by (auto simp: validate_def validate_tunnels_Inr comp_def list.pred_map split: if_splits)

lemma fail_if_Inr [simp]: "fail_if e x = Inr y \<longleftrightarrow> e = None \<and> y = x"
  by (auto simp: fail_if_def split: option.split)

text \<open>Every tunnel has one of the three types, so checking each type checks all.\<close>

lemma filled_by_type:
  assumes "list_all known_type ts"
  shows "list_all P ts \<longleftrightarrow> list_all P (filter (\<lambda>t. t_type t = TypeTCP) ts) \<and> list_all P (filter (\<lambda>t. t_type t = TypeUDP) ts) \<and>
     list_all P (filter (\<lambda>t. t_type t = TypeHTTP) ts)"
  using assms by (induction ts) (auto simp: known_type_def)

lemma edge_checks:
  assumes k: "list_all known_type (cfg_tunnels c)"
  shows "(\<exists>tcp udp g. check_ports TypeTCP [] (cfg_tunnels c) = Inr tcp \<and> check_ports TypeUDP [] (cfg_tunnels c) = Inr udp \<and>
            check_http c tcp [] (cfg_tunnels c) = Inr g) \<longleftrightarrow>
     list_all (\<lambda>t. trim_space (t_public t) \<noteq> [] \<and> trim_space (t_local t) \<noteq> []) (cfg_tunnels c) \<and>
     distinct (map t_public (tcp_tunnels c)) \<and> distinct (map t_public (udp_tunnels c)) \<and>
     list_all (\<lambda>t. http_tunnel_ok c (map t_public (tcp_tunnels c)) t = None) (http_tunnels c) \<and>
     same_tls (http_tunnels c) \<and> distinct (map http_key (http_tunnels c))" (is "?L \<longleftrightarrow> ?R")
proof -
  let ?F = "\<lambda>t. trim_space (t_public t) \<noteq> [] \<and> trim_space (t_local t) \<noteq> []"
  have p: "check_ports TypeTCP [] (cfg_tunnels c) = Inr r \<longleftrightarrow>
      r = rev (map t_public (tcp_tunnels c)) \<and> distinct (map t_public (tcp_tunnels c)) \<and> list_all ?F (tcp_tunnels c)"
    "check_ports TypeUDP [] (cfg_tunnels c) = Inr r \<longleftrightarrow>
      r = rev (map t_public (udp_tunnels c)) \<and> distinct (map t_public (udp_tunnels c)) \<and> list_all ?F (udp_tunnels c)" for r
    by (simp_all add: check_ports_Inr tcp_tunnels_def udp_tunnels_def Let_def)
  have "fits [] t" for t by (simp add: fits_def)
  then have h: "(\<exists>g. check_http c tcp [] (cfg_tunnels c) = Inr g) \<longleftrightarrow>
      list_all (\<lambda>t. http_tunnel_ok c tcp t = None) (http_tunnels c) \<and> same_tls (http_tunnels c) \<and> distinct (map http_key (http_tunnels c))" for tcp
    by (simp add: check_http_Inr http_tunnels_def Let_def)
  have s: "http_tunnel_ok c (rev l) t = http_tunnel_ok c l t" for l t by (rule http_tunnel_ok_set) simp
  have f: "list_all ?F (http_tunnels c)" if "list_all (\<lambda>t. http_tunnel_ok c l t = None) (http_tunnels c)" for l
    using that http_tunnel_ok_filled by (fastforce simp: list_all_iff)
  have a: "list_all ?F (cfg_tunnels c) \<longleftrightarrow> list_all ?F (tcp_tunnels c) \<and> list_all ?F (udp_tunnels c) \<and> list_all ?F (http_tunnels c)"
    using filled_by_type [OF k] by (simp add: tcp_tunnels_def udp_tunnels_def http_tunnels_def)
  have "?L \<longleftrightarrow> (\<exists>tcp. check_ports TypeTCP [] (cfg_tunnels c) = Inr tcp \<and> (\<exists>udp. check_ports TypeUDP [] (cfg_tunnels c) = Inr udp) \<and>
      (\<exists>g. check_http c tcp [] (cfg_tunnels c) = Inr g))"
    by blast
  also have "\<dots> \<longleftrightarrow> ?R"
    unfolding p h a using f [of "map t_public (tcp_tunnels c)"] by (simp add: s) blast
  finally show ?thesis .
qed

lemma validate_edge_Inr:
  "validate_edge c0 = Inr c \<longleftrightarrow> c = c0\<lparr>cfg_tunnels := map checked_type (cfg_tunnels c0)\<rparr> \<and> edge_typed c"
proof -
  have k: "list_all known_type ts" if "list_all (\<lambda>t. trim_space (t_name t) \<noteq> [] \<and> known_type t) ts" for ts
    using that by (simp add: list_all_iff)
  have "validate_edge c0 = Inr c \<longleftrightarrow> validate c0 = Inr c \<and> edge_settings_ok c = None \<and> validate_listen_conflicts c = None \<and>
      (\<exists>tcp udp g. check_ports TypeTCP [] (cfg_tunnels c) = Inr tcp \<and> check_ports TypeUDP [] (cfg_tunnels c) = Inr udp \<and>
            check_http c tcp [] (cfg_tunnels c) = Inr g)"
    by (auto simp: validate_edge_def)
  also have "\<dots> \<longleftrightarrow> c = c0\<lparr>cfg_tunnels := map checked_type (cfg_tunnels c0)\<rparr> \<and> edge_typed c"
    unfolding validate_Inr edge_typed_def using edge_checks [of c, OF k] by blast
  finally show ?thesis .
qed


section \<open>Loading\<close>

lemma load_edge_steps:
  assumes "load_edge yaml wide env cwd rnd flt p fs = (Inr c, fs')"
  obtains c0 c2 ct c3 c4 where
    "load_yaml yaml cwd fs p = Inr c0"
    "c2 = (let c1 = apply_edge_defaults (apply_common wide fs c0) in resolve_paths (path_dir (cfg_path c1)) c1)"
    "load_tunnel_token env fs c2 = Inr ct" "load_admin_token env fs ct = Inr c3"
    "ensure_admin_token rnd flt c3 fs = (Inr c4, fs')"
    "c = c4\<lparr>cfg_tunnels := map checked_type (cfg_tunnels c4)\<rparr>" "edge_typed c"
  using assms
  by (auto simp: load_edge_def prepare_edge_def load_token_def Let_def validate_edge_Inr split: sum.splits prod.splits)

lemma ensure_keeps: "ensure_admin_token rnd flt c fs = (Inr c', fs') \<Longrightarrow> c' = c \<or> (\<exists>t. c' = c\<lparr>admin_token := t\<rparr>)"
  by (auto simp: ensure_admin_token_def split: if_splits option.splits prod.splits bool.splits)

text \<open>What happens to the settings after the paths are resolved: only the tokens and the tunnel types change.\<close>

lemma load_edge_keeps:
  assumes "load_edge yaml wide env cwd rnd flt p fs = (Inr c, fs')"
  obtains c0 c2 where "load_yaml yaml cwd fs p = Inr c0"
    "c2 = (let c1 = apply_edge_defaults (apply_common wide fs c0) in resolve_paths (path_dir (cfg_path c1)) c1)"
    "admin_listen c = admin_listen c2" "token_file c = token_file c2" "admin_token_file c = admin_token_file c2" "edge_typed c"
proof (rule load_edge_steps [OF assms])
  fix c0 c2 ct c3 c4
  assume a: "load_yaml yaml cwd fs p = Inr c0" "c2 = (let c1 = apply_edge_defaults (apply_common wide fs c0) in resolve_paths (path_dir (cfg_path c1)) c1)"
    "load_tunnel_token env fs c2 = Inr ct" "load_admin_token env fs ct = Inr c3"
    "ensure_admin_token rnd flt c3 fs = (Inr c4, fs')" "c = c4\<lparr>cfg_tunnels := map checked_type (cfg_tunnels c4)\<rparr>" "edge_typed c"
  have "admin_listen c = admin_listen c2 \<and> token_file c = token_file c2 \<and> admin_token_file c = admin_token_file c2"
    using token_keeps [OF a(3)] admin_token_keeps [OF a(4)] ensure_keeps [OF a(5)] a(6) by auto
  then show ?thesis using that a by blast
qed

lemma loopback_port: "CHR '':'' \<notin> set q \<Longrightarrow> CHR ''['' \<notin> set q \<Longrightarrow> CHR '']'' \<notin> set q \<Longrightarrow> solid q \<Longrightarrow> q \<noteq> [] \<Longrightarrow>
  listen_host_is_loopback (''127.0.0.1:'' @ q)"
proof -
  assume q: "CHR '':'' \<notin> set q" "CHR ''['' \<notin> set q" "CHR '']'' \<notin> set q" "solid q" "q \<noteq> []"
  have t: "trim_space (''127.0.0.1:'' @ q) = ''127.0.0.1:'' @ q" using solid_snoc [OF q(4,5), of "''127.0.0.1:''"] by (simp add: trim_space_solid del: append_Cons)
  have "split_host_port (''127.0.0.1'' @ '':'' @ q) = Some (''127.0.0.1'', q)"
    using q last_index_byte_append [OF q(1), of "''127.0.0.1''"] by (simp add: split_host_port_def contains_byte_def)
  moreover have "parse_ip ''127.0.0.1'' \<noteq> [] \<and> is_loopback (parse_ip ''127.0.0.1'')" by code_simp
  ultimately show ?thesis unfolding listen_host_is_loopback_def t by (simp add: Let_def)
qed

lemma port_no_bracket: "is_port s \<Longrightarrow> CHR ''['' \<notin> set s \<and> CHR '']'' \<notin> set s"
proof -
  assume p: "is_port s"
  have "set s \<subseteq> {CHR ''-'', CHR ''+''} \<union> {c. is_digit c}"
    using p by (cases s) (auto simp: is_port_def atoi_def Let_def has_prefix_def list_all_iff split: option.splits if_splits)
  then show ?thesis by (auto simp: is_digit_def)
qed

text \<open>A blank Admin address, or a bare port, binds the loopback interface.\<close>

lemma admin_default_loopback:
  assumes "admin_enable c0 \<noteq> Some False" "trim_space (admin_listen c0) = [] \<or> is_port (trim_space (admin_listen c0))"
  shows "listen_host_is_loopback (admin_listen (apply_edge_defaults (apply_common wide fs c0)))"
proof -
  have d: "listen_host_is_loopback DefaultAdminListen" by code_simp
  have e: "admin_enable (apply_common wide fs c0) = admin_enable c0"
    "admin_listen (apply_common wide fs c0) = (if trim_space (admin_listen c0) \<noteq> [] then expand_admin_listen (admin_listen c0) else admin_listen c0)"
    by (simp_all add: apply_common_def Let_def common_addrs_def)
  have f: "admin_listen (apply_edge_defaults c) =
      (if admin_enable c = Some False then [] else if trim_space (admin_listen c) = [] then DefaultAdminListen else expand_admin_listen (admin_listen c))" for c
    by (simp add: apply_edge_defaults_def Let_def) (simp add: default_admin_def default_listen_def)
  show ?thesis
  proof (cases "trim_space (admin_listen c0) = []")
    case True
    then show ?thesis using assms(1) d e f by simp
  next
    case False
    let ?q = "trim_space (admin_listen c0)"
    have q: "is_port ?q" using assms(2) False by simp
    then have x: "expand_admin_listen (admin_listen c0) = ''127.0.0.1:'' @ ?q" using False by (simp add: expand_admin_listen_def Let_def)
    then have "trim_space (''127.0.0.1:'' @ ?q) \<noteq> []" using trim_prefixed [OF q, of "''127.0.0.1:''"] by simp
    then have "admin_listen (apply_edge_defaults (apply_common wide fs c0)) = ''127.0.0.1:'' @ ?q"
      using assms(1) e f x False expand_admin_idem [of "admin_listen c0"] by simp
    then show ?thesis using loopback_port [of ?q] is_port_chars [OF q] port_no_bracket [OF q] False by simp
  qed
qed

lemma typed_admin_guard:
  assumes "edge_typed c" "admin_enabled c"
  shows "trim_space (admin_token c) \<noteq> [] \<and> trim_space (allowlist_file c) \<noteq> [] \<and>
     (listen_host_is_loopback (admin_listen c) \<or>
      16 \<le> length (trim_space (admin_token c)) \<and> trim_space (admin_token c) \<noteq> ExampleAdminToken \<and>
      trim_space (admin_token c) \<noteq> trim_space (cfg_token c))"
proof -
  have "trim_space (admin_listen c) \<noteq> []" "edge_settings_ok c = None"
    using assms by (simp_all add: admin_enabled_def edge_typed_def split: if_splits)
  then show ?thesis
    by (simp add: edge_settings_ok_def validate_public_admin_def Let_def MinPublicAdminToken_def split: if_splits)
qed

lemma validated_again:
  assumes "edge_typed c"
  shows "validate_edge c = Inr c"
proof -
  have t: "to_lower (trim_space TypeTCP) = TypeTCP" "to_lower (trim_space TypeHTTP) = TypeHTTP" "to_lower (trim_space TypeUDP) = TypeUDP"
    by code_simp+
  have "checked_type u = u" if "u \<in> set (cfg_tunnels c)" for u
  proof -
    have "known_type u" using assms that by (simp add: edge_typed_def list_all_iff)
    then have "to_lower (trim_space (t_type u)) = t_type u" "t_type u \<noteq> []" using t by (auto simp: known_type_def)
    then show ?thesis by (simp add: checked_type_def)
  qed
  then have "map checked_type (cfg_tunnels c) = cfg_tunnels c" by (simp add: map_idI)
  then show ?thesis using assms by (simp add: validate_edge_Inr)
qed

text \<open>
The Admin API is never open to a guess. Whatever configuration Edge starts with has the well-formedness of the validation; if its Admin API is on, it has a token, and either listens on the loopback interface only or has a token of at least 16 characters that is neither the example token nor the tunnel token. A file that leaves the Admin address out or gives only a port gets the loopback interface.
\<close>

theorem edge_admin_guarded:
  assumes "load_edge yaml wide env cwd rnd flt p fs = (Inr c, fs')"
  shows "edge_typed c \<and>
     (admin_enabled c \<longrightarrow> trim_space (admin_token c) \<noteq> [] \<and> trim_space (allowlist_file c) \<noteq> [] \<and>
        (listen_host_is_loopback (admin_listen c) \<or>
         16 \<le> length (trim_space (admin_token c)) \<and> trim_space (admin_token c) \<noteq> ExampleAdminToken \<and>
         trim_space (admin_token c) \<noteq> trim_space (cfg_token c))) \<and>
     (\<forall>c0. load_yaml yaml cwd fs p = Inr c0 \<and> admin_enable c0 \<noteq> Some False \<and>
        (trim_space (admin_listen c0) = [] \<or> is_port (trim_space (admin_listen c0))) \<longrightarrow> listen_host_is_loopback (admin_listen c))"
proof (rule load_edge_keeps [OF assms])
  fix c0 c2
  assume a: "load_yaml yaml cwd fs p = Inr c0" "c2 = (let c1 = apply_edge_defaults (apply_common wide fs c0) in resolve_paths (path_dir (cfg_path c1)) c1)"
    "admin_listen c = admin_listen c2" "token_file c = token_file c2" "admin_token_file c = admin_token_file c2" "edge_typed c"
  note typed_admin_guard [OF a(6)]
  moreover have "admin_listen c = admin_listen (apply_edge_defaults (apply_common wide fs c0))"
    using a(2,3) by (simp add: Let_def resolve_paths_def)
  ultimately show ?thesis using a(1,6) admin_default_loopback [of c0 wide fs] by auto
qed

text \<open>An example: the file names a token, the tunnel port, the Admin port and one tunnel.\<close>

definition example_file :: config where
  "example_file =
     empty_config\<lparr>listen := ''80'', cfg_token := ''t'', admin_listen := ''90'',
       cfg_tunnels := [\<lparr>t_name = [], t_type = [], t_public = ''22'', t_tls = False, t_passthrough = False, t_http2 = False,
                        t_local = ''23'', t_host = [], t_cert = [], t_key = []\<rparr>]\<rparr>"

definition example_files :: files where
  "example_files q = (if q = ''/edge.yaml'' then FText [] else FAbsent)"

definition example_common :: config where
  "example_common = example_file\<lparr>cfg_path := ''/edge.yaml'', listen := '':80'', admin_listen := ''127.0.0.1:90'',
     cfg_tunnels := [\<lparr>t_name = ''tcp-22'', t_type = ''tcp'', t_public = '':22'', t_tls = False, t_passthrough = False, t_http2 = False,
                      t_local = ''127.0.0.1:23'', t_host = [], t_cert = [], t_key = []\<rparr>]\<rparr>"

definition example_edge :: config where
  "example_edge = example_common\<lparr>admin_token_file := ''/admin.token'', allowlist_file := ''/allowlist.json'',
     denylist_file := ''/denylist.json'', auto_self_signed := True, tls_cert := ''/certs/edge.crt'', tls_key := ''/certs/edge.key''\<rparr>"

definition example_result :: config where
  "example_result = example_edge\<lparr>admin_token := ''0102''\<rparr>"

definition example_written :: files where
  "example_written = example_files(''/admin.token'' := FText (''0102'' @ [CHR 0x0A]))"

lemma example_steps:
  "load_yaml (\<lambda>_. Some example_file) ''/'' example_files ''edge.yaml'' = Inr (example_file\<lparr>cfg_path := ''/edge.yaml''\<rparr>)"
  "apply_common (\<lambda>_. False) example_files (example_file\<lparr>cfg_path := ''/edge.yaml''\<rparr>) = example_common"
  "apply_edge_defaults example_common = example_edge" "cfg_path example_edge = ''/edge.yaml''" "path_dir ''/edge.yaml'' = ''/''"
  "resolve_paths ''/'' example_edge = example_edge"
  "load_token (\<lambda>_. []) example_files example_edge = Inr example_edge"
  by code_simp+

lemma example_ensure: "ensure_admin_token (Some [1, 2]) None example_edge example_files = (Inr example_result, example_written)"
proof -
  have h: "hex_encode [1, 2] = ''0102''" "admin_enabled example_edge" "admin_token example_edge = []" "admin_token_file example_edge = ''/admin.token''"
    by code_simp+
  then show ?thesis
    by (simp add: ensure_admin_token_def random_token_def write_secret_file_def example_result_def example_written_def)
qed

lemma example_valid: "validate_edge example_result = Inr example_result"
  by code_simp

lemma example_load:
  "load_edge (\<lambda>_. Some example_file) (\<lambda>_. False) (\<lambda>_. []) ''/'' (Some [1, 2]) None ''edge.yaml'' example_files =
     (Inr example_result, example_written)"
  by (simp add: load_edge_def prepare_edge_def example_steps example_ensure example_valid Let_def)

theorem edge_admin_guarded_witness:
  "edge_typed example_result \<and> listen_host_is_loopback (admin_listen example_result)"
proof -
  have "load_yaml (\<lambda>_. Some example_file) ''/'' example_files ''edge.yaml'' = Inr (example_file\<lparr>cfg_path := ''/edge.yaml''\<rparr>)"
    "admin_enable (example_file\<lparr>cfg_path := ''/edge.yaml''\<rparr>) \<noteq> Some False"
    "is_port (trim_space (admin_listen (example_file\<lparr>cfg_path := ''/edge.yaml''\<rparr>)))"
    by code_simp+
  then show ?thesis using edge_admin_guarded [OF example_load] by blast
qed

section \<open>Loading again\<close>

lemma load_yaml_cong: "fs' (path_abs cwd p) = fs (path_abs cwd p) \<Longrightarrow> load_yaml yaml cwd fs' p = load_yaml yaml cwd fs p"
  by (simp add: load_yaml_def read_file_def Let_def)

lemma apply_common_cong:
  "fs' (path_join [path_dir (cfg_path c), DefaultTokenFile]) = fs (path_join [path_dir (cfg_path c), DefaultTokenFile]) \<Longrightarrow>
   apply_common wide fs' c = apply_common wide fs c"
  by (simp add: apply_common_def common_token_def stat_file_def Let_def)

lemma load_tunnel_token_cong:
  "fs' (token_file c) = fs (token_file c) \<Longrightarrow> load_tunnel_token env fs' c = load_tunnel_token env fs c"
  by (simp add: load_tunnel_token_def read_file_def Let_def)

lemma load_yaml_path: "load_yaml yaml cwd fs p = Inr c \<Longrightarrow> cfg_path c = path_abs cwd p"
  by (auto simp: load_yaml_def Let_def split: sum.splits option.splits)

text \<open>
C14: A restart finds the same configuration. When Edge has loaded a configuration, having written a generated Admin token if there was none, loading again from the files it left gives the same configuration, the same token, and writes nothing, whatever the random source would give; provided the token file is not one of the files it reads first.
\<close>

theorem edge_restart_same:
  assumes l: "load_edge yaml wide env cwd (Some b) None p fs = (Inr c, fs')" and b: "b \<noteq> []"
    and d: "admin_token_file c \<notin> {path_abs cwd p, token_file c, path_join [path_dir (path_abs cwd p), DefaultTokenFile]}"
  shows "load_edge yaml wide env cwd rnd flt p fs' = (Inr c, fs')"
proof (rule load_edge_steps [OF l])
  fix c0 c2 ct c3 c4
  assume a: "load_yaml yaml cwd fs p = Inr c0" "c2 = (let c1 = apply_edge_defaults (apply_common wide fs c0) in resolve_paths (path_dir (cfg_path c1)) c1)"
    "load_tunnel_token env fs c2 = Inr ct" "load_admin_token env fs ct = Inr c3"
    "ensure_admin_token (Some b) None c3 fs = (Inr c4, fs')" "c = c4\<lparr>cfg_tunnels := map checked_type (cfg_tunnels c4)\<rparr>" "edge_typed c"
  note g = generated_found [OF a(4,5) b, of rnd flt]
  have f: "admin_token_file ct = admin_token_file c" "token_file c2 = token_file c"
    using token_keeps [OF a(3)] admin_token_keeps [OF a(4)] ensure_keeps [OF a(5)] a(6) by auto
  have same: "fs' q = fs q" if "q \<noteq> admin_token_file c" for q using g that f(1) by simp
  have "load_yaml yaml cwd fs' p = Inr c0" using a(1) same d by (metis insertCI load_yaml_cong)
  moreover have "apply_common wide fs' c0 = apply_common wide fs c0"
    using d by (intro apply_common_cong same) (auto simp: load_yaml_path [OF a(1)])
  moreover have "load_tunnel_token env fs' c2 = Inr ct"
    using load_tunnel_token_cong [of fs' c2 fs env] same [of "token_file c2"] a(3) d f(2) by auto
  moreover have "validate_edge c4 = Inr c" using a(6,7) by (simp add: validate_edge_Inr)
  ultimately show ?thesis
    using g a(2) by (simp add: load_edge_def prepare_edge_def load_token_def Let_def)
qed

theorem edge_restart_same_witness:
  "load_edge (\<lambda>_. Some example_file) (\<lambda>_. False) (\<lambda>_. []) ''/'' None (Some FDenied) ''edge.yaml'' example_written = (Inr example_result, example_written)"
proof -
  have "admin_token_file example_result = ''/admin.token''" "token_file example_result = []" "path_abs ''/'' ''edge.yaml'' = ''/edge.yaml''"
    "path_join [path_dir ''/edge.yaml'', DefaultTokenFile] = ''/token''"
    by code_simp+
  then show ?thesis by (intro edge_restart_same [OF example_load]) simp_all
qed

end
