(* ===== verification/DiskFile.thy ===== *)
theory DiskFile
  imports Prelude
begin

text \<open>
  Saving a document atomically, as the denylist (\<open>ban/store.go\<close>, \<open>persistLocked\<close>) and the
  allowlist (\<open>acl/file.go\<close>, \<open>SaveFile\<close>) do it: make the directory, create a temporary file in
  it, write, sync, close, rename over the target, and remove the temporary file on any error.

  The path holds a document of type \<open>'d\<close> (what \<open>json.Unmarshal\<close> decodes the text to), a text
  that does not decode, an unreadable file, or nothing. The directory also has the temporary
  files, each with the document written to it so far.
\<close>

datatype 'd content = Absent | Unreadable | Malformed | Doc 'd

record 'd disk =
  target :: "'d content"
  temps :: "'d option list"

datatype fs_op = MkdirAll | CreateTemp | WriteTemp | SyncTemp | CloseTemp | RenameTemp

fun fs_step :: "fs_op \<Rightarrow> 'd \<Rightarrow> 'd disk \<Rightarrow> 'd disk" where
  "fs_step MkdirAll d k = k"
| "fs_step CreateTemp d k = k\<lparr>temps := None # temps k\<rparr>"
| "fs_step WriteTemp d k = k\<lparr>temps := Some d # tl (temps k)\<rparr>"
| "fs_step SyncTemp d k = k"
| "fs_step CloseTemp d k = k"
| "fs_step RenameTemp d k =
     (case temps k of Some x # ts \<Rightarrow> k\<lparr>target := Doc x, temps := ts\<rparr> | _ \<Rightarrow> k)"

definition save_ops :: "fs_op list" where
  "save_ops = [MkdirAll, CreateTemp, WriteTemp, SyncTemp, CloseTemp, RenameTemp]"

text \<open>A fault is the operation that fails, \<open>None\<close> when all succeed. The deferred \<open>os.Remove\<close>
  is registered once the temporary file exists.\<close>

fun run_ops :: "fs_op option \<Rightarrow> 'd \<Rightarrow> fs_op list \<Rightarrow> 'd disk \<Rightarrow> (fs_op + unit) \<times> 'd disk" where
  "run_ops flt d [] k = (Inr (), k)"
| "run_ops flt d (p # ps) k =
     (if flt = Some p then (Inl p, k) else run_ops flt d ps (fs_step p d k))"

definition remove_temp :: "'d disk \<Rightarrow> 'd disk" where
  "remove_temp k = k\<lparr>temps := tl (temps k)\<rparr>"

definition atomic_save :: "fs_op option \<Rightarrow> 'd \<Rightarrow> 'd disk \<Rightarrow> (fs_op + unit) \<times> 'd disk" where
  "atomic_save flt d k =
     (case run_ops flt d save_ops k of
        (Inr u, k') \<Rightarrow> (Inr u, k')
      | (Inl p, k') \<Rightarrow> (Inl p, if p \<in> {MkdirAll, CreateTemp} then k' else remove_temp k'))"

text \<open>What is on disk when the process dies after the first \<open>n\<close> operations.\<close>

definition crash_after :: "nat \<Rightarrow> 'd \<Rightarrow> 'd disk \<Rightarrow> 'd disk" where
  "crash_after n d k = fold (\<lambda>p. fs_step p d) (take n save_ops) k"

lemma atomic_save_cases:
  "atomic_save flt d k =
     (case flt of None \<Rightarrow> (Inr (), k\<lparr>target := Doc d\<rparr>) | Some p \<Rightarrow> (Inl p, k))"
proof (cases flt)
  case (Some p)
  then show ?thesis by (cases p) (simp_all add: atomic_save_def save_ops_def remove_temp_def)
qed (simp add: atomic_save_def save_ops_def)

lemma crash_after_target: "target (crash_after n d k) = target k \<or> target (crash_after n d k) = Doc d"
proof -
  have "n = 0 \<or> n = 1 \<or> n = 2 \<or> n = 3 \<or> n = 4 \<or> n = 5 \<or> 6 \<le> n" by arith
  then show ?thesis
    by (elim disjE) (simp_all add: crash_after_def save_ops_def numeral_eq_Suc)
qed

text \<open>
A save is all or nothing. When every file operation succeeds the target holds the new document; when one fails the call returns that error, the target is what it was and no temporary file is left behind; and if the process dies between any two operations the target still holds the old or the new document, never a part of one.
\<close>

theorem save_is_atomic:
  "fst (atomic_save None d k) = Inr () \<and> target (snd (atomic_save None d k)) = Doc d \<and>
   atomic_save (Some p) d k = (Inl p, k) \<and>
   temps (snd (atomic_save flt d k)) = temps k \<and>
   target (crash_after n d k) \<in> {target k, Doc d} \<and> target (crash_after 6 d k) = Doc d"
proof -
  have "target (crash_after 6 d k) = Doc d"
    by (simp add: crash_after_def save_ops_def)
  then show ?thesis
    using crash_after_target [of n d k] by (auto simp: atomic_save_cases split: option.splits)
qed

end
