(* ===== verification/Ban.thy ===== *)
theory Ban
  imports NetMask DiskFile "HOL-Library.Char_ord" "HOL-Library.List_Lexorder"
begin

text \<open>
  The denylist, \<open>internal/ban/store.go\<close>: consecutive invalid events per address, temporary and
  permanent bans, the addresses an admin pardoned, and the file they persist in.

  A \<open>time.Time\<close> is an integer number of nanoseconds, 0 being the zero time (\<open>IsZero\<close>); the
  clock \<open>s.now\<close> is an argument of the operations that read it. Go's maps are association lists,
  \<open>pardons\<close> is the key set of \<open>Store.pardoned\<close>, \<open>hooks\<close> the registered callbacks and
  \<open>calls\<close> the log of the callbacks made. The mutex makes each operation one step. The counters
  are unbounded integers: at one ban per streak of five events an \<open>int\<close> does not wrap.
  A nil \<open>*Store\<close> is not modelled: \<open>New\<close> never returns one.
\<close>

definition InvalidLimit :: int where
  "InvalidLimit = 5"

text \<open>Six hours.\<close>

definition TempDuration :: int where
  "TempDuration = 6 * 3600 * 1000000000"

datatype ban_kind = NotBanned | KindTemporary | KindPermanent

text \<open>The order of severity, none below temporary below permanent.\<close>

fun severity :: "ban_kind \<Rightarrow> nat" where
  "severity NotBanned = 0"
| "severity KindTemporary = 1"
| "severity KindPermanent = 2"

lemma severity_inj [simp]: "severity a = severity b \<longleftrightarrow> a = b"
  by (cases a; cases b) auto

instantiation ban_kind :: linorder
begin

definition less_eq_ban_kind :: "ban_kind \<Rightarrow> ban_kind \<Rightarrow> bool" where
  "less_eq_ban_kind a b \<longleftrightarrow> severity a \<le> severity b"

definition less_ban_kind :: "ban_kind \<Rightarrow> ban_kind \<Rightarrow> bool" where
  "less_ban_kind a b \<longleftrightarrow> severity a < severity b"

instance
  by standard (auto simp: less_eq_ban_kind_def less_ban_kind_def)

end

record ban_rec =
  consecutive :: int
  ban_reason :: string
  ban_count :: int
  until :: int
  permanent :: bool

definition new_rec :: ban_rec where
  "new_rec = \<lparr>consecutive = 0, ban_reason = [], ban_count = 0, until = 0, permanent = False\<rparr>"

record ban_dto =
  dto_records :: "(string \<times> ban_rec) list"
  dto_pardoned :: "string list"

record ban_store =
  ban_path :: string
  ttl :: int
  limit :: int
  by_ip :: "(string \<times> ban_rec) list"
  pardons :: "string list"
  hooks :: "string list"
  calls :: "string list"
  ban_disk :: "ban_dto disk"

definition ip_key :: "ip \<Rightarrow> string" where
  "ip_key i =
     (if i = [] \<or> is_unspecified i then []
      else case to4 i of Some v4 \<Rightarrow> ip_string v4 | None \<Rightarrow> ip_string i)"

section \<open>Reading\<close>

definition rec_active :: "int \<Rightarrow> ban_rec \<Rightarrow> bool" where
  "rec_active now r \<longleftrightarrow> until r \<noteq> 0 \<and> now < until r"

definition is_pardoned :: "ip \<Rightarrow> ban_store \<Rightarrow> bool" where
  "is_pardoned i s = (let k = ip_key i in k \<noteq> [] \<and> k \<in> set (pardons s))"

definition blocked_locked :: "string \<Rightarrow> int \<Rightarrow> ban_store \<Rightarrow> bool" where
  "blocked_locked k now s =
     (case map_of (by_ip s) k of
        None \<Rightarrow> False
      | Some r \<Rightarrow> if permanent r then True else rec_active now r)"

definition blocked :: "ip \<Rightarrow> int \<Rightarrow> ban_store \<Rightarrow> bool" where
  "blocked i now s = (let k = ip_key i in if k = [] then False else blocked_locked k now s)"

definition rec_kind :: "int \<Rightarrow> ban_rec \<Rightarrow> ban_kind" where
  "rec_kind now r =
     (if permanent r then KindPermanent else if rec_active now r then KindTemporary else NotBanned)"

definition ban_kind_of :: "ip \<Rightarrow> int \<Rightarrow> ban_store \<Rightarrow> ban_kind" where
  "ban_kind_of i now s =
     (let k = ip_key i in
      if k = [] then NotBanned
      else case map_of (by_ip s) k of None \<Rightarrow> NotBanned | Some r \<Rightarrow> rec_kind now r)"

record ban_entry =
  entry_ip :: string
  entry_kind :: ban_kind
  entry_until :: "int option"
  entry_bans :: int
  entry_consecutive :: int

text \<open>\<open>List\<close>: \<open>entry_until\<close> is the time whose RFC 3339 text the entry carries.\<close>

definition list_entry :: "int \<Rightarrow> string \<times> ban_rec \<Rightarrow> ban_entry option" where
  "list_entry now = (\<lambda>(k, r).
     if permanent r
     then Some \<lparr>entry_ip = k, entry_kind = KindPermanent, entry_until = None,
                entry_bans = ban_count r, entry_consecutive = consecutive r\<rparr>
     else if rec_active now r
     then Some \<lparr>entry_ip = k, entry_kind = KindTemporary, entry_until = Some (until r),
                entry_bans = ban_count r, entry_consecutive = consecutive r\<rparr>
     else if ban_count r = 0 \<and> consecutive r = 0 then None
     else Some \<lparr>entry_ip = k, entry_kind = NotBanned, entry_until = None,
                entry_bans = ban_count r, entry_consecutive = consecutive r\<rparr>)"

definition ban_list :: "int \<Rightarrow> ban_store \<Rightarrow> ban_entry list" where
  "ban_list now s = List.map_filter (list_entry now) (by_ip s)"

definition ban_counts :: "int \<Rightarrow> ban_store \<Rightarrow> nat \<times> nat" where
  "ban_counts now s =
     foldl (\<lambda>(temp, perm) (k, r).
        if permanent r then (temp, perm + 1)
        else if rec_active now r then (temp + 1, perm) else (temp, perm)) (0, 0) (by_ip s)"

section \<open>The file\<close>

definition trivial_rec :: "ban_rec \<Rightarrow> bool" where
  "trivial_rec r \<longleftrightarrow> ban_count r = 0 \<and> consecutive r = 0 \<and> until r = 0 \<and> \<not> permanent r"

definition ban_document :: "ban_store \<Rightarrow> ban_dto" where
  "ban_document s =
     \<lparr>dto_records = filter (\<lambda>(k, r). \<not> trivial_rec r) (by_ip s), dto_pardoned = sort (pardons s)\<rparr>"

definition persist_locked :: "fs_op option \<Rightarrow> ban_store \<Rightarrow> (fs_op + unit) \<times> ban_store" where
  "persist_locked flt s =
     (if ban_path s = [] then (Inr (), s)
      else let (res, k) = atomic_save flt (ban_document s) (ban_disk s) in (res, s\<lparr>ban_disk := k\<rparr>))"

text \<open>\<open>load\<close>: a missing file is not an error; keys are canonicalised and unusable ones skipped.\<close>

definition add_pardon :: "string \<Rightarrow> string list \<Rightarrow> string list" where
  "add_pardon k ps = (if k \<in> set ps then ps else ps @ [k])"

definition load_pardons :: "string list \<Rightarrow> string list" where
  "load_pardons ips =
     fold (\<lambda>x ps. let k = ip_key (parse_ip x) in if k = [] then ps else add_pardon k ps) ips []"

definition load_records :: "(string \<times> ban_rec) list \<Rightarrow> (string \<times> ban_rec) list" where
  "load_records rs =
     fold (\<lambda>(x, r) m. let k = ip_key (parse_ip x) in if k = [] then m else AList.update k r m) rs []"

definition ban_load :: "ban_store \<Rightarrow> bool \<times> ban_store" where
  "ban_load s =
     (if ban_path s = [] then (True, s)
      else case target (ban_disk s) of
        Absent \<Rightarrow> (True, s)
      | Unreadable \<Rightarrow> (False, s)
      | Malformed \<Rightarrow> (False, s)
      | Doc d \<Rightarrow> (True, s\<lparr>by_ip := load_records (dto_records d),
                           pardons := load_pardons (dto_pardoned d)\<rparr>))"

text \<open>\<open>New\<close>: a load error is logged and the store starts empty.\<close>

definition ban_new :: "string \<Rightarrow> ban_dto disk \<Rightarrow> ban_store" where
  "ban_new p k =
     snd (ban_load \<lparr>ban_path = p, ttl = TempDuration, limit = InvalidLimit, by_ip = [], pardons = [],
                    hooks = [], calls = [], ban_disk = k\<rparr>)"

section \<open>Changing\<close>

definition on_change :: "string \<Rightarrow> ban_store \<Rightarrow> ban_store" where
  "on_change f s = s\<lparr>hooks := hooks s @ [f]\<rparr>"

definition ban_notify :: "ban_store \<Rightarrow> ban_store" where
  "ban_notify s = s\<lparr>calls := calls s @ hooks s\<rparr>"

definition get_rec :: "string \<Rightarrow> ban_store \<Rightarrow> ban_rec" where
  "get_rec k s = (case map_of (by_ip s) k of Some r \<Rightarrow> r | None \<Rightarrow> new_rec)"

definition put_rec :: "string \<Rightarrow> ban_rec \<Rightarrow> ban_store \<Rightarrow> ban_store" where
  "put_rec k r s = s\<lparr>by_ip := AList.update k r (by_ip s)\<rparr>"

definition count_invalid :: "int \<Rightarrow> string \<Rightarrow> ban_rec \<Rightarrow> ban_rec" where
  "count_invalid now rs r =
     (let r1 = (if until r \<noteq> 0 \<and> \<not> now < until r
                then r\<lparr>until := 0, consecutive := 0, ban_reason := []\<rparr> else r);
          r2 = (if ban_reason r1 \<noteq> rs then r1\<lparr>ban_reason := rs, consecutive := 0\<rparr> else r1)
      in r2\<lparr>consecutive := consecutive r2 + 1\<rparr>)"

definition issue_ban :: "int \<Rightarrow> int \<Rightarrow> ban_rec \<Rightarrow> ban_rec" where
  "issue_ban now d r =
     (let r1 = r\<lparr>consecutive := 0, ban_count := ban_count r + 1\<rparr> in
      if 2 \<le> ban_count r1 then r1\<lparr>permanent := True, until := 0\<rparr> else r1\<lparr>until := now + d\<rparr>)"

definition observe_invalid :: "fs_op option \<Rightarrow> ip \<Rightarrow> string \<Rightarrow> int \<Rightarrow> ban_store \<Rightarrow> ban_store" where
  "observe_invalid flt i rs now s =
     (let k = ip_key i in
      if k = [] then s
      else if k \<in> set (pardons s) \<or> blocked_locked k now s then s
      else let r = count_invalid now rs (get_rec k s) in
        if consecutive r < limit s then put_rec k r s
        else ban_notify (snd (persist_locked flt (put_rec k (issue_ban now (ttl s) r) s))))"

definition make_permanent :: "ban_rec \<Rightarrow> ban_rec" where
  "make_permanent r =
     r\<lparr>permanent := True, until := 0, consecutive := 0, ban_reason := [],
       ban_count := (if ban_count r < 2 then 2 else ban_count r)\<rparr>"

definition ban_permanent :: "fs_op option \<Rightarrow> ip \<Rightarrow> string \<Rightarrow> ban_store \<Rightarrow> ban_store" where
  "ban_permanent flt i rs s =
     (let k = ip_key i in
      if k = [] then s
      else if k \<in> set (pardons s) then s
      else case map_of (by_ip s) k of
        Some r \<Rightarrow> if permanent r then s
                  else ban_notify (snd (persist_locked flt (put_rec k (make_permanent r) s)))
      | None \<Rightarrow> ban_notify (snd (persist_locked flt (put_rec k (make_permanent new_rec) s))))"

definition observe_valid :: "ip \<Rightarrow> ban_store \<Rightarrow> ban_store" where
  "observe_valid i s =
     (let k = ip_key i in
      if k = [] then s
      else case map_of (by_ip s) k of
        None \<Rightarrow> s
      | Some r \<Rightarrow> if consecutive r = 0 then s else put_rec k (r\<lparr>consecutive := 0\<rparr>) s)"

datatype unban_error = InvalidIP | PersistFailed fs_op

definition pardon_key :: "string \<Rightarrow> ban_store \<Rightarrow> ban_store" where
  "pardon_key k s = s\<lparr>by_ip := AList.delete k (by_ip s), pardons := add_pardon k (pardons s)\<rparr>"

definition unban :: "fs_op option \<Rightarrow> ip \<Rightarrow> ban_store \<Rightarrow> (unban_error + unit) \<times> ban_store" where
  "unban flt i s =
     (let k = ip_key i in
      if k = [] then (Inl InvalidIP, s)
      else if map_of (by_ip s) k = None then (Inr (), s)
      else case persist_locked flt (pardon_key k s) of
        (Inl p, s') \<Rightarrow> (Inl (PersistFailed p), s')
      | (Inr u, s') \<Rightarrow> (Inr (), s'))"

text \<open>\<open>UnbanCIDRs\<close>: the networks that parse, then every recorded key inside one of them.\<close>

definition unban_net :: "string \<Rightarrow> ipnet option" where
  "unban_net c =
     (case parse_cidr c of
        Some n \<Rightarrow> Some n
      | None \<Rightarrow>
          let i = parse_ip c in
          if i = [] then None
          else case to4 i of
            Some v4 \<Rightarrow> Some \<lparr>net_ip = v4, net_mask = cidr_mask 32 32\<rparr>
          | None \<Rightarrow> Some \<lparr>net_ip = i, net_mask = cidr_mask 128 128\<rparr>)"

definition key_matches :: "ipnet list \<Rightarrow> string \<Rightarrow> bool" where
  "key_matches nets k = (let i = parse_ip k in i \<noteq> [] \<and> list_ex (\<lambda>n. net_contains n i) nets)"

definition unban_cidrs :: "fs_op option \<Rightarrow> string list \<Rightarrow> ban_store \<Rightarrow> ban_store" where
  "unban_cidrs flt cs s =
     (let nets = List.map_filter unban_net cs in
      if nets = [] then s
      else let removed = filter (key_matches nets) (map fst (by_ip s)) in
        if removed = [] then s
        else snd (persist_locked flt (fold pardon_key removed s)))"

section \<open>Events and the invariant\<close>

datatype ban_event =
    BanInvalid "fs_op option" ip string int
  | BanProbe "fs_op option" ip string
  | BanValid ip
  | BanUnban "fs_op option" ip
  | BanUnbanCidrs "fs_op option" "string list"

fun ban_step :: "ban_event \<Rightarrow> ban_store \<Rightarrow> ban_store" where
  "ban_step (BanInvalid f i rs now) s = observe_invalid f i rs now s"
| "ban_step (BanProbe f i rs) s = ban_permanent f i rs s"
| "ban_step (BanValid i) s = observe_valid i s"
| "ban_step (BanUnban f i) s = snd (unban f i s)"
| "ban_step (BanUnbanCidrs f cs) s = unban_cidrs f cs s"

text \<open>A \<open>net.IP\<close> the program meets is nil or has 4 or 16 bytes, and its clock is past year 1.\<close>

definition real_ip :: "ip \<Rightarrow> bool" where
  "real_ip i \<longleftrightarrow> i = [] \<or> length i = 4 \<or> length i = 16"

fun real_event :: "ban_event \<Rightarrow> bool" where
  "real_event (BanInvalid f i rs now) \<longleftrightarrow> real_ip i \<and> 0 < now"
| "real_event (BanProbe f i rs) \<longleftrightarrow> real_ip i"
| "real_event (BanValid i) \<longleftrightarrow> real_ip i"
| "real_event (BanUnban f i) \<longleftrightarrow> real_ip i"
| "real_event (BanUnbanCidrs f cs) \<longleftrightarrow> True"

definition canon_key :: "string \<Rightarrow> bool" where
  "canon_key k \<longleftrightarrow> k \<noteq> [] \<and> ip_key (parse_ip k) = k"

definition rec_ok :: "int \<Rightarrow> ban_rec \<Rightarrow> bool" where
  "rec_ok lim r \<longleftrightarrow> 0 \<le> consecutive r \<and> consecutive r < lim \<and> 0 \<le> ban_count r \<and> 0 \<le> until r \<and>
     (permanent r \<longrightarrow> until r = 0 \<and> 2 \<le> ban_count r) \<and> (\<not> permanent r \<longrightarrow> ban_count r \<le> 1)"

definition ban_inv :: "ban_store \<Rightarrow> bool" where
  "ban_inv s \<longleftrightarrow> 0 < limit s \<and> 0 < ttl s \<and>
     distinct (map fst (by_ip s)) \<and> distinct (pardons s) \<and>
     (\<forall>k r. map_of (by_ip s) k = Some r \<longrightarrow> canon_key k \<and> k \<notin> set (pardons s) \<and> rec_ok (limit s) r) \<and>
     (\<forall>k \<in> set (pardons s). canon_key k)"

named_theorems ban_simps \<open>what the bookkeeping operations leave alone\<close>

lemma persist_frame [simp, ban_simps]:
  "by_ip (snd (persist_locked f s)) = by_ip s" "pardons (snd (persist_locked f s)) = pardons s"
  "limit (snd (persist_locked f s)) = limit s" "ttl (snd (persist_locked f s)) = ttl s"
  "hooks (snd (persist_locked f s)) = hooks s" "calls (snd (persist_locked f s)) = calls s"
  "ban_path (snd (persist_locked f s)) = ban_path s"
  by (auto simp: persist_locked_def Let_def split: prod.splits)

lemma notify_frame [simp, ban_simps]:
  "by_ip (ban_notify s) = by_ip s" "pardons (ban_notify s) = pardons s" "limit (ban_notify s) = limit s"
  "ttl (ban_notify s) = ttl s" "hooks (ban_notify s) = hooks s" "ban_path (ban_notify s) = ban_path s"
  "ban_disk (ban_notify s) = ban_disk s" "calls (ban_notify s) = calls s @ hooks s"
  by (simp_all add: ban_notify_def)

lemma put_frame [simp, ban_simps]:
  "map_of (by_ip (put_rec k r s)) = (map_of (by_ip s))(k \<mapsto> r)" "pardons (put_rec k r s) = pardons s"
  "limit (put_rec k r s) = limit s" "ttl (put_rec k r s) = ttl s" "hooks (put_rec k r s) = hooks s"
  "calls (put_rec k r s) = calls s" "ban_disk (put_rec k r s) = ban_disk s"
  "ban_path (put_rec k r s) = ban_path s"
  by (simp_all add: put_rec_def)

lemma set_add_pardon [simp]: "set (add_pardon k ps) = insert k (set ps)"
  by (auto simp: add_pardon_def)

lemma pardon_frame [simp, ban_simps]:
  "map_of (by_ip (pardon_key k s)) = (map_of (by_ip s))(k := None)"
  "set (pardons (pardon_key k s)) = insert k (set (pardons s))"
  "limit (pardon_key k s) = limit s" "ttl (pardon_key k s) = ttl s" "hooks (pardon_key k s) = hooks s"
  "calls (pardon_key k s) = calls s" "ban_disk (pardon_key k s) = ban_disk s"
  "ban_path (pardon_key k s) = ban_path s"
  by (simp_all add: pardon_key_def)

lemma unban_state:
  "snd (unban f i s) =
     (let k = ip_key i in if k = [] \<or> map_of (by_ip s) k = None then s
      else snd (persist_locked f (pardon_key k s)))"
  by (auto simp: unban_def Let_def split: prod.splits sum.splits)

lemma fold_pardon [simp]:
  "map_of (by_ip (fold pardon_key ks s)) k = (if k \<in> set ks then None else map_of (by_ip s) k)"
  "set (pardons (fold pardon_key ks s)) = set ks \<union> set (pardons s)"
  "calls (fold pardon_key ks s) = calls s"
  "limit (fold pardon_key ks s) = limit s" "ttl (fold pardon_key ks s) = ttl s"
  by (induction ks arbitrary: s) auto

section \<open>Keys\<close>

lemma to4_to16: "length i = 4 \<or> length i = 16 \<Longrightarrow> to4 (to16 i) = to4 i"
  by (auto simp: to4_def to16_def v4_prefix_def)

lemma is_unspecified_to16: "length i = 4 \<or> length i = 16 \<Longrightarrow> is_unspecified (to16 i) = is_unspecified i"
proof -
  have z: "v4_prefix @ i \<noteq> replicate 16 0" "take 12 (replicate 16 0 :: bytes) \<noteq> v4_prefix"
  proof -
    have p: "(v4_prefix @ i) ! 11 = 255" "(v4_prefix :: bytes) ! 11 = 255"
      by (simp_all add: v4_prefix_def nth_append)
    have q: "(replicate 16 0 :: bytes) ! 11 = 0" "take 12 (replicate 16 0 :: bytes) ! 11 = 0" by simp_all
    have n: "(0 :: byte) \<noteq> 255" by simp
    show "v4_prefix @ i \<noteq> replicate 16 0" using p q n by metis
    show "take 12 (replicate 16 0 :: bytes) \<noteq> v4_prefix" using p q n by metis
  qed
  assume "length i = 4 \<or> length i = 16"
  then show ?thesis
    using z by (auto simp: is_unspecified_def to16_def ip_equal_def length_v4_prefix)
qed

lemma ip_string_to4: "to4 i = Some v \<Longrightarrow> ip_string v = ip_string i"
proof -
  assume a: "to4 i = Some v"
  then have "length v = 4" "to4 v = Some v" "length i = 4 \<or> length i = 16"
    by (auto simp: to4_def split: if_splits)
  then show ?thesis using a by (auto simp: ip_string_def)
qed

lemma ip_string_not_empty: "real_ip i \<Longrightarrow> i \<noteq> [] \<Longrightarrow> ip_string i \<noteq> []"
  using parse_ip_string [of i]
  by (auto simp: real_ip_def parse_ip_def parse_addr_def to16_def v4_prefix_def)

lemma ip_key_alt: "ip_key i = (if i = [] \<or> is_unspecified i then [] else ip_string i)"
  by (auto simp: ip_key_def ip_string_to4 split: option.splits)

lemma ip_key_to16: "real_ip i \<Longrightarrow> i \<noteq> [] \<Longrightarrow> ip_key (to16 i) = ip_key i"
proof -
  assume a: "real_ip i" "i \<noteq> []"
  have "ip_string (to16 i) = ip_string i"
  proof (cases "length i = 4")
    case True
    then have "to4 (to16 i) = Some i" by (simp add: to4_to16) (simp add: to4_def)
    then show ?thesis by (simp add: ip_string_to4)
  qed (simp add: to16_def)
  moreover have "to16 i \<noteq> []" using a by (auto simp: to16_def real_ip_def)
  moreover have "is_unspecified (to16 i) = is_unspecified i"
    using a by (intro is_unspecified_to16) (auto simp: real_ip_def)
  ultimately show ?thesis using a by (simp add: ip_key_alt)
qed

lemma canon_ip_key: "real_ip i \<Longrightarrow> ip_key i \<noteq> [] \<Longrightarrow> canon_key (ip_key i)"
  using parse_ip_string [of i] ip_key_to16 [of i]
  by (auto simp: canon_key_def ip_key_alt real_ip_def split: if_splits)

section \<open>The automaton of one address\<close>

text \<open>What the store promises for one address, without the maps, the file and the other
  addresses: whether it is pardoned, and its record.\<close>

type_synonym addr_view = "bool \<times> ban_rec option"

definition view :: "string \<Rightarrow> ban_store \<Rightarrow> addr_view" where
  "view k s = (k \<in> set (pardons s), map_of (by_ip s) k)"

definition default_rec :: "ban_rec option \<Rightarrow> ban_rec" where
  "default_rec r = (case r of Some x \<Rightarrow> x | None \<Rightarrow> new_rec)"

definition rec_blocked :: "int \<Rightarrow> ban_rec option \<Rightarrow> bool" where
  "rec_blocked now r = (case r of None \<Rightarrow> False | Some x \<Rightarrow> permanent x \<or> rec_active now x)"

definition invalid_rec :: "int \<Rightarrow> int \<Rightarrow> int \<Rightarrow> string \<Rightarrow> ban_rec \<Rightarrow> ban_rec" where
  "invalid_rec lim d now rs r =
     (let r' = count_invalid now rs r in if consecutive r' < lim then r' else issue_ban now d r')"

fun addr_step :: "int \<Rightarrow> int \<Rightarrow> string \<Rightarrow> ban_event \<Rightarrow> addr_view \<Rightarrow> addr_view" where
  "addr_step lim d k (BanInvalid f i rs now) (p, r) =
     (p, if ip_key i = k \<and> \<not> p \<and> \<not> rec_blocked now r
         then Some (invalid_rec lim d now rs (default_rec r)) else r)"
| "addr_step lim d k (BanProbe f i rs) (p, r) =
     (p, if ip_key i = k \<and> \<not> p \<and> \<not> (case r of Some x \<Rightarrow> permanent x | None \<Rightarrow> False)
         then Some (make_permanent (default_rec r)) else r)"
| "addr_step lim d k (BanValid i) (p, r) =
     (p, if ip_key i = k then map_option (\<lambda>x. x\<lparr>consecutive := 0\<rparr>) r else r)"
| "addr_step lim d k (BanUnban f i) (p, r) =
     (if ip_key i = k \<and> r \<noteq> None then (True, None) else (p, r))"
| "addr_step lim d k (BanUnbanCidrs f cs) (p, r) =
     (if key_matches (List.map_filter unban_net cs) k \<and> r \<noteq> None then (True, None) else (p, r))"

lemma blocked_locked_view: "blocked_locked k now s = rec_blocked now (map_of (by_ip s) k)"
  by (auto simp: blocked_locked_def rec_blocked_def split: option.splits)

lemma blocked_view: "blocked i now s \<longleftrightarrow> ip_key i \<noteq> [] \<and> rec_blocked now (snd (view (ip_key i) s))"
  by (simp add: blocked_def Let_def blocked_locked_view view_def)

lemma pardoned_view: "is_pardoned i s \<longleftrightarrow> ip_key i \<noteq> [] \<and> fst (view (ip_key i) s)"
  by (simp add: is_pardoned_def Let_def view_def)

lemma view_observe_invalid:
  "k \<noteq> [] \<Longrightarrow> view k (observe_invalid f i rs now s) = addr_step (limit s) (ttl s) k (BanInvalid f i rs now) (view k s)"
  by (auto simp: view_def observe_invalid_def Let_def blocked_locked_view invalid_rec_def get_rec_def
      default_rec_def)

lemma view_ban_permanent:
  "k \<noteq> [] \<Longrightarrow> view k (ban_permanent f i rs s) = addr_step (limit s) (ttl s) k (BanProbe f i rs) (view k s)"
  by (auto simp: view_def ban_permanent_def Let_def default_rec_def split: option.splits)

lemma view_observe_valid:
  "k \<noteq> [] \<Longrightarrow> view k (observe_valid i s) = addr_step (limit s) (ttl s) k (BanValid i) (view k s)"
  by (auto simp: view_def observe_valid_def Let_def split: option.splits)

lemma view_unban:
  "k \<noteq> [] \<Longrightarrow> view k (snd (unban f i s)) = addr_step (limit s) (ttl s) k (BanUnban f i) (view k s)"
  by (auto simp: view_def unban_state Let_def)

lemma map_filter_Nil: "List.map_filter f cs = [] \<Longrightarrow> key_matches (List.map_filter f cs) k = False"
  by (simp add: key_matches_def)

lemma view_unban_cidrs:
  "view k (unban_cidrs f cs s) = addr_step (limit s) (ttl s) k (BanUnbanCidrs f cs) (view k s)"
proof -
  define nets where "nets = List.map_filter unban_net cs"
  have "k \<in> fst ` set (by_ip s) \<longleftrightarrow> map_of (by_ip s) k \<noteq> None"
    by (simp add: map_of_eq_None_iff)
  then show ?thesis
    unfolding view_def unban_cidrs_def nets_def [symmetric] Let_def
    using map_filter_Nil [of unban_net cs k, folded nets_def]
    by (auto simp: nets_def [symmetric] filter_empty_conv)
qed

lemma view_step: "k \<noteq> [] \<Longrightarrow> view k (ban_step e s) = addr_step (limit s) (ttl s) k e (view k s)"
  by (cases e) (simp_all add: view_observe_invalid view_ban_permanent view_observe_valid view_unban
      view_unban_cidrs del: addr_step.simps)

lemma step_limits [simp]: "limit (ban_step e s) = limit s" "ttl (ban_step e s) = ttl s"
  by (cases e; simp add: observe_invalid_def ban_permanent_def observe_valid_def unban_state
      unban_cidrs_def Let_def split: option.splits)+

lemma run_limits [simp]:
  "limit (run_events ban_step es s) = limit s" "ttl (run_events ban_step es s) = ttl s"
  by (induction es arbitrary: s) auto

text \<open>
C11: the denylist is one independent automaton per address. After any sequence of events (invalid attempts, probes, valid traffic, admin unbans by address or by CIDR), whatever file operations failed on the way, the pardon and the record of an address are what the per-address automaton makes of the same events; in particular events about other addresses never change them.
\<close>

theorem ban_store_refines_automaton:
  "k \<noteq> [] \<Longrightarrow> view k (run_events ban_step es s) = run_events (addr_step (limit s) (ttl s) k) es (view k s)"
  by (induction es arbitrary: s) (simp_all add: view_step)

theorem ban_store_refines_automaton_witness:
  "view ''10.0.0.1'' (run_events ban_step [BanProbe None [10, 0, 0, 2] ''probe''] (ban_new [] \<lparr>target = Absent, temps = []\<rparr>))
     = run_events (addr_step 5 TempDuration ''10.0.0.1'') [BanProbe None [10, 0, 0, 2] ''probe''] (False, None)"
  using ban_store_refines_automaton [of "''10.0.0.1''" "[BanProbe None [10, 0, 0, 2] ''probe'']"
      "ban_new [] \<lparr>target = Absent, temps = []\<rparr>"]
  by (simp add: ban_new_def ban_load_def InvalidLimit_def view_def)

lemma view_run:
  "k \<noteq> [] \<Longrightarrow> view k (run_events ban_step es s) = run_events (addr_step (limit s) (ttl s) k) es (view k s)"
  by (induction es arbitrary: s) (simp_all add: view_step)

section \<open>Every operation keeps the invariant\<close>

lemma rec_ok_new [simp]: "0 < lim \<Longrightarrow> rec_ok lim new_rec"
  by (simp add: rec_ok_def new_rec_def)

lemma rec_ok_permanent: "rec_ok lim r \<Longrightarrow> rec_ok lim (make_permanent r)"
  by (auto simp: rec_ok_def make_permanent_def)

lemma rec_ok_invalid:
  "rec_ok lim r \<Longrightarrow> 0 < now \<Longrightarrow> 0 < d \<Longrightarrow> \<not> permanent r \<Longrightarrow> rec_ok lim (invalid_rec lim d now rs r)"
  by (auto simp: rec_ok_def invalid_rec_def count_invalid_def issue_ban_def Let_def)

lemma rec_ok_valid: "rec_ok lim r \<Longrightarrow> rec_ok lim (r\<lparr>consecutive := 0\<rparr>)"
  by (auto simp: rec_ok_def)

definition view_ok :: "int \<Rightarrow> addr_view \<Rightarrow> bool" where
  "view_ok lim v = (case snd v of None \<Rightarrow> True | Some r \<Rightarrow> \<not> fst v \<and> rec_ok lim r)"

lemma view_ok_step:
  "view_ok lim v \<Longrightarrow> 0 < lim \<Longrightarrow> 0 < d \<Longrightarrow> real_event e \<Longrightarrow> view_ok lim (addr_step lim d k e v)"
  by (cases v; cases "snd v"; cases e)
    (auto simp: view_ok_def default_rec_def rec_blocked_def new_rec_def [THEN arg_cong, of permanent]
      intro: rec_ok_invalid rec_ok_permanent rec_ok_valid)

lemma ban_inv_view:
  "ban_inv s \<longleftrightarrow> 0 < limit s \<and> 0 < ttl s \<and> distinct (map fst (by_ip s)) \<and> distinct (pardons s) \<and>
     (\<forall>k. view_ok (limit s) (view k s)) \<and> (\<forall>k. view k s \<noteq> (False, None) \<longrightarrow> canon_key k)"
  by (auto simp: ban_inv_def view_ok_def view_def split: option.splits)

lemma distinct_add_pardon [simp]: "distinct (add_pardon k ps) = distinct ps"
  by (simp add: add_pardon_def)

lemma distinct_pardon_key:
  "distinct (map fst (by_ip s)) \<Longrightarrow> distinct (map fst (by_ip (pardon_key k s)))"
  "distinct (pardons (pardon_key k s)) = distinct (pardons s)"
  by (auto simp: pardon_key_def)

lemma distinct_fold_pardon:
  "distinct (map fst (by_ip s)) \<Longrightarrow> distinct (map fst (by_ip (fold pardon_key ks s)))"
  "distinct (pardons (fold pardon_key ks s)) = distinct (pardons s)"
  by (induction ks arbitrary: s) (auto intro: distinct_pardon_key simp: distinct_pardon_key(2))

lemma step_distinct:
  "distinct (map fst (by_ip s)) \<Longrightarrow> distinct (map fst (by_ip (ban_step e s)))"
  "distinct (pardons s) \<Longrightarrow> distinct (pardons (ban_step e s))"
  by (cases e; auto simp: observe_invalid_def ban_permanent_def observe_valid_def unban_state put_rec_def
      unban_cidrs_def Let_def distinct_pardon_key distinct_fold_pardon split: option.splits)+

lemma addr_untouched:
  "addr_step lim d k e (False, None) \<noteq> (False, None) \<Longrightarrow> real_event e \<Longrightarrow> k \<noteq> [] \<Longrightarrow> canon_key k"
  by (cases e) (auto intro: canon_ip_key split: if_splits)

lemma key_matches_Nil [simp]: "\<not> key_matches nets []"
  by (simp add: key_matches_def parse_ip_def parse_addr_def)

lemma view_Nil: "view [] s = (False, None) \<Longrightarrow> view [] (ban_step e s) = (False, None)"
  by (cases e; auto simp: view_unban_cidrs; auto simp: view_def observe_invalid_def ban_permanent_def
      observe_valid_def unban_state Let_def split: option.splits)

lemma ban_step_inv:
  assumes "real_event e" "ban_inv s"
  shows "ban_inv (ban_step e s)"
proof -
  have v: "view_ok (limit s) (view k (ban_step e s)) \<and>
        (view k (ban_step e s) \<noteq> (False, None) \<longrightarrow> canon_key k)" for k
  proof (cases "k = []")
    case True
    then have "view k s = (False, None)"
      using assms(2) by (auto simp: ban_inv_view canon_key_def)
    then show ?thesis using True view_Nil [of s e] by (simp add: view_ok_def)
  next
    case False
    moreover have "view_ok (limit s) (addr_step (limit s) (ttl s) k e (view k s))"
      using assms by (intro view_ok_step) (auto simp: ban_inv_view)
    ultimately show ?thesis
      using assms addr_untouched [of "limit s" "ttl s" k e]
      by (cases "view k s = (False, None)") (auto simp: ban_inv_view view_step)
  qed
  then show ?thesis
    using assms(2) step_distinct [of s e] by (simp add: ban_inv_view)
qed

interpretation ban_machine: machine ban_step real_event ban_inv
  by unfold_locales (rule ban_step_inv)

lemma view_ban_new:
  "view k (ban_new p \<lparr>target = Absent, temps = ts\<rparr>) = (False, None)"
  "limit (ban_new p d) = InvalidLimit" "ttl (ban_new p d) = TempDuration"
  by (auto simp: ban_new_def ban_load_def view_def split: content.splits)

lemma ban_inv_empty: "ban_inv (ban_new p \<lparr>target = Absent, temps = ts\<rparr>)"
  by (auto simp: ban_inv_def ban_new_def ban_load_def InvalidLimit_def TempDuration_def)

text \<open>
The denylist invariant holds in every reachable state. Started without a file and driven by any sequence of real events, keys are canonical and distinct, no address is both pardoned and recorded, streaks stay below the limit, a permanent ban has no expiry and counts at least two bans, and any other record counts at most one.
\<close>

theorem ban_invariant_reachable:
  "list_all real_event es \<Longrightarrow> ban_inv (run_events ban_step es (ban_new p \<lparr>target = Absent, temps = []\<rparr>))"
  by (rule ban_machine.run_inv [OF _ ban_inv_empty])

theorem ban_invariant_reachable_witness:
  "ban_inv (run_events ban_step [BanInvalid None [10, 0, 0, 1] ''acl'' 7, BanUnban None [10, 0, 0, 1]]
     (ban_new ''d.json'' \<lparr>target = Absent, temps = []\<rparr>))"
  using ban_invariant_reachable [of "[BanInvalid None [10, 0, 0, 1] ''acl'' 7, BanUnban None [10, 0, 0, 1]]"]
  by (simp add: real_ip_def)

section \<open>Strikes\<close>

definition strikes :: "fs_op option \<Rightarrow> ip \<Rightarrow> string \<Rightarrow> int list \<Rightarrow> ban_event list" where
  "strikes f i rs ts = map (BanInvalid f i rs) ts"

definition streak_rec :: "string \<Rightarrow> int \<Rightarrow> int \<Rightarrow> ban_rec" where
  "streak_rec rs c b = \<lparr>consecutive = c, ban_reason = rs, ban_count = b, until = 0, permanent = False\<rparr>"

lemma streak_step:
  "c + 1 < lim \<Longrightarrow> invalid_rec lim d now rs (streak_rec rs c b) = streak_rec rs (c + 1) b"
  by (simp add: streak_rec_def invalid_rec_def count_invalid_def Let_def)

lemma streak_last:
  "c + 1 = lim \<Longrightarrow> invalid_rec lim d now rs (streak_rec rs c b) = issue_ban now d (streak_rec rs lim b)"
  by (auto simp: streak_rec_def invalid_rec_def count_invalid_def Let_def)

lemma streak_unblocked [simp]: "\<not> rec_blocked now (Some (streak_rec rs c b))"
  by (simp add: rec_blocked_def rec_active_def streak_rec_def)

lemma streak_run:
  "c + int (length ts) < lim \<Longrightarrow>
   run_events (addr_step lim d (ip_key i)) (strikes f i rs ts) (False, Some (streak_rec rs c b))
     = (False, Some (streak_rec rs (c + int (length ts)) b))"
  by (induction ts arbitrary: c) (auto simp: strikes_def streak_step default_rec_def add.assoc)

text \<open>The first invalid event of a streak: no ban in force, and no earlier event of this reason to
  count on.\<close>

definition fresh_view :: "int \<Rightarrow> int \<Rightarrow> addr_view \<Rightarrow> bool" where
  "fresh_view now b v \<longleftrightarrow> \<not> fst v \<and>
     (case snd v of None \<Rightarrow> b = 0
      | Some r \<Rightarrow> \<not> permanent r \<and> ban_count r = b \<and>
                   (if until r \<noteq> 0 then until r \<le> now else consecutive r = 0))"

lemma fresh_first:
  "fresh_view t b v \<Longrightarrow> 1 < lim \<Longrightarrow>
   addr_step lim d (ip_key i) (BanInvalid f i rs t) v = (False, Some (streak_rec rs 1 b))"
  by (cases v; cases "snd v")
    (auto simp: fresh_view_def rec_blocked_def rec_active_def default_rec_def invalid_rec_def
      count_invalid_def new_rec_def streak_rec_def Let_def split: if_splits)

lemma fresh_run:
  "fresh_view t b v \<Longrightarrow> 1 + int (length ts) < lim \<Longrightarrow>
   run_events (addr_step lim d (ip_key i)) (strikes f i rs (t # ts)) v
     = (False, Some (streak_rec rs (1 + int (length ts)) b))"
  using streak_run [of 1 ts lim d i f rs b] fresh_first [of t b v lim d i f rs]
  by (simp add: strikes_def)

lemma fresh_full:
  assumes "fresh_view t b v" "2 + int (length ts) = lim"
  shows "run_events (addr_step lim d (ip_key i)) (strikes f i rs (t # ts @ [u])) v
     = (False, Some (issue_ban u d (streak_rec rs lim b)))"
proof -
  have "strikes f i rs (t # ts @ [u]) = strikes f i rs (t # ts) @ [BanInvalid f i rs u]"
    by (simp add: strikes_def)
  then show ?thesis
    using fresh_run [of t b v ts lim d i f rs] assms
    by (simp add: run_events_append default_rec_def streak_last)
qed

lemma five: "length ts = 5 \<Longrightarrow> \<exists>t us u. ts = t # us @ [u] \<and> length us = 3"
  by (rule exI [of _ "hd ts"], rule exI [of _ "butlast (tl ts)"], rule exI [of _ "last ts"])
    (cases ts; auto)

text \<open>The store under the built-in limits, for an address it does not know.\<close>

definition unknown_to :: "ban_store \<Rightarrow> ip \<Rightarrow> bool" where
  "unknown_to s i \<longleftrightarrow> limit s = InvalidLimit \<and> ttl s = TempDuration \<and> ip_key i \<noteq> [] \<and>
     view (ip_key i) s = (False, None)"

lemma unknown_run:
  "unknown_to s i \<Longrightarrow> view (ip_key i) (run_events ban_step es s)
     = run_events (addr_step InvalidLimit TempDuration (ip_key i)) es (False, None)"
  using view_run [of "ip_key i" es s] by (simp add: unknown_to_def)

lemma few_strikes:
  assumes "unknown_to s i" "length ts \<le> 4"
  shows "\<not> blocked i now (run_events ban_step (strikes f i rs ts) s)"
proof (cases ts)
  case Nil
  then show ?thesis using assms(1) by (simp add: unknown_to_def blocked_view strikes_def rec_blocked_def)
next
  case (Cons t us)
  have "fresh_view t 0 (False, None)" by (simp add: fresh_view_def)
  from fresh_run [OF this, of us InvalidLimit TempDuration i f rs] show ?thesis
    using assms Cons by (simp add: blocked_view unknown_run InvalidLimit_def)
qed

lemma full_streak:
  assumes "length ts = 4"
  shows "run_events (addr_step InvalidLimit TempDuration (ip_key i)) (strikes f i rs (ts @ [t])) (False, None)
     = (False, Some (issue_ban t TempDuration (streak_rec rs InvalidLimit 0)))"
proof -
  obtain a as where ts: "ts = a # as" "length as = 3" using assms by (cases ts) auto
  have "fresh_view a 0 (False, None)" by (simp add: fresh_view_def)
  from fresh_full [OF this, of as InvalidLimit TempDuration i f rs t] show ?thesis
    using ts by (simp add: InvalidLimit_def)
qed

lemma first_ban_blocks:
  "0 < t \<Longrightarrow> rec_blocked now (Some (issue_ban t TempDuration (streak_rec rs InvalidLimit 0))) \<longleftrightarrow> now < t + TempDuration"
  by (simp add: issue_ban_def streak_rec_def rec_blocked_def rec_active_def TempDuration_def Let_def)

lemma fifth_strike:
  assumes "unknown_to s i" "length ts = 4" "0 < t"
  shows "blocked i now (run_events ban_step (strikes f i rs (ts @ [t])) s) \<longleftrightarrow> now < t + TempDuration"
  using assms unknown_run [OF assms(1)] full_streak [OF assms(2), of i f rs t] first_ban_blocks [of t]
  by (simp add: blocked_view unknown_to_def)

text \<open>
C12: five strikes. On a store with the built-in limits and for an address without a ban or pardon, up to four invalid events of one reason never block it, whatever their times; the fifth issues a ban that is temporary exactly until six hours after that event, and a second full streak of five starting after it has run out blocks the address at every later time. Neither file faults nor the reason matter.
\<close>

theorem five_strikes_then_permanent:
  assumes "unknown_to s i" "0 < t"
    and "length ts = 4" "length us = 5" "list_all (\<lambda>u. t + TempDuration \<le> u) us"
  shows "(\<forall>n \<le> 4. \<forall>now. \<not> blocked i now (run_events ban_step (strikes f i rs (take n ts)) s)) \<and>
     (\<forall>now. blocked i now (run_events ban_step (strikes f i rs (ts @ [t])) s) \<longleftrightarrow> now < t + TempDuration) \<and>
     (\<forall>now. blocked i now (run_events ban_step (strikes f i rs (ts @ [t]) @ strikes g i rs2 us) s))"
proof -
  let ?r = "issue_ban t TempDuration (streak_rec rs InvalidLimit 0)"
  let ?a = "addr_step InvalidLimit TempDuration (ip_key i)"
  obtain b bs u where us: "us = b # bs @ [u]" "length bs = 3" using five [OF assms(4)] by blast
  have "fresh_view b 1 (False, Some ?r)"
    using us assms(2,5) by (simp add: fresh_view_def issue_ban_def streak_rec_def Let_def TempDuration_def)
  from fresh_full [OF this, of bs InvalidLimit TempDuration i g rs2 u]
  have "run_events ?a (strikes g i rs2 us) (False, Some ?r)
      = (False, Some (issue_ban u TempDuration (streak_rec rs2 InvalidLimit 1)))"
    using us by (simp add: InvalidLimit_def)
  then have both: "run_events ?a (strikes f i rs (ts @ [t]) @ strikes g i rs2 us) (False, None)
      = (False, Some (issue_ban u TempDuration (streak_rec rs2 InvalidLimit 1)))"
    by (simp only: run_events_append full_streak [OF assms(3)])
  have "rec_blocked now (Some (issue_ban u TempDuration (streak_rec rs2 InvalidLimit 1)))" for now
    by (simp add: issue_ban_def streak_rec_def rec_blocked_def Let_def)
  then have "blocked i now (run_events ban_step (strikes f i rs (ts @ [t]) @ strikes g i rs2 us) s)" for now
    using assms(1) by (simp add: blocked_view unknown_run [OF assms(1)] both unknown_to_def)
  then show ?thesis
    using few_strikes [OF assms(1)] fifth_strike [OF assms(1,3,2)] assms(3) by simp
qed

lemma ip_key_4: "ip_key [a, b, c, d] = (if a = 0 \<and> b = 0 \<and> c = 0 \<and> d = 0 then [] else ipv4_string [a, b, c, d])"
  by (simp add: ip_key_alt is_unspecified_4 ip_string_def to4_def)

lemma ipv4_string_ne [simp]: "ipv4_string b \<noteq> []"
  by (simp add: ipv4_string_def)

theorem five_strikes_then_permanent_witness:
  "blocked [10, 0, 0, 1] 9 (run_events ban_step (strikes None [10, 0, 0, 1] ''acl'' [1, 2, 3, 4, 5])
     (ban_new [] \<lparr>target = Absent, temps = []\<rparr>))"
proof -
  let ?s = "ban_new [] \<lparr>target = Absent, temps = []\<rparr>"
  have "(\<forall>now. blocked [10, 0, 0, 1] now (run_events ban_step (strikes None [10, 0, 0, 1] ''acl'' ([1, 2, 3, 4] @ [5])) ?s)
      \<longleftrightarrow> now < 5 + TempDuration)"
    using five_strikes_then_permanent [of ?s "[10, 0, 0, 1]" 5 "[1, 2, 3, 4]" "replicate 5 (5 + TempDuration)"
        None "''acl''" None "''acl''"]
    by (simp add: view_ban_new ip_key_4 list_all_iff unknown_to_def)
  then show ?thesis by (simp add: TempDuration_def)
qed

section \<open>The contract other components use\<close>

text \<open>What the edge gate and the admin API rely on: a time-dependent block predicate per address,
  a pardon that automatic events respect, and the effect of each observation.\<close>

locale blocklist =
  fixes blk :: "'a \<Rightarrow> int \<Rightarrow> 's \<Rightarrow> bool" and pard :: "'a \<Rightarrow> 's \<Rightarrow> bool"
    and invalid :: "'f \<Rightarrow> 'a \<Rightarrow> string \<Rightarrow> int \<Rightarrow> 's \<Rightarrow> 's"
    and probe :: "'f \<Rightarrow> 'a \<Rightarrow> string \<Rightarrow> 's \<Rightarrow> 's"
    and valid :: "'a \<Rightarrow> 's \<Rightarrow> 's" and usable :: "'a \<Rightarrow> bool"
  assumes pardoned_invalid: "pard i s \<Longrightarrow> invalid f i rs t s = s"
    and pardoned_probe: "pard i s \<Longrightarrow> probe f i rs s = s"
    and probe_blocks: "usable i \<Longrightarrow> \<not> pard i s \<Longrightarrow> blk i t (probe f i rs s)"
    and probe_keeps: "blk j t s \<Longrightarrow> blk j t (probe f i rs s)"
    and invalid_keeps: "blk j t s \<Longrightarrow> t' \<le> t \<Longrightarrow> blk j t (invalid f i rs t' s)"
    and valid_keeps: "blk j t (valid i s) = blk j t s"
    and pard_keeps: "pard j (invalid f i rs t s) = pard j s" "pard j (probe f i rs s) = pard j s"
      "pard j (valid i s) = pard j s"
    and unusable: "\<not> usable i \<Longrightarrow> \<not> blk i t s"
begin

text \<open>Observations only ever add blocks, at the times that matter to the later ones.\<close>

lemma observations_keep:
  assumes "blk j t s" "\<forall>e \<in> set es. case e of Inl (f, i, rs, t') \<Rightarrow> t' \<le> t | Inr _ \<Rightarrow> True"
  shows "blk j t (foldl (\<lambda>s e. case e of Inl (f, i, rs, t') \<Rightarrow> invalid f i rs t' s
                                | Inr (f, i, rs) \<Rightarrow> probe f i rs s) s es)"
  using assms by (induction es arbitrary: s) (auto split: sum.splits intro: probe_keeps invalid_keeps)

lemma probe_then_valid: "usable i \<Longrightarrow> \<not> pard i s \<Longrightarrow> blk i t (valid j (probe f i rs s))"
  by (simp add: valid_keeps probe_blocks)

end

lemma blocked_after:
  "blocked i t (ban_step e s) \<longleftrightarrow>
     ip_key i \<noteq> [] \<and> rec_blocked t (snd (addr_step (limit s) (ttl s) (ip_key i) e (view (ip_key i) s)))"
  by (cases "ip_key i = []") (simp_all add: blocked_view view_step)

lemma pardoned_after:
  "is_pardoned i (ban_step e s) \<longleftrightarrow>
     ip_key i \<noteq> [] \<and> fst (addr_step (limit s) (ttl s) (ip_key i) e (view (ip_key i) s))"
  by (cases "ip_key i = []") (simp_all add: pardoned_view view_step)

lemma make_permanent_permanent [simp]: "permanent (make_permanent r)"
  by (simp add: make_permanent_def)

lemma make_permanent_blocked [simp]: "rec_blocked t (Some (make_permanent r))"
  by (simp add: rec_blocked_def)

lemma invalid_rec_blocked:
  "rec_blocked t (Some r) \<Longrightarrow> \<not> rec_blocked t' (Some r) \<Longrightarrow> t' \<le> t \<Longrightarrow> rec_blocked t (Some (invalid_rec lim d t' rs r))"
  by (auto simp: rec_blocked_def rec_active_def)

interpretation denylist: blocklist blocked is_pardoned observe_invalid ban_permanent observe_valid "\<lambda>i. ip_key i \<noteq> []"
proof
  fix i j :: ip and f rs t t' s
  show "is_pardoned i s \<Longrightarrow> observe_invalid f i rs t s = s"
    by (simp add: is_pardoned_def observe_invalid_def Let_def)
  show "is_pardoned i s \<Longrightarrow> ban_permanent f i rs s = s"
    by (simp add: is_pardoned_def ban_permanent_def Let_def)
  show "ip_key i \<noteq> [] \<Longrightarrow> \<not> is_pardoned i s \<Longrightarrow> blocked i t (ban_permanent f i rs s)"
    using blocked_after [of i t "BanProbe f i rs" s]
    by (cases "view (ip_key i) s") (auto simp: pardoned_view rec_blocked_def split: option.splits)
  show "blocked j t s \<Longrightarrow> blocked j t (ban_permanent f i rs s)"
    using blocked_after [of j t "BanProbe f i rs" s]
    by (cases "view (ip_key j) s") (auto simp: blocked_view)
  show "blocked j t s \<Longrightarrow> t' \<le> t \<Longrightarrow> blocked j t (observe_invalid f i rs t' s)"
    using blocked_after [of j t "BanInvalid f i rs t'" s]
    by (cases "view (ip_key j) s"; cases "snd (view (ip_key j) s)")
      (auto simp: blocked_view default_rec_def intro: invalid_rec_blocked, auto simp: rec_blocked_def)
  show "blocked j t (observe_valid i s) = blocked j t s"
    using blocked_after [of j t "BanValid i" s]
    by (cases "view (ip_key j) s"; cases "snd (view (ip_key j) s)")
      (auto simp: blocked_view rec_blocked_def rec_active_def)
  show "is_pardoned j (observe_invalid f i rs t s) = is_pardoned j s"
    using pardoned_after [of j "BanInvalid f i rs t" s] by (cases "view (ip_key j) s") (auto simp: pardoned_view)
  show "is_pardoned j (ban_permanent f i rs s) = is_pardoned j s"
    using pardoned_after [of j "BanProbe f i rs" s] by (cases "view (ip_key j) s") (auto simp: pardoned_view)
  show "is_pardoned j (observe_valid i s) = is_pardoned j s"
    using pardoned_after [of j "BanValid i" s] by (cases "view (ip_key j) s") (auto simp: pardoned_view)
  show "\<not> ip_key i \<noteq> [] \<Longrightarrow> \<not> blocked i t s" by (simp add: blocked_def)
qed

section \<open>Permanent means permanent, pardoned means pardoned\<close>

fun not_unban :: "ban_event \<Rightarrow> bool" where
  "not_unban (BanUnban f i) = False"
| "not_unban (BanUnbanCidrs f cs) = False"
| "not_unban _ = True"

lemma permanent_run:
  "list_all not_unban es \<Longrightarrow> r = Some x \<Longrightarrow> permanent x \<Longrightarrow>
   \<exists>y. run_events (addr_step lim d k) es (p, r) = (p, Some y) \<and> permanent y"
proof (induction es arbitrary: x r)
  case (Cons e es)
  then show ?case by (cases e) (auto simp: rec_blocked_def)
qed simp

lemma pardoned_run:
  "run_events (addr_step lim d k) es (True, None) = (True, None)"
proof (induction es)
  case (Cons e es)
  then show ?case by (cases e) auto
qed simp

text \<open>
A probe ban lasts. An address that is not pardoned and probes the tunnel port is blocked at every later time, whatever observations (invalid attempts, probes, valid traffic, from any address and with any file faults) follow: only an admin unban can lift it.
\<close>

theorem probe_ban_is_lasting:
  assumes "ip_key i \<noteq> []" "\<not> is_pardoned i s" "list_all not_unban es"
  shows "blocked i now (run_events ban_step es (ban_permanent f i rs s))"
proof -
  have "\<exists>x. view (ip_key i) (ban_permanent f i rs s) = (False, Some x) \<and> permanent x"
    using assms(1,2)
    by (cases "view (ip_key i) s")
      (auto simp: view_ban_permanent pardoned_view split: option.splits)
  then obtain x where "view (ip_key i) (ban_permanent f i rs s) = (False, Some x)" "permanent x" by blast
  then show ?thesis
    using permanent_run [OF assms(3), of _ x "limit (ban_permanent f i rs s)" "ttl (ban_permanent f i rs s)" "ip_key i" False]
    by (auto simp: blocked_view view_run [OF assms(1)] assms(1) rec_blocked_def)
qed

theorem probe_ban_is_lasting_witness:
  "blocked [10, 0, 0, 1] 99 (run_events ban_step [BanValid [10, 0, 0, 1]]
     (ban_permanent None [10, 0, 0, 1] ''probe'' (ban_new [] \<lparr>target = Absent, temps = []\<rparr>)))"
  using probe_ban_is_lasting [of "[10, 0, 0, 1]" "ban_new [] \<lparr>target = Absent, temps = []\<rparr>" "[BanValid [10, 0, 0, 1]]"
      99 None "''probe''"]
  by (simp add: ip_key_4 pardoned_view view_ban_new)

text \<open>
An unban lasts. Once an admin has unbanned a recorded address, the address is pardoned and no sequence of later events of any kind, invalid attempts and probes included, ever blocks it again; this holds even when the unban could not be saved and reported an error.
\<close>

theorem unban_is_lasting:
  assumes "ip_key i \<noteq> []" "map_of (by_ip s) (ip_key i) \<noteq> None"
  shows "\<not> blocked i now (run_events ban_step es (snd (unban f i s))) \<and>
         is_pardoned i (run_events ban_step es (snd (unban f i s)))"
proof -
  have "view (ip_key i) (snd (unban f i s)) = (True, None)"
    using assms(2) by (simp add: view_unban [OF assms(1)]) (simp add: view_def)
  then show ?thesis
    by (simp add: blocked_view pardoned_view view_run [OF assms(1)] assms(1) pardoned_run rec_blocked_def)
qed

theorem unban_is_lasting_witness:
  "let s = ban_permanent None [10, 0, 0, 1] ''probe'' (ban_new [] \<lparr>target = Absent, temps = []\<rparr>) in
   \<not> blocked [10, 0, 0, 1] 9 (run_events ban_step [BanProbe None [10, 0, 0, 1] ''probe''] (snd (unban None [10, 0, 0, 1] s)))"
proof -
  let ?s = "ban_permanent None [10, 0, 0, 1] ''probe'' (ban_new [] \<lparr>target = Absent, temps = []\<rparr>)"
  have "map_of (by_ip ?s) (ip_key [10, 0, 0, 1]) \<noteq> None"
    by (simp add: ip_key_4 ban_permanent_def ban_new_def ban_load_def Let_def)
  then show ?thesis
    using unban_is_lasting [of "[10, 0, 0, 1]" ?s 9 "[BanProbe None [10, 0, 0, 1] ''probe'']" None]
    by (simp add: ip_key_4 Let_def)
qed

section \<open>Restarts\<close>

lemma load_records_canon:
  assumes "distinct (map fst (m @ rs))" "\<forall>(k, r) \<in> set rs. canon_key k"
  shows "fold (\<lambda>(x, r) m. let k = ip_key (parse_ip x) in if k = [] then m else AList.update k r m) rs m = m @ rs"
  using assms
proof (induction rs arbitrary: m)
  case (Cons a rs)
  have "AList.update (fst a) (snd a) m = m @ [a]"
    using Cons.prems update_new [of "fst a" m] by (cases a) auto
  then show ?case
    using Cons.IH [of "m @ [a]"] Cons.prems by (cases a) (auto simp: canon_key_def Let_def)
qed simp

lemma load_pardons_canon:
  assumes "distinct (ps @ qs)" "\<forall>k \<in> set qs. canon_key k"
  shows "fold (\<lambda>x ps. let k = ip_key (parse_ip x) in if k = [] then ps else add_pardon k ps) qs ps = ps @ qs"
  using assms by (induction qs arbitrary: ps) (auto simp: canon_key_def Let_def add_pardon_def)

lemma view_load_document:
  assumes "ban_inv s" "ban_path t \<noteq> []" "target (ban_disk t) = Doc (ban_document s)"
  shows "view k (snd (ban_load t)) = (k \<in> set (pardons s),
     case map_of (by_ip s) k of None \<Rightarrow> None | Some r \<Rightarrow> if trivial_rec r then None else Some r)"
proof -
  define f where "f = filter (\<lambda>(k, r). \<not> trivial_rec r) (by_ip s)"
  have d: "distinct (map fst (by_ip s))" "distinct (pardons s)" "\<forall>k \<in> set (pardons s). canon_key k"
    and r: "\<And>k r. map_of (by_ip s) k = Some r \<Longrightarrow> canon_key k"
    using assms(1) unfolding ban_inv_def by blast+
  have "\<forall>(k, r) \<in> set f. canon_key k"
    unfolding f_def using r map_of_mem [OF d(1)] by fastforce
  moreover have "distinct (map fst f)"
    using d(1) by (simp add: f_def distinct_map_filter)
  ultimately have "load_records f = f"
    unfolding load_records_def using load_records_canon [of "[]" f] by simp
  moreover have "load_pardons (sort (pardons s)) = sort (pardons s)"
    unfolding load_pardons_def using d(2,3) load_pardons_canon [of "[]" "sort (pardons s)"] by simp
  moreover have "map_of f k = (case map_of (by_ip s) k of None \<Rightarrow> None | Some r \<Rightarrow> if trivial_rec r then None else Some r)"
    unfolding f_def map_of_filter_kv [OF d(1)] by (simp split: option.splits)
  ultimately show ?thesis
    using assms(2,3) by (simp add: ban_load_def ban_document_def view_def f_def)
qed

text \<open>
C35: bans survive a restart. When a store that satisfies the invariant is saved without a file fault, a new store loaded from that file blocks exactly the same addresses at exactly the same times, reports the same kinds, and pardons the same addresses.
\<close>

theorem ban_restart_roundtrip:
  assumes "ban_inv s" "ban_path s \<noteq> []"
  shows "let s' = ban_new (ban_path s) (ban_disk (snd (persist_locked None s))) in
     blocked i now s' = blocked i now s \<and> ban_kind_of i now s' = ban_kind_of i now s \<and>
     is_pardoned i s' = is_pardoned i s"
proof -
  let ?s = "ban_new (ban_path s) (ban_disk (snd (persist_locked None s)))"
  have "view k ?s = (k \<in> set (pardons s),
     case map_of (by_ip s) k of None \<Rightarrow> None | Some r \<Rightarrow> if trivial_rec r then None else Some r)" for k
    unfolding ban_new_def using assms
    by (intro view_load_document) (simp_all add: persist_locked_def atomic_save_cases)
  then show ?thesis
    by (auto simp: Let_def blocked_view pardoned_view ban_kind_of_def view_def rec_blocked_def rec_kind_def
        trivial_rec_def rec_active_def split: option.splits)
qed

theorem ban_restart_roundtrip_witness:
  "let s = ban_permanent (Some SyncTemp) [10, 0, 0, 1] ''probe'' (ban_new ''d.json'' \<lparr>target = Absent, temps = []\<rparr>) in
   blocked [10, 0, 0, 1] 5 (ban_new (ban_path s) (ban_disk (snd (persist_locked None s))))"
proof -
  let ?e = "ban_new ''d.json'' \<lparr>target = Absent, temps = []\<rparr>"
  let ?s = "ban_permanent (Some SyncTemp) [10, 0, 0, 1] ''probe'' ?e"
  have "ban_inv ?s"
    using ban_step_inv [OF _ ban_inv_empty, of "BanProbe (Some SyncTemp) [10, 0, 0, 1] ''probe''"]
    by (simp add: real_ip_def)
  moreover have "blocked [10, 0, 0, 1] 5 ?s"
    by (rule denylist.probe_blocks) (simp_all add: ip_key_4 pardoned_view view_ban_new)
  moreover have "ban_path ?s \<noteq> []"
    by (simp add: ip_key_4 ban_permanent_def ban_new_def ban_load_def Let_def)
  ultimately show ?thesis
    using ban_restart_roundtrip [of ?s "[10, 0, 0, 1]" 5] by (simp add: Let_def)
qed

section \<open>The admin view and bulk unban\<close>

lemma counts_list:
  "foldl (\<lambda>(temp, perm) (k, r).
        if permanent r then (temp, perm + 1)
        else if rec_active now r then (temp + 1, perm) else (temp, perm)) (a, b) m
   = (a + length (filter (\<lambda>e. entry_kind e = KindTemporary) (List.map_filter (list_entry now) m)),
      b + length (filter (\<lambda>e. entry_kind e = KindPermanent) (List.map_filter (list_entry now) m)))"
proof (induction m arbitrary: a b)
  case (Cons x m)
  then show ?case by (cases x) (auto simp: map_filter_simps list_entry_def)
qed simp

lemma mem_map_filter: "e \<in> set (List.map_filter f m) \<longleftrightarrow> (\<exists>x \<in> set m. f x = Some e)"
  by (induction m) (auto simp: map_filter_simps split: option.splits)

lemma set_ban_list: "e \<in> set (ban_list now s) \<longleftrightarrow> (\<exists>x \<in> set (by_ip s). list_entry now x = Some e)"
  by (simp add: ban_list_def mem_map_filter)

text \<open>
The admin view tells the truth. An address is blocked exactly when its kind is not empty, and exactly when the list has an entry for its key whose kind is temporary or permanent; and the two counters are the numbers of temporary and permanent entries of the list.
\<close>

theorem ban_list_and_counts_agree:
  assumes "ban_inv s" "ip_key i \<noteq> []"
  shows "(blocked i now s \<longleftrightarrow> NotBanned < ban_kind_of i now s) \<and>
     (blocked i now s \<longleftrightarrow>
        (\<exists>e \<in> set (ban_list now s). entry_ip e = ip_key i \<and> entry_kind e = ban_kind_of i now s \<and>
            entry_kind e \<noteq> NotBanned)) \<and>
     ban_counts now s =
       (length (filter (\<lambda>e. entry_kind e = KindTemporary) (ban_list now s)),
        length (filter (\<lambda>e. entry_kind e = KindPermanent) (ban_list now s)))"
proof (intro conjI)
  have d: "distinct (map fst (by_ip s))" using assms(1) by (simp add: ban_inv_def)
  show k: "blocked i now s \<longleftrightarrow> NotBanned < ban_kind_of i now s"
    using assms(2) by (auto simp: blocked_view view_def ban_kind_of_def Let_def rec_blocked_def rec_kind_def
        less_ban_kind_def split: option.splits)
  show "ban_counts now s =
       (length (filter (\<lambda>e. entry_kind e = KindTemporary) (ban_list now s)),
        length (filter (\<lambda>e. entry_kind e = KindPermanent) (ban_list now s)))"
    unfolding ban_counts_def ban_list_def counts_list by simp
  show "blocked i now s \<longleftrightarrow>
        (\<exists>e \<in> set (ban_list now s). entry_ip e = ip_key i \<and> entry_kind e = ban_kind_of i now s \<and>
            entry_kind e \<noteq> NotBanned)" (is "_ = ?R")
  proof
    assume "blocked i now s"
    then obtain r where "map_of (by_ip s) (ip_key i) = Some r" "permanent r \<or> rec_active now r"
      by (auto simp: blocked_view view_def rec_blocked_def split: option.splits)
    then have "(ip_key i, r) \<in> set (by_ip s)" and
      "\<exists>e. list_entry now (ip_key i, r) = Some e \<and> entry_ip e = ip_key i \<and>
         entry_kind e = ban_kind_of i now s \<and> entry_kind e \<noteq> NotBanned"
      using assms(2) by (auto simp: map_of_SomeD list_entry_def ban_kind_of_def rec_kind_def Let_def)
    then show ?R unfolding Bex_def set_ban_list by blast
  next
    assume ?R
    then have "ban_kind_of i now s \<noteq> NotBanned" by auto
    then show "blocked i now s"
      using k by (cases "ban_kind_of i now s") (auto simp: less_ban_kind_def)
  qed
qed

theorem ban_list_and_counts_agree_witness:
  "ban_counts 5 (ban_new [] \<lparr>target = Absent, temps = []\<rparr>)
     = (length (filter (\<lambda>e. entry_kind e = KindTemporary) (ban_list 5 (ban_new [] \<lparr>target = Absent, temps = []\<rparr>))),
        length (filter (\<lambda>e. entry_kind e = KindPermanent) (ban_list 5 (ban_new [] \<lparr>target = Absent, temps = []\<rparr>))))"
  using ban_list_and_counts_agree [OF ban_inv_empty, of "[10, 0, 0, 1]" 5 "[]" "[]"]
  by (simp add: ip_key_4)

text \<open>
A bulk unban lifts exactly the recorded addresses that lie in one of the given networks: their records go and they become pardoned, every other record stays as it was, pardons are never withdrawn, and the change hooks are not called.
\<close>

theorem unban_cidrs_exact:
  "let nets = List.map_filter unban_net cs; s' = unban_cidrs f cs s in
     (\<forall>k. map_of (by_ip s') k = (if key_matches nets k then None else map_of (by_ip s) k)) \<and>
     set (pardons s') = set (pardons s) \<union> {k. map_of (by_ip s) k \<noteq> None \<and> key_matches nets k} \<and>
     calls s' = calls s"
proof -
  let ?nets = "List.map_filter unban_net cs" and ?s = "unban_cidrs f cs s"
  have v: "view k ?s = (if key_matches ?nets k \<and> map_of (by_ip s) k \<noteq> None then (True, None) else view k s)" for k
    using view_unban_cidrs [of k f cs s] by (cases "view k s") (auto simp: view_def)
  have "map_of (by_ip ?s) k = (if key_matches ?nets k then None else map_of (by_ip s) k)" for k
    using v [of k] by (auto simp: view_def split: if_splits)
  moreover have "k \<in> set (pardons ?s) \<longleftrightarrow> k \<in> set (pardons s) \<or> (map_of (by_ip s) k \<noteq> None \<and> key_matches ?nets k)" for k
    using v [of k] by (auto simp: view_def split: if_splits)
  moreover have "calls ?s = calls s" by (simp add: unban_cidrs_def Let_def)
  ultimately show ?thesis by (auto simp: Let_def)
qed

lemma count_invalid_unblocked:
  "\<not> rec_blocked now r \<Longrightarrow> \<not> rec_blocked t (Some (count_invalid now rs (default_rec r)))"
  by (cases r) (auto simp: rec_blocked_def rec_active_def count_invalid_def default_rec_def new_rec_def Let_def)

text \<open>
What the change hooks are told. Issuing a ban (a strike that reaches the limit, or a probe) calls every registered hook once, after the new state is in place, and does so even if saving failed, in which case the file keeps its old content; an admin unban calls no hook although it removes a ban.
\<close>

theorem ban_hooks_and_faults:
  "(\<not> is_pardoned i s \<and> ip_key i \<noteq> [] \<and> ban_kind_of i now s \<noteq> KindPermanent \<longrightarrow>
      calls (ban_permanent f i rs s) = calls s @ hooks s) \<and>
   (\<not> is_pardoned i s \<and> \<not> blocked i now s \<and> blocked i later (observe_invalid f i rs now s) \<longrightarrow>
      calls (observe_invalid f i rs now s) = calls s @ hooks s) \<and>
   calls (snd (unban f i s)) = calls s \<and>
   ban_disk (ban_permanent (Some p) i rs s) = ban_disk s"
proof (intro conjI impI)
  show "calls (ban_permanent f i rs s) = calls s @ hooks s"
    if "\<not> is_pardoned i s \<and> ip_key i \<noteq> [] \<and> ban_kind_of i now s \<noteq> KindPermanent"
    using that by (auto simp: ban_permanent_def is_pardoned_def Let_def ban_kind_of_def rec_kind_def split: option.splits if_splits)
  show "calls (snd (unban f i s)) = calls s" by (simp add: unban_state Let_def)
  show "ban_disk (ban_permanent (Some p) i rs s) = ban_disk s"
    by (auto simp: ban_permanent_def Let_def persist_locked_def atomic_save_cases split: option.splits)
  assume a: "\<not> is_pardoned i s \<and> \<not> blocked i now s \<and> blocked i later (observe_invalid f i rs now s)"
  show "calls (observe_invalid f i rs now s) = calls s @ hooks s"
  proof (rule ccontr)
    assume "calls (observe_invalid f i rs now s) \<noteq> calls s @ hooks s"
    then have "snd (view (ip_key i) (observe_invalid f i rs now s)) =
        Some (count_invalid now rs (default_rec (snd (view (ip_key i) s))))"
      using a by (auto simp: observe_invalid_def Let_def view_def get_rec_def default_rec_def is_pardoned_def
          blocked_def split: if_splits)
    then show False
      using a count_invalid_unblocked [of now "snd (view (ip_key i) s)" later rs]
      by (auto simp: blocked_view)
  qed
qed

theorem ban_hooks_and_faults_witness:
  "calls (ban_permanent (Some WriteTemp) [10, 0, 0, 1] ''probe''
     (on_change ''evictDisallowed'' (ban_new [] \<lparr>target = Absent, temps = []\<rparr>))) = [''evictDisallowed'']"
proof -
  let ?s = "on_change ''evictDisallowed'' (ban_new [] \<lparr>target = Absent, temps = []\<rparr>)"
  have "by_ip ?s = []" "pardons ?s = []" "calls ?s = []" "hooks ?s = [''evictDisallowed'']"
    by (simp_all add: on_change_def ban_new_def ban_load_def)
  then show ?thesis
    using ban_hooks_and_faults [of "[10, 0, 0, 1]" ?s 0 "Some WriteTemp" "''probe''" 0 WriteTemp]
    by (simp add: is_pardoned_def ban_kind_of_def ip_key_4 Let_def)
qed

end
