(* ===== verification/Acl.thy ===== *)
theory Acl
  imports NetMask DiskFile
begin

text \<open>
  The allowlist: \<open>internal/acl/allowlist.go\<close> (the list and its decision), \<open>store.go\<close> (the
  hot-updatable store), \<open>file.go\<close> (the file form) and \<open>bootstrap.go\<close> (the start-up choice).

  The JSON text of the file is decoded by \<open>encoding/json\<close>; the model has the decoded value, and
  a file that does not decode is \<open>Malformed\<close>. \<open>acl_calls\<close> is the log of the change hooks that
  ran; the audit log is not modelled.
\<close>

datatype acl_error =
    EmptyCidr | InvalidNet | InvalidIpOrCidr | InvalidMask | EntryError nat string acl_error
  | AddError string acl_error | RemoveError string acl_error | SaveError fs_op | EmptyPath
  | NotFound | StatError | NotJSON | EmptyDocument

record acl_list =
  entries :: "string list"
  nets :: "ipnet list"

section \<open>Entries\<close>

definition canonicalize_net :: "ipnet \<Rightarrow> ipnet" where
  "canonicalize_net n =
     (case to4 (net_ip n) of
        Some v4 \<Rightarrow>
          (let (ones, _) = mask_size (net_mask n) in
           if length (net_mask n) = 16 \<and> 96 \<le> ones
           then \<lparr>net_ip = v4, net_mask = cidr_mask (ones - 96) 32\<rparr>
           else \<lparr>net_ip = v4, net_mask = net_mask n\<rparr>)
      | None \<Rightarrow> n)"

definition acl_parse_cidr :: "string \<Rightarrow> acl_error + ipnet" where
  "acl_parse_cidr s0 =
     (let s = trim_space s0 in
      if s = [] then Inl EmptyCidr
      else if contains_byte s CHR ''/'' then
        (case parse_cidr s of None \<Rightarrow> Inl InvalidNet | Some n \<Rightarrow> Inr (canonicalize_net n))
      else let i = parse_ip s in
        if i = [] then Inl InvalidIpOrCidr
        else case to4 i of
          Some v4 \<Rightarrow> Inr \<lparr>net_ip = v4, net_mask = cidr_mask 32 32\<rparr>
        | None \<Rightarrow> Inr \<lparr>net_ip = i, net_mask = cidr_mask 128 128\<rparr>)"

text \<open>\<open>parseAll\<close>: \<open>i\<close> is the index of the next entry; blank entries are skipped.\<close>

fun parse_all :: "nat \<Rightarrow> string list \<Rightarrow> acl_error + (string list \<times> ipnet list)" where
  "parse_all i [] = Inr ([], [])"
| "parse_all i (raw # rest) =
     (let s = trim_space raw in
      if s = [] then parse_all (i + 1) rest
      else case acl_parse_cidr s of
        Inl e \<Rightarrow> Inl (EntryError i s e)
      | Inr n \<Rightarrow> rbind (parse_all (i + 1) rest) (\<lambda>(es, ns). Inr (s # es, n # ns)))"

definition normalize_ip :: "ip \<Rightarrow> ip" where
  "normalize_ip i = (case to4 i of Some v4 \<Rightarrow> v4 | None \<Rightarrow> i)"

definition list_replace :: "string list \<Rightarrow> acl_list \<Rightarrow> (acl_error + unit) \<times> acl_list" where
  "list_replace cidrs l =
     (case parse_all 0 cidrs of
        Inl e \<Rightarrow> (Inl e, l)
      | Inr (es, ns) \<Rightarrow> (Inr (), \<lparr>entries = es, nets = ns\<rparr>))"

definition empty_list :: acl_list where
  "empty_list = \<lparr>entries = [], nets = []\<rparr>"

definition acl_new :: "string list \<Rightarrow> acl_error + acl_list" where
  "acl_new cidrs =
     (case list_replace cidrs empty_list of (Inl e, _) \<Rightarrow> Inl e | (Inr _, l) \<Rightarrow> Inr l)"

definition allow :: "ip \<Rightarrow> acl_list \<Rightarrow> bool" where
  "allow i l =
     (if i = [] \<or> is_unspecified i then False
      else let i' = normalize_ip i in list_ex (\<lambda>n. net_contains n i') (nets l))"

text \<open>\<open>normalizeKey\<close>: the network in printed form.\<close>

definition normalize_key :: "string \<Rightarrow> acl_error + string" where
  "normalize_key s =
     rbind (acl_parse_cidr s) (\<lambda>n.
       let (ones, bits) = mask_size (net_mask n) in
       if bits = 0 then Inl InvalidMask
       else Inr (ip_string (net_ip n) @ ''/'' @ nat_string ones))"

section \<open>The store\<close>

record acl_store =
  acl_live :: acl_list
  acl_path :: string
  acl_hooks :: "string list"
  acl_calls :: "string list"
  acl_disk :: "string list disk"

definition new_store :: "acl_list option \<Rightarrow> string \<Rightarrow> string list disk \<Rightarrow> acl_store" where
  "new_store l p k =
     \<lparr>acl_live = (case l of None \<Rightarrow> empty_list | Some x \<Rightarrow> x), acl_path = trim_space p,
      acl_hooks = [], acl_calls = [], acl_disk = k\<rparr>"

definition acl_on_change :: "string \<Rightarrow> acl_store \<Rightarrow> acl_store" where
  "acl_on_change f s = s\<lparr>acl_hooks := acl_hooks s @ [f]\<rparr>"

definition acl_notify :: "acl_store \<Rightarrow> acl_store" where
  "acl_notify s = s\<lparr>acl_calls := acl_calls s @ acl_hooks s\<rparr>"

definition save_file :: "fs_op option \<Rightarrow> string \<Rightarrow> string list \<Rightarrow> string list disk \<Rightarrow> (acl_error + unit) \<times> string list disk" where
  "save_file flt p cidrs k =
     (if p = [] then (Inl EmptyPath, k)
      else case atomic_save flt cidrs k of
        (Inl op, k') \<Rightarrow> (Inl (SaveError op), k')
      | (Inr u, k') \<Rightarrow> (Inr (), k'))"

definition acl_persist :: "fs_op option \<Rightarrow> acl_store \<Rightarrow> (acl_error + unit) \<times> acl_store" where
  "acl_persist flt s =
     (if acl_path s = [] then (Inr (), s)
      else let (r, k) = save_file flt (acl_path s) (entries (acl_live s)) (acl_disk s)
           in (r, s\<lparr>acl_disk := k\<rparr>))"

text \<open>The common tail of \<open>Replace\<close>, \<open>Add\<close> and \<open>Remove\<close>: swap the list, persist, notify.\<close>

definition commit_list :: "fs_op option \<Rightarrow> string list \<Rightarrow> acl_store \<Rightarrow> (acl_error + unit) \<times> acl_store" where
  "commit_list flt cidrs s =
     (case list_replace cidrs (acl_live s) of
        (Inl e, _) \<Rightarrow> (Inl e, s)
      | (Inr _, l) \<Rightarrow>
          (case acl_persist flt (s\<lparr>acl_live := l\<rparr>) of
             (Inl e, s') \<Rightarrow> (Inl e, s')
           | (Inr _, s') \<Rightarrow> (Inr (), acl_notify s')))"

definition acl_replace :: "fs_op option \<Rightarrow> string list \<Rightarrow> acl_store \<Rightarrow> (acl_error + unit) \<times> acl_store" where
  "acl_replace flt cidrs s = commit_list flt cidrs s"

text \<open>The keys of the current entries; an entry that does not parse stops the operation.\<close>

fun entry_keys :: "string list \<Rightarrow> acl_error + string list" where
  "entry_keys [] = Inr []"
| "entry_keys (e # es) = rbind (normalize_key e) (\<lambda>k. rbind (entry_keys es) (\<lambda>ks. Inr (k # ks)))"

text \<open>\<open>Add\<close>'s loop over the new CIDRs: \<open>seen\<close> holds the keys so far; the result is what was
  added, in order.\<close>

fun add_loop :: "string list \<Rightarrow> string list \<Rightarrow> acl_error + string list" where
  "add_loop seen [] = Inr []"
| "add_loop seen (raw # rest) =
     (let s = trim_space raw in
      if s = [] then add_loop seen rest
      else case normalize_key s of
        Inl e \<Rightarrow> Inl (AddError s e)
      | Inr k \<Rightarrow> if k \<in> set seen then add_loop seen rest
                 else rbind (add_loop (k # seen) rest) (\<lambda>added. Inr (s # added)))"

definition acl_add :: "fs_op option \<Rightarrow> string list \<Rightarrow> acl_store \<Rightarrow> (acl_error + unit) \<times> acl_store" where
  "acl_add flt cidrs s =
     (let cur = entries (acl_live s) in
      case rbind (entry_keys cur) (\<lambda>seen. add_loop seen cidrs) of
        Inl e \<Rightarrow> (Inl e, s)
      | Inr added \<Rightarrow> if added = [] then (Inr (), s) else commit_list flt (cur @ added) s)"

fun drop_keys :: "string list \<Rightarrow> acl_error + string list" where
  "drop_keys [] = Inr []"
| "drop_keys (raw # rest) =
     (let s = trim_space raw in
      if s = [] then drop_keys rest
      else case normalize_key s of
        Inl e \<Rightarrow> Inl (RemoveError s e)
      | Inr k \<Rightarrow> rbind (drop_keys rest) (\<lambda>ks. Inr (k # ks)))"

text \<open>\<open>Remove\<close>'s loop over the current entries: what stays, what goes.\<close>

fun remove_loop :: "string list \<Rightarrow> string list \<Rightarrow> acl_error + (string list \<times> string list)" where
  "remove_loop gone [] = Inr ([], [])"
| "remove_loop gone (e # es) =
     rbind (normalize_key e) (\<lambda>k. rbind (remove_loop gone es) (\<lambda>(out, removed).
       if k \<in> set gone then Inr (out, e # removed) else Inr (e # out, removed)))"

definition acl_remove :: "fs_op option \<Rightarrow> string list \<Rightarrow> acl_store \<Rightarrow> (acl_error + unit) \<times> acl_store" where
  "acl_remove flt cidrs s =
     (case drop_keys cidrs of
        Inl e \<Rightarrow> (Inl e, s)
      | Inr gone \<Rightarrow>
          if gone = [] then (Inr (), s)
          else (case remove_loop gone (entries (acl_live s)) of
            Inl e \<Rightarrow> (Inl e, s)
          | Inr (out, removed) \<Rightarrow>
              (if removed = [] then (Inr (), s) else commit_list flt out s)))"

section \<open>Start-up\<close>

text \<open>\<open>LoadFile\<close>: the file's list, through \<open>New\<close>.\<close>

definition load_file :: "string list disk \<Rightarrow> acl_error + acl_list" where
  "load_file k =
     (case target k of
        Absent \<Rightarrow> Inl NotFound
      | Unreadable \<Rightarrow> Inl StatError
      | Malformed \<Rightarrow> Inl NotJSON
      | Doc cidrs \<Rightarrow> acl_new cidrs)"

text \<open>\<open>FromConfig\<close>: the file wins; without one the YAML entries (or loopback) are used and
  written. A failure to write is only logged.\<close>

definition loopback_entries :: "string list" where
  "loopback_entries = [''127.0.0.1/32'', ''::1/128'']"

definition from_config :: "fs_op option \<Rightarrow> string \<Rightarrow> string list \<Rightarrow> string list disk \<Rightarrow> (acl_error + acl_list) \<times> string list disk" where
  "from_config flt p yaml k =
     (if p \<noteq> [] \<and> target k \<noteq> Absent then (load_file k, k)
      else let es = (if yaml = [] \<and> p \<noteq> [] then loopback_entries else yaml) in
        case acl_new es of
          Inl e \<Rightarrow> (Inl e, k)
        | Inr l \<Rightarrow> (Inr l, if p \<noteq> [] then snd (save_file flt p es k) else k))"

section \<open>The file form\<close>

text \<open>What \<open>encoding/json\<close> decodes a text to; the decoder itself is an argument.\<close>

datatype json = JNull | JBool bool | JNum int | JStr string | JArr "json list" | JObj "(string \<times> json) list"

text \<open>\<open>json.Unmarshal\<close> into \<open>[]string\<close> (null leaves the zero value) and into the struct
  \<open>fileDTO\<close> (the key is matched without regard to case, the last one wins, null leaves it).\<close>

fun json_strings :: "json list \<Rightarrow> string list option" where
  "json_strings [] = Some []"
| "json_strings (JStr s # js) = map_option (Cons s) (json_strings js)"
| "json_strings (JNull # js) = map_option (Cons []) (json_strings js)"
| "json_strings (_ # js) = None"

fun json_cidrs :: "string list \<Rightarrow> (string \<times> json) list \<Rightarrow> string list option" where
  "json_cidrs cur [] = Some cur"
| "json_cidrs cur ((k, v) # fs) =
     (if equal_fold k ''cidrs''
      then (case v of
              JArr js \<Rightarrow> Option.bind (json_strings js) (\<lambda>c. json_cidrs c fs)
            | JNull \<Rightarrow> json_cidrs [] fs
            | _ \<Rightarrow> None)
      else json_cidrs cur fs)"

definition parse_json :: "(string \<Rightarrow> json option) \<Rightarrow> string \<Rightarrow> acl_error + string list" where
  "parse_json dec data0 =
     (let data = trim_space data0 in
      if data = [] then Inl EmptyDocument
      else case dec data of
        None \<Rightarrow> Inl NotJSON
      | Some j \<Rightarrow>
          (case (if hd data = CHR ''['' then (case j of JArr js \<Rightarrow> json_strings js | _ \<Rightarrow> None)
                 else (case j of JObj fs \<Rightarrow> json_cidrs [] fs | JNull \<Rightarrow> Some [] | _ \<Rightarrow> None)) of
             None \<Rightarrow> Inl NotJSON
           | Some c \<Rightarrow> Inr c))"

section \<open>Networks the list can hold\<close>

text \<open>Every network of a list is an IPv4 prefix in 4-byte form or an IPv6 prefix that is not an
  IPv4-mapped one.\<close>

definition net_ok :: "ipnet \<Rightarrow> bool" where
  "net_ok n \<longleftrightarrow>
     (\<exists>k \<le> 32. length (net_ip n) = 4 \<and> net_mask n = cidr_mask k 32) \<or>
     (\<exists>k \<le> 128. length (net_ip n) = 16 \<and> to4 (net_ip n) = None \<and> net_mask n = cidr_mask k 128)"

lemma to4_4 [simp]: "length v = 4 \<Longrightarrow> to4 v = Some v"
  by (simp add: to4_def)

lemma to4_length: "to4 i = Some v \<Longrightarrow> length v = 4"
  by (auto simp: to4_def split: if_splits)

lemma to16_length: "length b = 4 \<or> length b = 16 \<Longrightarrow> length (to16 b) = 16"
  by (auto simp: to16_def v4_prefix_def)

lemma to4_to16_4 [simp]: "length b = 4 \<Longrightarrow> to4 (to16 b) = Some b"
  by (simp add: to4_def to16_def v4_prefix_def)

lemma length_ip_mask: "length i = length m \<Longrightarrow> length (ip_mask i m) \<le> length i"
  by (auto simp: ip_mask_def Let_def and_bytes_def)

lemma mask_ones_32: "k \<le> 32 \<Longrightarrow> mask_ones (cidr_mask k 32) = Some k"
  using mask_ones_cidr [of k 4] by simp

lemma mask_ones_128: "k \<le> 128 \<Longrightarrow> mask_ones (cidr_mask k 128) = Some k"
  using mask_ones_cidr [of k 16] by simp

lemma ip_mask_v4: "length b = 4 \<Longrightarrow> length m = 4 \<Longrightarrow> ip_mask (to16 b) m = and_bytes b m"
  by (simp add: ip_mask_def to16_def v4_prefix_def Let_def)

lemma ip_mask_v6: "length b = 16 \<Longrightarrow> length m = 16 \<Longrightarrow> ip_mask b m = and_bytes b m"
  by (simp add: ip_mask_def Let_def)

lemma length_and_bytes [simp]: "length (and_bytes a b) = min (length a) (length b)"
  by (simp add: and_bytes_def)

lemma parse_cidr_Some:
  assumes "parse_cidr s = Some n"
  shows "(\<exists>b k. length b = 4 \<and> k \<le> 32 \<and> n = \<lparr>net_ip = and_bytes b (cidr_mask k 32), net_mask = cidr_mask k 32\<rparr>) \<or>
         (\<exists>b k. length b = 16 \<and> k \<le> 128 \<and> n = \<lparr>net_ip = and_bytes b (cidr_mask k 128), net_mask = cidr_mask k 128\<rparr>)"
proof -
  obtain a m b where b: "parse_addr a = Some b" "\<not> dec_val m > 8 * length b"
    "n = \<lparr>net_ip = ip_mask (to16 b) (cidr_mask (dec_val m) (8 * length b)), net_mask = cidr_mask (dec_val m) (8 * length b)\<rparr>"
    using assms by (auto simp: parse_cidr_def Let_def split: option.splits if_splits prod.splits)
  from parse_addr_length [OF b(1)] show ?thesis
  proof
    assume l: "length b = 4"
    then show ?thesis
      using b(2,3) ip_mask_v4 [OF l, of "cidr_mask (dec_val m) 32"]
      by (intro disjI1 exI [of _ b] exI [of _ "dec_val m"]) simp
  next
    assume l: "length b = 16"
    then have "to16 b = b" by (simp add: to16_def)
    then show ?thesis
      using l b(2,3) ip_mask_v6 [OF l, of "cidr_mask (dec_val m) 128"]
      by (intro disjI2 exI [of _ b] exI [of _ "dec_val m"]) simp
  qed
qed

text \<open>A mapped IPv4 network in 16-byte form needs at least 96 ones.\<close>

lemma mask_byte_full: "j \<le> 8 \<Longrightarrow> x AND mask_byte j = 255 \<Longrightarrow> j = 8"
proof (rule ccontr)
  assume a: "j \<le> 8" "x AND mask_byte j = 255" "j \<noteq> 8"
  have "\<not> bit (x AND mask_byte j) (7 - j)"
    using a(1,3) bit_mask_byte [of j j] by (simp add: bit_and_iff)
  moreover have "bit (255 :: byte) (7 - j)"
    using a(1,3) bit_mask_byte [of j 8] by simp
  ultimately show False using a(2) by simp
qed

lemma mapped_needs_96:
  assumes "length b = 16" "to4 (and_bytes b (cidr_mask k 128)) = Some v"
  shows "96 \<le> k"
proof -
  have "take 12 (and_bytes b (cidr_mask k 128)) = v4_prefix"
    using assms by (simp add: to4_def split: if_splits)
  then have "take 12 (and_bytes b (cidr_mask k 128)) ! 11 = 255"
    by (simp add: v4_prefix_def nth_append)
  then have "b ! 11 AND mask_byte (min 8 (k - 88)) = 255"
    using assms(1) by (simp add: and_bytes_def) (simp add: cidr_mask_def)
  from mask_byte_full [OF _ this] show ?thesis by simp
qed

lemma net_ok_v4: "length v = 4 \<Longrightarrow> k \<le> 32 \<Longrightarrow> net_ok \<lparr>net_ip = v, net_mask = cidr_mask k 32\<rparr>"
  by (auto simp: net_ok_def)

lemma net_ok_v6:
  "length v = 16 \<Longrightarrow> to4 v = None \<Longrightarrow> k \<le> 128 \<Longrightarrow> net_ok \<lparr>net_ip = v, net_mask = cidr_mask k 128\<rparr>"
  by (auto simp: net_ok_def)

lemma canonicalize_ok:
  "parse_cidr s = Some n \<Longrightarrow> net_ok (canonicalize_net n)"
proof -
  assume "parse_cidr s = Some n"
  from parse_cidr_Some [OF this] show ?thesis
  proof (elim disjE exE conjE)
    fix b k assume "length b = 4" "k \<le> (32 :: nat)"
      and n: "n = \<lparr>net_ip = and_bytes b (cidr_mask k 32), net_mask = cidr_mask k 32\<rparr>"
    then have "to4 (net_ip n) = Some (net_ip n)" by simp
    then show ?thesis
      using \<open>k \<le> 32\<close> \<open>length b = 4\<close> by (auto simp: canonicalize_net_def n net_ok_def split: prod.splits)
  next
    fix b k assume b: "length b = 16" "k \<le> (128 :: nat)"
      and n: "n = \<lparr>net_ip = and_bytes b (cidr_mask k 128), net_mask = cidr_mask k 128\<rparr>"
    show ?thesis
    proof (cases "to4 (net_ip n)")
      case None
      then show ?thesis using b by (auto simp: canonicalize_net_def n net_ok_def)
    next
      case (Some v)
      then have "96 \<le> k" using mapped_needs_96 b(1) by (simp add: n)
      then have "canonicalize_net n = \<lparr>net_ip = v, net_mask = cidr_mask (k - 96) 32\<rparr>"
        using Some b mask_ones_128 [of k] by (simp add: canonicalize_net_def n mask_size_def)
      then show ?thesis using to4_length [OF Some] b(2) net_ok_v4 [of v "k - 96"] by simp
    qed
  qed
qed

lemma parse_ip_cases: "parse_ip s \<noteq> [] \<Longrightarrow> length (parse_ip s) = 16"
  by (auto simp: parse_ip_def to16_length dest: parse_addr_length split: option.splits)

lemma acl_parse_cidr_ok: "acl_parse_cidr s = Inr n \<Longrightarrow> net_ok n"
  using canonicalize_ok parse_ip_cases
  by (auto simp: acl_parse_cidr_def Let_def intro: net_ok_v4 net_ok_v6 dest: to4_length
      split: option.splits if_splits)

lemma parse_all_Inr:
  "parse_all i cidrs = Inr (es, ns) \<longleftrightarrow>
     es = filter (\<lambda>s. s \<noteq> []) (map trim_space cidrs) \<and> map acl_parse_cidr es = map Inr ns"
proof (induction i cidrs arbitrary: es ns rule: parse_all.induct)
  case (2 i raw rest)
  then show ?case
    by (cases "acl_parse_cidr (trim_space raw)") (auto simp: Let_def Cons_eq_map_conv)
qed auto

section \<open>The decision\<close>

text \<open>When a network contains an address, on the bits: same family, and the first \<open>k\<close> bits agree.\<close>

definition prefix_match :: "ipnet \<Rightarrow> ip \<Rightarrow> bool" where
  "prefix_match n i =
     (case mask_ones (net_mask n) of None \<Rightarrow> False
      | Some k \<Rightarrow> length i = length (net_ip n) \<and> take k (ip_bits i) = take k (ip_bits (net_ip n)))"

lemma net_ok_number:
  assumes "net_ok n"
  shows "\<exists>k. mask_ones (net_mask n) = Some k \<and> net_mask n = cidr_mask k (8 * length (net_ip n)) \<and>
     net_number_mask n = (net_ip n, net_mask n) \<and> mask_size (net_mask n) = (k, 8 * length (net_ip n))"
  using assms unfolding net_ok_def
proof (elim disjE exE conjE)
  fix k assume "k \<le> (32 :: nat)" "length (net_ip n) = 4" "net_mask n = cidr_mask k 32"
  then show ?thesis
    by (intro exI [of _ k]) (simp add: mask_ones_32 net_number_mask_def mask_size_def Let_def)
next
  fix k assume "k \<le> (128 :: nat)" "length (net_ip n) = 16" "to4 (net_ip n) = None" "net_mask n = cidr_mask k 128"
  then show ?thesis
    by (intro exI [of _ k]) (simp add: mask_ones_128 net_number_mask_def mask_size_def Let_def)
qed

lemma normalize_idem [simp]: "to4 (normalize_ip i) = (case to4 i of None \<Rightarrow> None | Some v \<Rightarrow> Some v)"
  by (auto simp: normalize_ip_def to4_length split: option.splits)

lemma net_contains_prefix:
  assumes "net_ok n"
  shows "net_contains n (normalize_ip i) \<longleftrightarrow> prefix_match n (normalize_ip i)"
proof -
  obtain k where k: "mask_ones (net_mask n) = Some k" "net_mask n = cidr_mask k (8 * length (net_ip n))"
    "net_number_mask n = (net_ip n, net_mask n)"
    using net_ok_number [OF assms] by auto
  have n: "(case to4 (normalize_ip i) of None \<Rightarrow> normalize_ip i | Some v4 \<Rightarrow> v4) = normalize_ip i"
    using to4_length [of i] by (auto simp: normalize_ip_def split: option.splits)
  show ?thesis
    unfolding net_contains_def k(3) prefix_match_def k(1) Let_def n
    using and_cidr_mask_eq [of "normalize_ip i" "net_ip n" k] k(2) by auto
qed

lemma allow_iff:
  "list_all net_ok (nets l) \<Longrightarrow>
   allow i l \<longleftrightarrow> i \<noteq> [] \<and> \<not> is_unspecified i \<and> (\<exists>n \<in> set (nets l). prefix_match n (normalize_ip i))"
  using net_contains_prefix by (auto simp: allow_def Let_def list_ex_iff list_all_iff)

lemma acl_new_Inr:
  "acl_new cidrs = Inr l \<longleftrightarrow> parse_all 0 cidrs = Inr (entries l, nets l)"
  by (cases l) (auto simp: acl_new_def list_replace_def split: sum.splits)

lemma acl_parse_cidr_blank: "acl_parse_cidr [] = Inl EmptyCidr"
  by (simp add: acl_parse_cidr_def)

lemma parse_all_nets: "parse_all i cidrs = Inr (es, ns) \<Longrightarrow> list_all net_ok ns \<and>
   set ns = {n. \<exists>s \<in> set cidrs. acl_parse_cidr (trim_space s) = Inr n}"
proof -
  assume a: "parse_all i cidrs = Inr (es, ns)"
  then have es: "es = filter (\<lambda>s. s \<noteq> []) (map trim_space cidrs)" "map acl_parse_cidr es = map Inr ns"
    unfolding parse_all_Inr by blast+
  have mem: "n \<in> set ns \<longleftrightarrow> (\<exists>s \<in> set cidrs. acl_parse_cidr (trim_space s) = Inr n)" for n
  proof -
    have "n \<in> set ns \<longleftrightarrow> Inr n \<in> set (map acl_parse_cidr es)"
      unfolding es(2) by auto
    then show ?thesis using acl_parse_cidr_blank by (auto simp: es(1) image_iff)
  qed
  then have "list_all net_ok ns"
    by (auto simp: list_all_iff dest: acl_parse_cidr_ok)
  then show ?thesis using mem by auto
qed

text \<open>
Default deny, and the allowlist means prefixes. A list built from configuration strings admits an address exactly when the address is neither nil nor unspecified and some entry denotes a network of the same family that shares its first k bits, k being the prefix length; an IPv4 address in mapped 16-byte form is treated as IPv4, and an empty configuration admits nothing.
\<close>

theorem allow_means_prefix:
  assumes "acl_new cidrs = Inr l"
  shows "allow i l \<longleftrightarrow> i \<noteq> [] \<and> \<not> is_unspecified i \<and>
     (\<exists>s \<in> set cidrs. \<exists>n. acl_parse_cidr (trim_space s) = Inr n \<and> prefix_match n (normalize_ip i))"
  using assms parse_all_nets [of 0 cidrs "entries l" "nets l"] by (auto simp: acl_new_Inr allow_iff)

lemma acl_new_example:
  "acl_new [''10.0.0.0/8''] = Inr \<lparr>entries = [''10.0.0.0/8''], nets = [\<lparr>net_ip = [10, 0, 0, 0], net_mask = [255, 0, 0, 0]\<rparr>]\<rparr>"
  by code_simp

theorem allow_means_prefix_witness:
  "allow [10, 1, 2, 3] \<lparr>entries = [''10.0.0.0/8''], nets = [\<lparr>net_ip = [10, 0, 0, 0], net_mask = [255, 0, 0, 0]\<rparr>]\<rparr>"
proof -
  have "acl_parse_cidr (trim_space ''10.0.0.0/8'') = Inr \<lparr>net_ip = [10, 0, 0, 0], net_mask = [255, 0, 0, 0]\<rparr>"
    "prefix_match \<lparr>net_ip = [10, 0, 0, 0], net_mask = [255, 0, 0, 0]\<rparr> (normalize_ip [10, 1, 2, 3])"
    "\<not> is_unspecified [10, 1, 2, 3]"
    by code_simp+
  then show ?thesis
    using allow_means_prefix [OF acl_new_example, of "[10, 1, 2, 3]"] by simp
qed

section \<open>Keys\<close>

text \<open>The key determines the network, so the operations that compare keys compare networks.\<close>

lemma ip_string_no_slash [simp]: "length i = 4 \<or> length i = 16 \<Longrightarrow> CHR ''/'' \<notin> set (ip_string i)"
  by (auto simp: ip_string_def ipv4_string_def split: option.splits)

lemma ip_string_inj:
  assumes "length i = 4 \<or> length i = 16" "length j = 4 \<or> length j = 16" "ip_string i = ip_string j"
  shows "to16 i = to16 j"
  using parse_ip_string [OF assms(1)] parse_ip_string [OF assms(2)] assms(3) by simp

lemma key_determines_net:
  assumes "acl_parse_cidr s = Inr n" "acl_parse_cidr t = Inr m" "normalize_key s = normalize_key t"
  shows "n = m"
proof -
  have ok: "net_ok n" "net_ok m" using assms acl_parse_cidr_ok by auto
  obtain k where k: "mask_size (net_mask n) = (k, 8 * length (net_ip n))" "net_mask n = cidr_mask k (8 * length (net_ip n))"
    using net_ok_number [OF ok(1)] by auto
  obtain j where j: "mask_size (net_mask m) = (j, 8 * length (net_ip m))" "net_mask m = cidr_mask j (8 * length (net_ip m))"
    using net_ok_number [OF ok(2)] by auto
  have l: "length (net_ip n) = 4 \<or> length (net_ip n) = 16" "length (net_ip m) = 4 \<or> length (net_ip m) = 16"
    using ok by (auto simp: net_ok_def)
  have "ip_string (net_ip n) @ ''/'' @ nat_string k = ip_string (net_ip m) @ ''/'' @ nat_string j"
    using assms k(1) j(1) l by (auto simp: normalize_key_def split: if_splits)
  then have "ip_string (net_ip n) = ip_string (net_ip m) \<and> nat_string k = nat_string j"
    using ip_string_no_slash [OF l(1)] ip_string_no_slash [OF l(2)]
      sep_inj [of "CHR ''/''" "ip_string (net_ip n)" "ip_string (net_ip m)" "nat_string k" "nat_string j"]
    by simp
  then have e: "to16 (net_ip n) = to16 (net_ip m)" and kj: "k = j"
    using ip_string_inj [OF l] by (blast, metis dec_val_nat_string)
  have f: "to4 (net_ip x) = None" if "net_ok x" "length (net_ip x) \<noteq> 4" for x
    using that by (auto simp: net_ok_def)
  have s: "to16 (net_ip x) = net_ip x" if "length (net_ip x) \<noteq> 4" for x
    using that by (simp add: to16_def)
  have "net_ip n = net_ip m"
  proof (cases "length (net_ip n) = 4"; cases "length (net_ip m) = 4")
    assume "length (net_ip n) = 4" "length (net_ip m) = 4"
    then show ?thesis using e by (simp add: to16_def)
  next
    assume "length (net_ip n) = 4" "length (net_ip m) \<noteq> 4"
    then show ?thesis using e s [of m] f [OF ok(2)] to4_to16_4 [of "net_ip n"] by simp
  next
    assume "length (net_ip n) \<noteq> 4" "length (net_ip m) = 4"
    then show ?thesis using e s [of n] f [OF ok(1)] to4_to16_4 [of "net_ip m"] by simp
  next
    assume "length (net_ip n) \<noteq> 4" "length (net_ip m) \<noteq> 4"
    then show ?thesis using e s [of n] s [of m] by simp
  qed
  then show ?thesis
    using k(2) j(2) kj by (cases n; cases m) simp
qed

section \<open>Editing the list\<close>

text \<open>What a list of entries admits, without the parsed networks.\<close>

definition entry_matches :: "ip \<Rightarrow> string \<Rightarrow> bool" where
  "entry_matches i c =
     (case acl_parse_cidr (trim_space c) of Inl _ \<Rightarrow> False | Inr n \<Rightarrow> prefix_match n (normalize_ip i))"

lemma entry_matches_iff:
  "entry_matches i c \<longleftrightarrow> (\<exists>n. acl_parse_cidr (trim_space c) = Inr n \<and> prefix_match n (normalize_ip i))"
  by (simp add: entry_matches_def split: sum.split)

definition admits :: "string list \<Rightarrow> ip \<Rightarrow> bool" where
  "admits cs i \<longleftrightarrow> i \<noteq> [] \<and> \<not> is_unspecified i \<and> list_ex (entry_matches i) cs"

definition list_ok :: "acl_list \<Rightarrow> bool" where
  "list_ok l \<longleftrightarrow> parse_all 0 (entries l) = Inr (entries l, nets l)"

lemma allow_admits: "parse_all j cs = Inr (entries l, nets l) \<Longrightarrow> allow i l = admits cs i"
proof -
  assume "parse_all j cs = Inr (entries l, nets l)"
  then have n: "list_all net_ok (nets l)"
    "set (nets l) = {n. \<exists>s \<in> set cs. acl_parse_cidr (trim_space s) = Inr n}"
    using parse_all_nets by blast+
  have "(\<exists>n \<in> set (nets l). prefix_match n (normalize_ip i)) \<longleftrightarrow> list_ex (entry_matches i) cs"
    unfolding n(2) list_ex_iff entry_matches_iff by blast
  then show ?thesis by (simp only: allow_iff [OF n(1)] admits_def)
qed

lemma parse_all_list_ok: "parse_all j cs = Inr (entries l, nets l) \<Longrightarrow> list_ok l"
  unfolding list_ok_def parse_all_Inr by (auto simp: filter_map o_def)

lemma list_ok_entries:
  "list_ok l \<Longrightarrow> e \<in> set (entries l) \<Longrightarrow> trim_space e = e \<and> e \<noteq> [] \<and> (\<exists>n. acl_parse_cidr e = Inr n)"
proof -
  assume a: "list_ok l" "e \<in> set (entries l)"
  then have f: "entries l = filter (\<lambda>s. s \<noteq> []) (map trim_space (entries l))"
    and m: "map acl_parse_cidr (entries l) = map Inr (nets l)"
    unfolding list_ok_def parse_all_Inr by blast+
  have "e \<in> set (filter (\<lambda>s. s \<noteq> []) (map trim_space (entries l)))"
    using a(2) f by metis
  then have "e \<noteq> []" "\<exists>c. e = trim_space c" by auto
  moreover have "acl_parse_cidr e \<in> set (map Inr (nets l))"
    using a(2) unfolding m [symmetric] by simp
  ultimately show ?thesis by auto
qed

lemma list_ok_empty [simp]: "list_ok empty_list"
  by (simp add: list_ok_def empty_list_def)

lemma parse_all_error: "parse_all i cs = Inl e \<Longrightarrow> \<exists>j x e'. e = EntryError j x e'"
  by (induction i cs rule: parse_all.induct) (auto simp: Let_def rbind_eq_Inl split: if_splits sum.splits)

lemma commit_cases:
  "commit_list flt cs s = (r, s') \<Longrightarrow>
     (\<exists>i x e. r = Inl (EntryError i x e) \<and> s' = s) \<or>
     (\<exists>l. parse_all 0 cs = Inr (entries l, nets l) \<and> acl_live s' = l \<and> acl_path s' = acl_path s \<and>
        acl_hooks s' = acl_hooks s \<and>
        (case flt of
           None \<Rightarrow> r = Inr () \<and> acl_calls s' = acl_calls s @ acl_hooks s \<and>
             (acl_path s \<noteq> [] \<longrightarrow> target (acl_disk s') = Doc (entries l))
         | Some p \<Rightarrow> if acl_path s = [] then r = Inr () \<and> acl_calls s' = acl_calls s @ acl_hooks s
                     else r = Inl (SaveError p) \<and> acl_calls s' = acl_calls s \<and> acl_disk s' = acl_disk s))"
  unfolding commit_list_def list_replace_def
  using parse_all_error [of 0 cs]
  by (cases "parse_all 0 cs"; cases flt)
    (auto simp: acl_persist_def save_file_def atomic_save_cases acl_notify_def split: if_splits prod.splits)

datatype acl_event =
    AclReplace "fs_op option" "string list" | AclAdd "fs_op option" "string list" | AclRemove "fs_op option" "string list"

fun acl_run :: "acl_event \<Rightarrow> acl_store \<Rightarrow> (acl_error + unit) \<times> acl_store" where
  "acl_run (AclReplace f cs) s = acl_replace f cs s"
| "acl_run (AclAdd f cs) s = acl_add f cs s"
| "acl_run (AclRemove f cs) s = acl_remove f cs s"

definition acl_step :: "acl_event \<Rightarrow> acl_store \<Rightarrow> acl_store" where
  "acl_step e s = snd (acl_run e s)"

definition acl_inv :: "acl_store \<Rightarrow> bool" where
  "acl_inv s \<longleftrightarrow> list_ok (acl_live s)"

lemma commit_inv: "acl_inv s \<Longrightarrow> acl_inv (snd (commit_list f cs s))"
  using commit_cases [of f cs s "fst (commit_list f cs s)" "snd (commit_list f cs s)"] parse_all_list_ok
  by (auto simp: acl_inv_def)

text \<open>Every operation either leaves the store alone or ends in \<open>commit_list\<close>.\<close>

lemma add_cases: "acl_inv s \<Longrightarrow> acl_inv (snd (acl_add f cs s))"
  unfolding acl_add_def Let_def
  by (simp add: commit_inv split: sum.split)

lemma remove_cases: "acl_inv s \<Longrightarrow> acl_inv (snd (acl_remove f cs s))"
  unfolding acl_remove_def by (simp add: commit_inv split: sum.split prod.split)

lemma acl_step_inv: "acl_inv s \<Longrightarrow> acl_inv (acl_step e s)"
  by (cases e) (simp_all add: acl_step_def acl_replace_def commit_inv add_cases remove_cases)

interpretation acl_machine: machine acl_step "\<lambda>e. True" acl_inv
  by unfold_locales (rule acl_step_inv)

lemma entry_keys_Inr: "entry_keys es = Inr ks \<longleftrightarrow> map normalize_key es = map Inr ks"
  by (induction es arbitrary: ks) (auto simp: Cons_eq_map_conv)

lemma add_loop_Inr:
  "add_loop seen cs = Inr added \<Longrightarrow>
     (\<forall>a \<in> set added. \<exists>c \<in> set cs. a = trim_space c) \<and>
     (\<forall>c \<in> set cs. trim_space c \<noteq> [] \<longrightarrow>
        (\<exists>k. normalize_key (trim_space c) = Inr k \<and> (k \<in> set seen \<or> Inr k \<in> normalize_key ` set added))) \<and>
     (\<forall>a \<in> set added. \<exists>k. normalize_key a = Inr k \<and> k \<notin> set seen) \<and> distinct (map normalize_key added)"
proof (induction seen cs arbitrary: added rule: add_loop.induct)
  case (2 seen raw rest)
  show ?case
  proof (cases "trim_space raw = []")
    case True
    then show ?thesis using 2 by (auto simp: Let_def)
  next
    case False
    then obtain k where k: "normalize_key (trim_space raw) = Inr k"
      using 2(4) by (auto simp: Let_def split: sum.splits)
    show ?thesis
    proof (cases "k \<in> set seen")
      case True
      then have "add_loop seen rest = Inr added" using 2(4) False k by (simp add: Let_def)
      from 2(2) [OF refl False k True this] True k show ?thesis by auto
    next
      case s: False
      then obtain ad where ad: "add_loop (k # seen) rest = Inr ad" "added = trim_space raw # ad"
        using 2(4) False k by (auto simp: Let_def)
      note ih = 2(3) [OF refl False k s ad(1)]
      have "\<forall>a \<in> set added. \<exists>c \<in> set (raw # rest). a = trim_space c"
        using ih unfolding ad(2) by auto
      moreover have "\<forall>c \<in> set (raw # rest). trim_space c \<noteq> [] \<longrightarrow>
        (\<exists>k. normalize_key (trim_space c) = Inr k \<and> (k \<in> set seen \<or> Inr k \<in> normalize_key ` set added))"
        using ih k unfolding ad(2) by simp blast
      moreover have "\<forall>a \<in> set added. \<exists>k. normalize_key a = Inr k \<and> k \<notin> set seen"
        using ih k s unfolding ad(2) by auto
      moreover have "normalize_key (trim_space raw) \<notin> normalize_key ` set ad"
        using ih unfolding k by force
      then have "distinct (map normalize_key added)"
        using ih unfolding ad(2) by simp
      ultimately show ?thesis by blast
    qed
  qed
qed simp

lemma drop_keys_Inr:
  "drop_keys cs = Inr ks \<Longrightarrow> (\<forall>k. k \<in> set ks \<longleftrightarrow> (\<exists>c \<in> set cs. trim_space c \<noteq> [] \<and> normalize_key (trim_space c) = Inr k))"
  by (induction cs arbitrary: ks) (auto simp: Let_def split: if_splits sum.splits)

lemma remove_loop_Inr:
  "remove_loop gone es = Inr (out, removed) \<Longrightarrow>
     out = filter (\<lambda>e. \<not> (\<exists>k \<in> set gone. normalize_key e = Inr k)) es \<and>
     removed = filter (\<lambda>e. \<exists>k \<in> set gone. normalize_key e = Inr k) es"
  by (induction es arbitrary: out removed) (auto split: if_splits prod.splits)

lemma acl_parse_trim [simp]: "acl_parse_cidr (trim_space c) = acl_parse_cidr c"
  by (simp add: acl_parse_cidr_def)

lemma normalize_key_trim [simp]: "normalize_key (trim_space c) = normalize_key c"
  by (simp add: normalize_key_def)

lemma normalize_key_Inr: "normalize_key c = Inr k \<Longrightarrow> \<exists>n. acl_parse_cidr c = Inr n"
  by (auto simp: normalize_key_def)

lemma net_ok_key: "acl_parse_cidr c = Inr n \<Longrightarrow> \<exists>k. normalize_key c = Inr k"
proof -
  assume a: "acl_parse_cidr c = Inr n"
  then have "net_ok n" by (rule acl_parse_cidr_ok)
  then obtain k where "mask_size (net_mask n) = (k, 8 * length (net_ip n))" "length (net_ip n) \<noteq> 0"
  proof -
    have "length (net_ip n) \<noteq> 0" using \<open>net_ok n\<close> by (auto simp: net_ok_def)
    then show ?thesis using net_ok_number [OF \<open>net_ok n\<close>] that by blast
  qed
  then show ?thesis using a by (simp add: normalize_key_def)
qed

lemma normalize_key_blank: "trim_space c = [] \<Longrightarrow> normalize_key c \<noteq> Inr k"
  using acl_parse_trim [of c] by (auto simp: normalize_key_def acl_parse_cidr_blank simp del: acl_parse_trim)

lemma same_key_matches:
  assumes "normalize_key e = Inr k" "normalize_key c = Inr k"
  shows "entry_matches i e = entry_matches i c"
proof -
  obtain n m where n: "acl_parse_cidr e = Inr n" "acl_parse_cidr c = Inr m"
    using assms normalize_key_Inr by blast
  then have "n = m" using key_determines_net [OF n] assms by simp
  then show ?thesis by (simp add: entry_matches_def n)
qed

lemma entry_matches_nonblank: "entry_matches i c \<Longrightarrow> trim_space c \<noteq> []"
  by (metis acl_parse_cidr_blank entry_matches_iff sum.distinct(1))

lemma admits_append: "admits (cs @ ds) i \<longleftrightarrow> admits cs i \<or> admits ds i"
  by (auto simp: admits_def)

lemma allow_entries: "list_ok l \<Longrightarrow> allow i l = admits (entries l) i"
  unfolding list_ok_def by (rule allow_admits)

lemma commit_entries:
  assumes "commit_list flt cs s = (Inr (), s')" "\<forall>c \<in> set cs. trim_space c = c \<and> c \<noteq> []"
  shows "list_ok (acl_live s') \<and> entries (acl_live s') = cs"
proof -
  obtain l where l: "parse_all 0 cs = Inr (entries l, nets l)" "acl_live s' = l"
    using commit_cases [OF assms(1)] by auto
  then have "entries l = filter (\<lambda>s. s \<noteq> []) (map trim_space cs)"
    unfolding parse_all_Inr by blast
  also have "map trim_space cs = cs" using assms(2) by (simp add: map_idI)
  also have "filter (\<lambda>s. s \<noteq> []) cs = cs" using assms(2) by (simp add: filter_id_conv)
  finally show ?thesis using parse_all_list_ok [OF l(1)] l(2) by simp
qed

lemma add_admits:
  assumes "acl_inv s" "acl_add flt cs s = (Inr (), s')"
  shows "(\<exists>added. entries (acl_live s') = entries (acl_live s) @ added) \<and>
     (\<forall>i. allow i (acl_live s') \<longleftrightarrow> allow i (acl_live s) \<or> admits cs i)"
proof -
  let ?cur = "entries (acl_live s)"
  have ok: "list_ok (acl_live s)" using assms(1) by (simp add: acl_inv_def)
  obtain ks added where ks: "map normalize_key ?cur = map Inr ks" and ad: "add_loop ks cs = Inr added"
    and r: "(if added = [] then (Inr (), s) else commit_list flt (?cur @ added) s) = (Inr (), s')"
    using assms(2) by (auto simp: acl_add_def Let_def entry_keys_Inr split: sum.splits)
  note al = add_loop_Inr [OF ad]
  have ne: "trim_space a = a \<and> a \<noteq> []" if "a \<in> set (?cur @ added)" for a
    using that list_ok_entries [OF ok] al normalize_key_blank trim_space_idem trim_space_Nil
    by (metis Un_iff set_append)
  have s': "list_ok (acl_live s') \<and> entries (acl_live s') = ?cur @ added"
  proof (cases "added = []")
    case False
    then show ?thesis using commit_entries [of flt "?cur @ added" s s'] r ne by auto
  qed (use r ok in simp)
  have cover: "\<exists>e \<in> set (?cur @ added). entry_matches i e" if "c \<in> set cs" "entry_matches i c" for c i
  proof -
    have "trim_space c \<noteq> []" using that(2) by (rule entry_matches_nonblank)
    then have "\<exists>k. normalize_key (trim_space c) = Inr k \<and> (k \<in> set ks \<or> Inr k \<in> normalize_key ` set added)"
      using al that(1) by blast
    then obtain k where k: "normalize_key c = Inr k" "k \<in> set ks \<or> Inr k \<in> normalize_key ` set added"
      by auto
    have "Inr k \<in> normalize_key ` set (?cur @ added)"
      using k(2) arg_cong [OF ks, of set] by auto
    then obtain e where "e \<in> set (?cur @ added)" "normalize_key e = Inr k"
      unfolding image_iff by metis
    then show ?thesis using same_key_matches [OF _ k(1)] that(2) by blast
  qed
  have sub: "\<exists>c \<in> set cs. entry_matches i c" if "a \<in> set added" "entry_matches i a" for a i
    using al that by (force simp: entry_matches_def)
  have "admits (?cur @ added) i \<longleftrightarrow> admits ?cur i \<or> admits cs i" for i
    using cover sub unfolding admits_def list_ex_iff by fastforce
  then show ?thesis using s' allow_entries ok by auto
qed

text \<open>
Adding admits exactly the union. When Add reports success, the existing entries keep their place and an address is admitted afterwards exactly if it was admitted before or one of the given CIDRs admits it, although entries whose network is already listed, in whatever spelling, are not added again.
\<close>

theorem acl_add_union:
  assumes "acl_inv s" "acl_add flt cs s = (Inr (), s')"
  shows "(\<exists>added. entries (acl_live s') = entries (acl_live s) @ added) \<and>
     (\<forall>i. allow i (acl_live s') \<longleftrightarrow> allow i (acl_live s) \<or> admits cs i)"
  by (rule add_admits [OF assms])

definition example_net :: ipnet where
  "example_net = \<lparr>net_ip = [10, 0, 0, 0], net_mask = [255, 0, 0, 0]\<rparr>"

lemma example_parse:
  "trim_space ''10.0.0.0/8'' = ''10.0.0.0/8''" "acl_parse_cidr ''10.0.0.0/8'' = Inr example_net"
  "normalize_key ''10.0.0.0/8'' = Inr ''10.0.0.0/8''" "entry_matches [10, 1, 2, 3] ''10.0.0.0/8''"
  "admits [''10.0.0.0/8''] [10, 1, 2, 3]"
  by code_simp+

lemma example_add:
  "acl_add None [''10.0.0.0/8''] (new_store None [] \<lparr>target = Absent, temps = []\<rparr>)
     = (Inr (), \<lparr>acl_live = \<lparr>entries = [''10.0.0.0/8''], nets = [example_net]\<rparr>, acl_path = [],
         acl_hooks = [], acl_calls = [], acl_disk = \<lparr>target = Absent, temps = []\<rparr>\<rparr>)"
  by (simp add: acl_add_def new_store_def empty_list_def example_parse commit_list_def list_replace_def
      acl_persist_def acl_notify_def)

theorem acl_add_union_witness:
  "allow [10, 1, 2, 3] \<lparr>entries = [''10.0.0.0/8''], nets = [example_net]\<rparr>"
proof -
  have "acl_inv (new_store None [] \<lparr>target = Absent, temps = []\<rparr>)"
    by (simp add: acl_inv_def new_store_def)
  from acl_add_union [OF this example_add] show ?thesis
    using example_parse(5) by simp
qed

text \<open>
Removing withdraws exactly the named networks. When Remove reports success the remaining entries are those whose network is not one of the named ones, whatever the spelling, in their old order, and an address is admitted afterwards exactly if one of those admits it.
\<close>

theorem acl_remove_exact:
  assumes "acl_inv s" "acl_remove flt cs s = (Inr (), s')"
  shows "entries (acl_live s') = filter (\<lambda>e. \<not> (\<exists>c \<in> set cs. trim_space c \<noteq> [] \<and> normalize_key c = normalize_key e))
            (entries (acl_live s)) \<and>
     (\<forall>i. allow i (acl_live s') \<longleftrightarrow> admits (entries (acl_live s')) i)"
proof -
  let ?cur = "entries (acl_live s)"
  let ?keep = "filter (\<lambda>e. \<not> (\<exists>c \<in> set cs. trim_space c \<noteq> [] \<and> normalize_key c = normalize_key e)) ?cur"
  have ok: "list_ok (acl_live s)" using assms(1) by (simp add: acl_inv_def)
  obtain gone where gone: "drop_keys cs = Inr gone"
    using assms(2) by (auto simp: acl_remove_def split: sum.splits)
  have key: "(\<exists>k \<in> set gone. normalize_key e = Inr k) \<longleftrightarrow>
      (\<exists>c \<in> set cs. trim_space c \<noteq> [] \<and> normalize_key c = normalize_key e)" if "e \<in> set ?cur" for e
  proof -
    have "\<exists>k. normalize_key e = Inr k"
      using list_ok_entries [OF ok that] net_ok_key by blast
    then show ?thesis using drop_keys_Inr [OF gone] by auto
  qed
  have ne: "\<forall>a \<in> set ?keep. trim_space a = a \<and> a \<noteq> []"
    using list_ok_entries [OF ok] by simp
  have k: "filter (\<lambda>e. \<not> (\<exists>k \<in> set gone. normalize_key e = Inr k)) ?cur = ?keep"
    by (rule filter_cong [OF refl]) (simp only: key)
  have "list_ok (acl_live s') \<and> entries (acl_live s') = ?keep"
  proof (cases "gone = []")
    case True
    then have "s' = s" using assms(2) gone by (simp add: acl_remove_def)
    then show ?thesis using ok k True by simp
  next
    case False
    then obtain out removed where o: "remove_loop gone ?cur = Inr (out, removed)"
      "(if removed = [] then (Inr (), s) else commit_list flt out s) = (Inr (), s')"
      using assms(2) gone by (auto simp: acl_remove_def split: sum.splits)
    note rl = remove_loop_Inr [OF o(1)]
    have out: "out = ?keep" using rl k by metis
    show ?thesis
    proof (cases "removed = []")
      case True
      have "filter (\<lambda>e. \<not> (\<exists>k \<in> set gone. normalize_key e = Inr k)) ?cur = ?cur"
        using rl [THEN conjunct2, symmetric] True unfolding filter_id_conv by (simp add: filter_empty_conv)
      then show ?thesis using o(2) True ok k by simp
    next
      case False
      then have "commit_list flt ?keep s = (Inr (), s')" using o(2) out by metis
      from commit_entries [OF this ne] show ?thesis .
    qed
  qed
  then show ?thesis using allow_entries by blast
qed

theorem acl_remove_exact_witness:
  "\<not> admits (filter (\<lambda>e. \<not> (\<exists>c \<in> set [''10.0.0.0/8'']. trim_space c \<noteq> [] \<and> normalize_key c = normalize_key e))
       [''10.0.0.0/8'']) [10, 1, 2, 3]"
proof -
  let ?s = "snd (acl_add None [''10.0.0.0/8''] (new_store None [] \<lparr>target = Absent, temps = []\<rparr>))"
  have "acl_inv ?s"
    using acl_step_inv [of "new_store None [] \<lparr>target = Absent, temps = []\<rparr>" "AclAdd None [''10.0.0.0/8'']"]
    by (simp add: acl_inv_def new_store_def acl_step_def)
  moreover obtain s' where "acl_remove None [''10.0.0.0/8''] ?s = (Inr (), s')"
    by (simp add: example_add acl_remove_def example_parse commit_list_def list_replace_def
      acl_persist_def acl_notify_def)
  ultimately show ?thesis
    using acl_remove_exact [of ?s None "[''10.0.0.0/8'']" s'] by (simp add: example_add example_parse admits_def)
qed

text \<open>An operation changes nothing or ends in \<open>commit_list\<close>.\<close>

lemma run_cases:
  "acl_run e s = (r, s') \<Longrightarrow> s' = s \<or> (\<exists>f cs. commit_list f cs s = (r, s'))"
  by (cases e) (auto simp: acl_replace_def acl_add_def acl_remove_def Let_def split: sum.splits if_splits)

text \<open>
What a failed edit leaves behind. When Replace, Add or Remove reports an error about an entry, nothing has changed. When it reports that saving failed, the file still has its old content and no change hook has run, but the new list is already in force: the error does not mean that the edit had no effect.
\<close>

theorem acl_edit_errors:
  assumes "acl_run e s = (Inl err, s')"
  shows "(s' = s \<or> (\<exists>p. err = SaveError p \<and> acl_disk s' = acl_disk s \<and> acl_calls s' = acl_calls s)) \<and>
     (\<forall>f cs p i. e = AclReplace f cs \<and> err = SaveError p \<longrightarrow> allow i (acl_live s') = admits cs i)"
proof
  show "s' = s \<or> (\<exists>p. err = SaveError p \<and> acl_disk s' = acl_disk s \<and> acl_calls s' = acl_calls s)"
    using run_cases [OF assms]
  proof
    assume "\<exists>f cs. commit_list f cs s = (Inl err, s')"
    then obtain f cs where "commit_list f cs s = (Inl err, s')" by blast
    from commit_cases [OF this] show ?thesis by (auto split: option.splits if_splits)
  qed simp
  have "allow i (acl_live s') = admits cs i" if "e = AclReplace f cs" "err = SaveError p" for f cs p i
    using commit_cases [of f cs s "Inl err" s'] assms that allow_admits
    by (auto simp: acl_replace_def split: option.splits if_splits)
  then show "\<forall>f cs p i. e = AclReplace f cs \<and> err = SaveError p \<longrightarrow> allow i (acl_live s') = admits cs i"
    by blast
qed

theorem acl_edit_errors_witness:
  "let s = new_store None ''a.json'' \<lparr>target = Absent, temps = []\<rparr>;
       s' = snd (acl_run (AclReplace (Some WriteTemp) [''10.0.0.0/8'']) s)
   in acl_calls s' = acl_calls s \<and> entries (acl_live s) = [] \<and> entries (acl_live s') = [''10.0.0.0/8'']"
proof -
  let ?s = "new_store None ''a.json'' \<lparr>target = Absent, temps = []\<rparr>"
  have p: "trim_space ''a.json'' = ''a.json''" by code_simp
  obtain s' where s': "acl_run (AclReplace (Some WriteTemp) [''10.0.0.0/8'']) ?s = (Inl (SaveError WriteTemp), s')"
    "entries (acl_live s') = [''10.0.0.0/8''] \<and> s' \<noteq> ?s"
    by (simp add: acl_replace_def commit_list_def list_replace_def example_parse new_store_def p
        acl_persist_def save_file_def atomic_save_cases empty_list_def)
  from acl_edit_errors [OF s'(1)] s' show ?thesis
    by (simp add: Let_def) (simp add: new_store_def empty_list_def)
qed

text \<open>
The saved list is the live list. After an edit that reports success and changed the list, a store with a path has exactly its live entries in the file, and loading that file gives a list that admits the same addresses.
\<close>

theorem acl_saved_is_live:
  assumes "acl_run e s = (Inr (), s')" "acl_live s' \<noteq> acl_live s" "acl_path s \<noteq> []"
  shows "target (acl_disk s') = Doc (entries (acl_live s')) \<and> load_file (acl_disk s') = Inr (acl_live s')"
  using run_cases [OF assms(1)]
proof
  assume "\<exists>f cs. commit_list f cs s = (Inr (), s')"
  then obtain f cs where c: "commit_list f cs s = (Inr (), s')" by blast
  then obtain l where l: "parse_all 0 cs = Inr (entries l, nets l)" "acl_live s' = l"
    "target (acl_disk s') = Doc (entries l)"
    using commit_cases [OF c] assms(3) by (auto split: option.splits if_splits)
  then have "acl_new (entries l) = Inr l"
    using parse_all_list_ok [OF l(1)] by (simp add: acl_new_Inr list_ok_def)
  then show ?thesis using l by (simp add: load_file_def)
qed (use assms in simp)

theorem acl_saved_is_live_witness:
  "load_file \<lparr>target = Doc [''10.0.0.0/8''], temps = []\<rparr> = Inr \<lparr>entries = [''10.0.0.0/8''], nets = [example_net]\<rparr>"
proof -
  let ?s = "new_store None ''a.json'' \<lparr>target = Absent, temps = []\<rparr>"
  have p: "trim_space ''a.json'' = ''a.json''" by code_simp
  have r: "acl_run (AclReplace None [''10.0.0.0/8'']) ?s =
      (Inr (), \<lparr>acl_live = \<lparr>entries = [''10.0.0.0/8''], nets = [example_net]\<rparr>, acl_path = ''a.json'',
         acl_hooks = [], acl_calls = [], acl_disk = \<lparr>target = Doc [''10.0.0.0/8''], temps = []\<rparr>\<rparr>)"
    by (simp add: acl_replace_def commit_list_def list_replace_def example_parse new_store_def p
        acl_persist_def save_file_def atomic_save_cases empty_list_def acl_notify_def)
  from acl_saved_is_live [OF r] show ?thesis
    by (simp add: new_store_def p empty_list_def)
qed

definition loopback_list :: acl_list where
  "loopback_list = \<lparr>entries = loopback_entries,
     nets = [\<lparr>net_ip = [127, 0, 0, 1], net_mask = cidr_mask 32 32\<rparr>,
             \<lparr>net_ip = replicate 15 0 @ [1], net_mask = cidr_mask 128 128\<rparr>]\<rparr>"

lemma loopback_new: "acl_new loopback_entries = Inr loopback_list"
  by code_simp

lemma unspecified_normal: "is_unspecified i \<Longrightarrow> normalize_ip i = replicate 4 0 \<or> normalize_ip i = replicate 16 0"
proof -
  have "take 12 (replicate 16 (0 :: byte)) ! 11 \<noteq> v4_prefix ! 11" by (simp add: v4_prefix_def nth_append)
  then have "take 12 (replicate 16 (0 :: byte)) \<noteq> v4_prefix" by metis
  moreover have "length v4_prefix = 12" "replicate 4 (0 :: byte) = [0, 0, 0, 0]"
    by (simp_all add: v4_prefix_def numeral_eq_Suc)
  moreover assume "is_unspecified i"
  ultimately show ?thesis
    by (auto simp: is_unspecified_def ip_equal_def normalize_ip_def to4_def split: if_splits)
qed

lemma full_prefix_match:
  "mask_ones (net_mask m) = Some (8 * length (net_ip m)) \<Longrightarrow> prefix_match m i \<longleftrightarrow> i = net_ip m"
  using ip_bits_inj [of i "net_ip m"] by (auto simp: prefix_match_def)

lemma loopback_v6:
  "to4 (replicate 15 0 @ [1]) = None" "replicate 15 0 @ [1] \<noteq> replicate 16 (0 :: byte)"
  "replicate 15 0 @ [1] \<noteq> replicate 4 (0 :: byte)" "[127, 0, 0, 1] \<noteq> replicate 4 (0 :: byte)"
  "[127, 0, 0, 1] \<noteq> replicate 16 (0 :: byte)" "normalize_ip [] = []"
  by code_simp+

lemma loopback_allow:
  "allow i loopback_list \<longleftrightarrow> normalize_ip i = [127, 0, 0, 1] \<or> normalize_ip i = replicate 15 0 @ [1]"
proof -
  have ok: "list_all net_ok (nets loopback_list)"
    by (simp add: loopback_list_def net_ok_v4 net_ok_v6 loopback_v6)
  have "(\<exists>n \<in> set (nets loopback_list). prefix_match n j) \<longleftrightarrow> j = [127, 0, 0, 1] \<or> j = replicate 15 0 @ [1]" for j
    by (simp add: loopback_list_def full_prefix_match mask_ones_32 mask_ones_128)
  moreover have "i \<noteq> [] \<and> \<not> is_unspecified i" if "normalize_ip i = [127, 0, 0, 1] \<or> normalize_ip i = replicate 15 0 @ [1]"
    using that unspecified_normal [of i] loopback_v6(2-) by (metis Nil_is_append_conv list.distinct(1))
  ultimately show ?thesis unfolding allow_iff [OF ok] by blast
qed

text \<open>
What Edge starts with. An existing allowlist file decides alone, and one that cannot be read or decoded stops the start instead of admitting anyone; without a file and without YAML entries the list admits exactly 127.0.0.1 and ::1, and they are written to the file.
\<close>

theorem from_config_choice:
  "(p \<noteq> [] \<and> target k = Doc cs \<longrightarrow> fst (from_config flt p yaml k) = acl_new cs) \<and>
   (p \<noteq> [] \<and> target k \<in> {Unreadable, Malformed} \<longrightarrow> (\<exists>e. from_config flt p yaml k = (Inl e, k))) \<and>
   (p \<noteq> [] \<and> target k = Absent \<longrightarrow>
      (\<exists>l. fst (from_config flt p [] k) = Inr l \<and>
         (\<forall>i. allow i l \<longleftrightarrow> normalize_ip i = [127, 0, 0, 1] \<or> normalize_ip i = replicate 15 0 @ [1])) \<and>
      target (snd (from_config None p [] k)) = Doc loopback_entries)"
proof (intro conjI impI)
  show "fst (from_config flt p yaml k) = acl_new cs" if "p \<noteq> [] \<and> target k = Doc cs"
    using that by (simp add: from_config_def load_file_def)
  show "\<exists>e. from_config flt p yaml k = (Inl e, k)" if "p \<noteq> [] \<and> target k \<in> {Unreadable, Malformed}"
    using that by (auto simp: from_config_def load_file_def)
  assume a: "p \<noteq> [] \<and> target k = Absent"
  then show "\<exists>l. fst (from_config flt p [] k) = Inr l \<and>
         (\<forall>i. allow i l \<longleftrightarrow> normalize_ip i = [127, 0, 0, 1] \<or> normalize_ip i = replicate 15 0 @ [1])"
    using loopback_new loopback_allow by (auto simp: from_config_def)
  show "target (snd (from_config None p [] k)) = Doc loopback_entries"
    using a loopback_new by (simp add: from_config_def save_file_def atomic_save_cases)
qed

theorem from_config_choice_witness:
  "fst (from_config None ''a.json'' [] \<lparr>target = Doc [], temps = []\<rparr>) = acl_new []"
  using from_config_choice [of "''a.json''" "\<lparr>target = Doc [], temps = []\<rparr>" "[]" None "[]"] by simp

end
