(* ===== verification/Gate.thy ===== *)
theory Gate
  imports Ban Acl Metrics Handshake
begin

text \<open>
  The gate of Edge, \<open>internal/edge/server.go\<close>: who may use a public port, who may use the tunnel
  port, what is counted and what is struck, which connections are evicted when the lists change,
  and which agent session is current.

  A \<open>net.Conn\<close> of the public side is its id, its remote address and whether it is open. The
  denylist and its hooks are the model's own: \<open>New\<close> registers \<open>evictDisallowed\<close> as a change
  hook, so an operation that calls the hooks evicts. Third-party code is an argument: the result
  of the TLS handshake, of yamux and of the relay.
\<close>

record pub_conn =
  pc_id :: nat
  pc_ip :: ip
  pc_open :: bool

record server =
  token :: string
  srv_bans :: ban_store
  srv_acl :: acl_list
  reg :: registry
  agent_ip :: ip
  tcp_conns :: "pub_conn list"
  sem_used :: nat
  sem_cap :: nat
  sess :: "nat option"
  dead_sess :: "nat list"
  watchers :: "nat list"
  hub_resets :: nat

section \<open>Decisions\<close>

definition is_allowed :: "ip \<Rightarrow> int \<Rightarrow> server \<Rightarrow> bool" where
  "is_allowed i now s =
     (if i = [] then False
      else if blocked i now (srv_bans s) then False
      else if allow i (srv_acl s) then True else False)"

definition trusted_tunnel_ip :: "ip \<Rightarrow> server \<Rightarrow> bool" where
  "trusted_tunnel_ip i s =
     (if i = [] then False
      else if allow i (srv_acl s) then True
      else agent_ip s \<noteq> [] \<and> ip_equal (agent_ip s) i)"

text \<open>\<open>evictDisallowed\<close> on the TCP connections: those that are no longer allowed are reset.\<close>

definition evict_disallowed :: "int \<Rightarrow> server \<Rightarrow> server" where
  "evict_disallowed now s =
     s\<lparr>tcp_conns := map (\<lambda>c. if is_allowed (pc_ip c) now s then c else c\<lparr>pc_open := False\<rparr>) (tcp_conns s)\<rparr>"

text \<open>An operation of the denylist, and the hooks if it called them.\<close>

definition with_bans :: "int \<Rightarrow> (ban_store \<Rightarrow> ban_store) \<Rightarrow> server \<Rightarrow> server" where
  "with_bans now f s =
     (let s' = s\<lparr>srv_bans := f (srv_bans s)\<rparr> in
      if calls (srv_bans s') = calls (srv_bans s) then s' else evict_disallowed now s')"

definition count_deny :: "int \<Rightarrow> server \<Rightarrow> server" where
  "count_deny now s = s\<lparr>reg := inc_deny now (reg s)\<rparr>"

definition public_allowed :: "fs_op option \<Rightarrow> ip \<Rightarrow> int \<Rightarrow> server \<Rightarrow> bool \<times> server" where
  "public_allowed flt i now s =
     (if blocked i now (srv_bans s) then (False, count_deny now s)
      else if allow i (srv_acl s) then (True, with_bans now (observe_valid i) s)
      else let s1 = count_deny now s in
        if \<not> trusted_tunnel_ip i s1 then (False, with_bans now (observe_invalid flt i ''acl'' now) s1)
        else (False, s1))"

definition note_tunnel_invalid :: "fs_op option \<Rightarrow> ip \<Rightarrow> tunnel_error \<Rightarrow> int \<Rightarrow> server \<Rightarrow> server" where
  "note_tunnel_invalid flt i err now s0 =
     (let s = count_deny now s0 in
      if is_probe err then
        (if is_pardoned i (srv_bans s) then s
         else if trusted_tunnel_ip i s then s
         else with_bans now (ban_permanent flt i ''probe'') s)
      else if is_unauthorized err then
        (if trusted_tunnel_ip i s \<or> is_pardoned i (srv_bans s) then s
         else with_bans now (observe_invalid flt i ''auth'' now) s)
      else s)"

text \<open>\<open>classifyTLS\<close>: by the text of the handshake error.\<close>

definition classify_tls :: "string \<Rightarrow> tunnel_error" where
  "classify_tls msg =
     (if contains_str msg ''does not look like a TLS handshake'' \<or> contains_str msg ''unsupported SSLv2''
      then Probe (NotTLS msg) else Io (NetErr msg))"

definition remember_agent :: "ip \<Rightarrow> server \<Rightarrow> server" where
  "remember_agent i s = (if i = [] then s else s\<lparr>agent_ip := i\<rparr>)"

section \<open>The agent session\<close>

text \<open>Sessions are numbered. \<open>dead_sess\<close> are the closed ones, \<open>watchers\<close> the sessions whose
  \<open>session-watch\<close> goroutine has not run yet; \<open>hub_resets\<close> counts \<open>closeUDPHubs\<close>.\<close>

definition set_session :: "nat \<Rightarrow> server \<Rightarrow> server" where
  "set_session x s =
     s\<lparr>hub_resets := hub_resets s + 1, sess := Some x, reg := set_agent_connected True (reg s),
       dead_sess := (case sess s of Some old \<Rightarrow> if old \<noteq> x then old # dead_sess s else dead_sess s
                     | None \<Rightarrow> dead_sess s),
       watchers := x # watchers s\<rparr>"

definition close_session :: "nat \<Rightarrow> server \<Rightarrow> server" where
  "close_session x s = s\<lparr>dead_sess := x # dead_sess s\<rparr>"

text \<open>The watcher of \<open>x\<close>, which runs once \<open>x\<close> is closed.\<close>

definition session_watch :: "nat \<Rightarrow> server \<Rightarrow> server" where
  "session_watch x s =
     (if x \<in> set (watchers s) \<and> x \<in> set (dead_sess s)
      then s\<lparr>sess := (if sess s = Some x then None else sess s), hub_resets := hub_resets s + 1,
             reg := set_agent_connected False (reg s), watchers := remove1 x (watchers s)\<rparr>
      else s)"

definition get_session :: "server \<Rightarrow> nat option" where
  "get_session s =
     (case sess s of None \<Rightarrow> None | Some x \<Rightarrow> if x \<in> set (dead_sess s) then None else Some x)"

section \<open>The tunnel port\<close>

datatype agent_outcome =
    BannedReset | TLSFailed | HandshakeFailed tunnel_error | MuxFailed | ControlFailed | Admitted string

text \<open>\<open>handleAgent\<close> up to \<open>setSession\<close>. \<open>tls\<close> is the error text of the TLS handshake if it
  failed, \<open>mux\<close> the number of the yamux session if it could be made, \<open>ctrl\<close> whether the agent
  opened its control stream in time; the connection is closed by the deferred call whenever the
  agent is not admitted.\<close>

definition handle_agent ::
  "(bytes \<Rightarrow> bytes) \<Rightarrow> fs_op option \<Rightarrow> int \<Rightarrow> ip \<Rightarrow> string option \<Rightarrow> nat option \<Rightarrow> bool \<Rightarrow> conn \<Rightarrow> server
   \<Rightarrow> agent_outcome \<times> conn \<times> server" where
  "handle_agent sha flt now i tls mux ctrl c s =
     (if blocked i now (srv_bans s) then (BannedReset, close_conn c, s)
      else case tls of
        Some msg \<Rightarrow> (TLSFailed, close_conn c, note_tunnel_invalid flt i (classify_tls msg) now s)
      | None \<Rightarrow>
          (case server_handshake sha (token s) c of
             (Inl err, c1) \<Rightarrow> (HandshakeFailed err, close_conn c1, note_tunnel_invalid flt i err now s)
           | (Inr aid, c1) \<Rightarrow>
               let s1 = remember_agent i (with_bans now (observe_valid i) s) in
               (case mux of
                  None \<Rightarrow> (MuxFailed, close_conn c1, s1)
                | Some x \<Rightarrow>
                    if \<not> ctrl then (ControlFailed, close_conn c1, close_session x s1)
                    else (Admitted aid, c1, set_session x s1))))"

section \<open>A public TCP connection\<close>

datatype public_outcome = DeniedReset | MaxSessions | NoAgent | OpenFailed | Relaying

definition track_tcp :: "pub_conn \<Rightarrow> server \<Rightarrow> server" where
  "track_tcp c s = s\<lparr>tcp_conns := c # filter (\<lambda>d. pc_id d \<noteq> pc_id c) (tcp_conns s)\<rparr>"

definition untrack_tcp :: "nat \<Rightarrow> server \<Rightarrow> server" where
  "untrack_tcp x s = s\<lparr>tcp_conns := filter (\<lambda>d. pc_id d \<noteq> x) (tcp_conns s)\<rparr>"

text \<open>\<open>servePublic\<close> and the first half of \<open>handlePublic\<close>, up to the relay; \<open>opened\<close> is whether
  \<open>OpenData\<close> succeeded. A session slot that was taken is given back on every early return.\<close>

definition handle_public ::
  "fs_op option \<Rightarrow> int \<Rightarrow> nat \<Rightarrow> ip \<Rightarrow> bool \<Rightarrow> server \<Rightarrow> public_outcome \<times> server" where
  "handle_public flt now x i opened s0 =
     (let s = track_tcp \<lparr>pc_id = x, pc_ip = i, pc_open = True\<rparr> s0 in
      case public_allowed flt i now s of
        (False, s1) \<Rightarrow> (DeniedReset, untrack_tcp x s1)
      | (True, s1) \<Rightarrow>
          if sem_cap s1 \<le> sem_used s1 then (MaxSessions, untrack_tcp x s1)
          else let s2 = s1\<lparr>sem_used := sem_used s1 + 1\<rparr> in
            (case get_session s2 of
               None \<Rightarrow> (NoAgent, untrack_tcp x (s2\<lparr>sem_used := sem_used s2 - 1\<rparr>))
             | Some _ \<Rightarrow>
                 if \<not> opened then (OpenFailed, untrack_tcp x (s2\<lparr>sem_used := sem_used s2 - 1\<rparr>))
                 else (Relaying, s2\<lparr>reg := add_sessions 1 (reg s2)\<rparr>)))"

text \<open>The deferred calls when the relay returns.\<close>

definition end_public :: "nat \<Rightarrow> server \<Rightarrow> server" where
  "end_public x s = untrack_tcp x (s\<lparr>reg := add_sessions (-1) (reg s), sem_used := sem_used s - 1\<rparr>)"

text \<open>\<open>status\<close> of the admin API.\<close>

definition server_status :: "int \<Rightarrow> server \<Rightarrow> status" where
  "server_status now s =
     (let (t, p) = ban_counts now (srv_bans s) in
      (snapshot (reg s))\<lparr>st_temp_bans := t, st_permanent_bans := p\<rparr>)"

section \<open>What the steps leave alone\<close>

lemma evict_frame [simp]:
  "srv_bans (evict_disallowed now s) = srv_bans s" "srv_acl (evict_disallowed now s) = srv_acl s"
  "reg (evict_disallowed now s) = reg s" "agent_ip (evict_disallowed now s) = agent_ip s"
  "sem_used (evict_disallowed now s) = sem_used s" "sem_cap (evict_disallowed now s) = sem_cap s"
  "sess (evict_disallowed now s) = sess s" "dead_sess (evict_disallowed now s) = dead_sess s"
  "watchers (evict_disallowed now s) = watchers s" "token (evict_disallowed now s) = token s"
  by (simp_all add: evict_disallowed_def)

lemma with_bans_frame [simp]:
  "srv_bans (with_bans now f s) = f (srv_bans s)" "srv_acl (with_bans now f s) = srv_acl s"
  "reg (with_bans now f s) = reg s" "agent_ip (with_bans now f s) = agent_ip s"
  "sem_used (with_bans now f s) = sem_used s" "sem_cap (with_bans now f s) = sem_cap s"
  "sess (with_bans now f s) = sess s" "dead_sess (with_bans now f s) = dead_sess s"
  "watchers (with_bans now f s) = watchers s" "token (with_bans now f s) = token s"
  by (simp_all add: with_bans_def Let_def)

lemma count_deny_frame [simp]:
  "srv_bans (count_deny now s) = srv_bans s" "srv_acl (count_deny now s) = srv_acl s"
  "agent_ip (count_deny now s) = agent_ip s" "reg (count_deny now s) = inc_deny now (reg s)"
  "sem_used (count_deny now s) = sem_used s" "sem_cap (count_deny now s) = sem_cap s"
  "sess (count_deny now s) = sess s" "dead_sess (count_deny now s) = dead_sess s"
  "tcp_conns (count_deny now s) = tcp_conns s" "token (count_deny now s) = token s"
  "watchers (count_deny now s) = watchers s"
  by (simp_all add: count_deny_def)

lemma decision_frame [simp]:
  "trusted_tunnel_ip i (count_deny now s) = trusted_tunnel_ip i s"
  by (simp add: trusted_tunnel_ip_def)

lemma allow_Nil [simp]: "\<not> allow [] l"
  by (simp add: allow_def)

lemma is_allowed_iff: "is_allowed i now s \<longleftrightarrow> \<not> blocked i now (srv_bans s) \<and> allow i (srv_acl s)"
  by (cases "i = []") (auto simp: is_allowed_def)

lemma remember_frame [simp]:
  "srv_bans (remember_agent i s) = srv_bans s" "srv_acl (remember_agent i s) = srv_acl s"
  "reg (remember_agent i s) = reg s" "sess (remember_agent i s) = sess s"
  "dead_sess (remember_agent i s) = dead_sess s"
  by (simp_all add: remember_agent_def)

section \<open>The public ports\<close>

definition public_bans :: "fs_op option \<Rightarrow> ip \<Rightarrow> int \<Rightarrow> server \<Rightarrow> ban_store" where
  "public_bans flt i now s =
     (if blocked i now (srv_bans s) then srv_bans s
      else if allow i (srv_acl s) then observe_valid i (srv_bans s)
      else if trusted_tunnel_ip i s then srv_bans s
      else observe_invalid flt i ''acl'' now (srv_bans s))"

lemma public_allowed_parts:
  "fst (public_allowed flt i now s) = is_allowed i now s"
  "srv_bans (snd (public_allowed flt i now s)) = public_bans flt i now s"
  "srv_acl (snd (public_allowed flt i now s)) = srv_acl s"
  "agent_ip (snd (public_allowed flt i now s)) = agent_ip s"
  "reg (snd (public_allowed flt i now s)) = (if is_allowed i now s then reg s else inc_deny now (reg s))"
  "sem_used (snd (public_allowed flt i now s)) = sem_used s"
  "sem_cap (snd (public_allowed flt i now s)) = sem_cap s"
  "sess (snd (public_allowed flt i now s)) = sess s"
  "dead_sess (snd (public_allowed flt i now s)) = dead_sess s"
  by (auto simp: public_allowed_def is_allowed_iff public_bans_def Let_def)

text \<open>
C2: the public gate. A public connection is let through exactly if its address is not banned and the allowlist admits it; a refusal is counted exactly once and an admission not at all; neither the allowlist nor the session gauge changes; and an admitted address has no strikes left.
\<close>

theorem public_gate:
  "let (ok, s') = public_allowed flt i now s in
     ok = (\<not> blocked i now (srv_bans s) \<and> allow i (srv_acl s)) \<and>
     denies (reg s') = denies (reg s) + (if ok then 0 else 1) \<and>
     active_sessions (reg s') = active_sessions (reg s) \<and> srv_acl s' = srv_acl s \<and>
     \<not> (ok \<and> (\<exists>r. map_of (by_ip (srv_bans s')) (ip_key i) = Some r \<and> ip_key i \<noteq> [] \<and> consecutive r \<noteq> 0))"
proof -
  have "\<not> (\<exists>r. map_of (by_ip (observe_valid i b)) (ip_key i) = Some r \<and> ip_key i \<noteq> [] \<and> consecutive r \<noteq> 0)" for b
    by (auto simp: observe_valid_def Let_def split: option.splits if_splits)
  then show ?thesis
    using public_allowed_parts [of flt i now s]
    by (cases "public_allowed flt i now s") (auto simp: is_allowed_iff public_bans_def)
qed

text \<open>Attempts from one address at the times \<open>ts\<close>.\<close>

definition public_attempts :: "fs_op option \<Rightarrow> ip \<Rightarrow> int list \<Rightarrow> server \<Rightarrow> server" where
  "public_attempts flt i ts s = fold (\<lambda>t s. snd (public_allowed flt i t s)) ts s"

lemma attempts_are_strikes:
  assumes "\<not> trusted_tunnel_ip i s" "i \<noteq> []"
  shows "srv_bans (public_attempts flt i ts s) = run_events ban_step (strikes flt i ''acl'' ts) (srv_bans s) \<and>
     srv_acl (public_attempts flt i ts s) = srv_acl s"
  using assms
proof (induction ts arbitrary: s)
  case (Cons t ts)
  let ?s = "snd (public_allowed flt i t s)"
  have na: "\<not> allow i (srv_acl s)" using Cons.prems by (auto simp: trusted_tunnel_ip_def)
  have "blocked i t b \<Longrightarrow> observe_invalid flt i ''acl'' t b = b" for b
    by (auto simp: observe_invalid_def blocked_def Let_def)
  then have "srv_bans ?s = observe_invalid flt i ''acl'' t (srv_bans s)"
    using na Cons.prems by (auto simp: public_allowed_parts public_bans_def)
  moreover have "\<not> trusted_tunnel_ip i ?s"
    using Cons.prems by (simp add: trusted_tunnel_ip_def public_allowed_parts split: if_splits)
  ultimately show ?case
    using Cons.IH [of ?s] Cons.prems(2)
    by (simp add: public_attempts_def strikes_def public_allowed_parts)
qed (simp add: public_attempts_def strikes_def)

text \<open>
Knocking on public ports leads to a ban. An address that is neither allowlisted nor the last agent's, that has no record and no pardon, is refused at each of five attempts whatever their times; four attempts do not ban it, and after the fifth it is shut out for six hours from that attempt even if the allowlist is changed to admit it in the meantime.
\<close>

theorem five_misses_ban:
  assumes "unknown_to (srv_bans s) i" "i \<noteq> []" "\<not> trusted_tunnel_ip i s" "length ts = 4" "0 < t"
  shows "(\<forall>n < 5. \<not> fst (public_allowed flt i ((ts @ [t]) ! n) (public_attempts flt i (take n (ts @ [t])) s))) \<and>
     (\<forall>now. \<not> blocked i now (srv_bans (public_attempts flt i ts s))) \<and>
     (\<forall>now l. is_allowed i now ((public_attempts flt i (ts @ [t]) s)\<lparr>srv_acl := l\<rparr>) \<longleftrightarrow>
        t + TempDuration \<le> now \<and> allow i l)"
proof -
  have "\<not> allow i (srv_acl s)" using assms(2,3) by (auto simp: trusted_tunnel_ip_def)
  then show ?thesis
    using attempts_are_strikes [OF assms(3,2)] few_strikes [OF assms(1)] fifth_strike [OF assms(1,4,5)] assms(4)
    by (auto simp: public_allowed_parts is_allowed_iff)
qed

definition example_server :: server where
  "example_server = \<lparr>token = ''secret'', srv_bans = on_change ''evictDisallowed'' (ban_new [] \<lparr>target = Absent, temps = []\<rparr>),
     srv_acl = empty_list, reg = new_registry, agent_ip = [], tcp_conns = [], sem_used = 0, sem_cap = 2,
     sess = None, dead_sess = [], watchers = [], hub_resets = 0\<rparr>"

lemma example_unknown: "unknown_to (srv_bans example_server) [10, 0, 0, 9]"
  by (simp add: example_server_def unknown_to_def ban_new_def ban_load_def on_change_def view_def ip_key_4)

lemma example_allow: "\<not> allow i (srv_acl example_server)"
  by (simp add: allow_def example_server_def empty_list_def)

theorem five_misses_ban_witness:
  "\<not> is_allowed [10, 0, 0, 9] 7 (public_attempts None [10, 0, 0, 9] [1, 2, 3, 4, 5] example_server)"
proof -
  have "\<not> trusted_tunnel_ip [10, 0, 0, 9] example_server"
    by (simp add: trusted_tunnel_ip_def example_allow) (simp add: example_server_def)
  from five_misses_ban [OF example_unknown _ this, of "[1, 2, 3, 4]" 5 None] show ?thesis
    by (simp add: is_allowed_iff TempDuration_def)
qed

section \<open>The tunnel port\<close>


lemma classify_tls_classes:
  "\<not> is_unauthorized (classify_tls msg)"
  "is_probe (classify_tls msg) \<longleftrightarrow>
     contains_str msg ''does not look like a TLS handshake'' \<or> contains_str msg ''unsupported SSLv2''"
  by (auto simp: classify_tls_def)

lemma note_frame [simp]:
  "sess (note_tunnel_invalid flt i e now s) = sess s" "dead_sess (note_tunnel_invalid flt i e now s) = dead_sess s"
  "agent_ip (note_tunnel_invalid flt i e now s) = agent_ip s"
  "agent_connected (reg (note_tunnel_invalid flt i e now s)) = agent_connected (reg s)"
  by (simp_all add: note_tunnel_invalid_def Let_def inc_deny_def)

text \<open>
C3: only an authenticated peer becomes the agent. When a tunnel connection is admitted, its address was not banned, its TLS handshake succeeded, and it sent a well-formed authentication request whose token hashes to the configured one; it is then the current session, the address is the remembered agent address, and the connection stays open. In every other case the connection is closed and the current session and the agent gauge are untouched.
\<close>

theorem agent_admission:
  assumes "handle_agent sha flt now i tls mux ctrl c s = (r, c', s')"
  shows "(\<forall>aid. r = Admitted aid \<longrightarrow>
      \<not> blocked i now (srv_bans s) \<and> tls = None \<and> ctrl \<and> sess s' = mux \<and> mux \<noteq> None \<and>
      agent_connected (reg s') \<and> (i \<noteq> [] \<longrightarrow> agent_ip s' = i) \<and>
      (\<exists>f c1 tok. read_frame c = (Inr f, c1) \<and> fr_type f = TypeAuthRequest \<and>
         marshal_auth_request \<lparr>ar_token = tok, ar_agent_id = aid\<rparr> = Inr (fr_payload f) \<and>
         token_valid sha tok (token s))) \<and>
   ((\<forall>aid. r \<noteq> Admitted aid) \<longrightarrow>
      closed c' \<and> sess s' = sess s \<and> agent_connected (reg s') = agent_connected (reg s))"
  using assms server_handshake_Inr [of sha "token s" c]
  by (auto simp: handle_agent_def Let_def set_session_def remember_agent_def close_session_def set_agent_connected_def
      split: if_splits option.splits prod.splits sum.splits; blast)

text \<open>
Eviction is exact. After an eviction pass a tracked connection is open exactly if it was open and its address is allowed now; no connection is forgotten. A probe ban that calls the hooks has evicted every open connection of that address before it returns.
\<close>

theorem eviction_exact:
  "(map (\<lambda>c. (pc_id c, pc_ip c, pc_open c)) (tcp_conns (evict_disallowed now s)) =
     map (\<lambda>c. (pc_id c, pc_ip c, pc_open c \<and> is_allowed (pc_ip c) now s)) (tcp_conns s)) \<and>
   (hooks (srv_bans s) \<noteq> [] \<and> ip_key i \<noteq> [] \<and> \<not> trusted_tunnel_ip i s \<and> \<not> is_pardoned i (srv_bans s) \<and>
      ban_kind_of i now (srv_bans s) \<noteq> KindPermanent \<and> is_probe err \<longrightarrow>
      (\<forall>c \<in> set (tcp_conns (note_tunnel_invalid flt i err now s)). pc_open c \<longrightarrow>
         ip_key (pc_ip c) \<noteq> ip_key i))"
proof (intro conjI impI ballI)
  show "map (\<lambda>c. (pc_id c, pc_ip c, pc_open c)) (tcp_conns (evict_disallowed now s)) =
     map (\<lambda>c. (pc_id c, pc_ip c, pc_open c \<and> is_allowed (pc_ip c) now s)) (tcp_conns s)"
    by (simp add: evict_disallowed_def)
  fix c
  let ?b = "ban_permanent flt i ''probe'' (srv_bans s)"
  assume a: "hooks (srv_bans s) \<noteq> [] \<and> ip_key i \<noteq> [] \<and> \<not> trusted_tunnel_ip i s \<and> \<not> is_pardoned i (srv_bans s) \<and>
      ban_kind_of i now (srv_bans s) \<noteq> KindPermanent \<and> is_probe err"
    and c: "c \<in> set (tcp_conns (note_tunnel_invalid flt i err now s))" "pc_open c"
  have "calls ?b \<noteq> calls (srv_bans s)"
    using a by (auto simp: ban_permanent_def is_pardoned_def Let_def ban_kind_of_def rec_kind_def split: option.splits)
  then have "c \<in> set (tcp_conns (evict_disallowed now ((count_deny now s)\<lparr>srv_bans := ?b\<rparr>)))"
    using a c(1) by (simp add: note_tunnel_invalid_def Let_def with_bans_def)
  then have "is_allowed (pc_ip c) now ((count_deny now s)\<lparr>srv_bans := ?b\<rparr>)"
    using c(2) by (auto simp: evict_disallowed_def split: if_splits)
  then have "\<not> blocked (pc_ip c) now ?b" by (simp add: is_allowed_iff)
  moreover have "blocked i now ?b" using a by (simp add: denylist.probe_blocks)
  ultimately show "ip_key (pc_ip c) \<noteq> ip_key i" by (auto simp: blocked_def)
qed

theorem eviction_exact_witness:
  "let s = track_tcp \<lparr>pc_id = 1, pc_ip = [10, 0, 0, 9], pc_open = True\<rparr> example_server in
     \<forall>c \<in> set (tcp_conns (note_tunnel_invalid None [10, 0, 0, 9] (Probe (BadVersion 22)) 5 s)). \<not> pc_open c"
proof -
  let ?s = "track_tcp \<lparr>pc_id = 1, pc_ip = [10, 0, 0, 9], pc_open = True\<rparr> example_server"
  let ?t = "note_tunnel_invalid None [10, 0, 0, 9] (Probe (BadVersion 22)) 5 ?s"
  have s: "hooks (srv_bans ?s) \<noteq> []" "\<not> is_pardoned [10, 0, 0, 9] (srv_bans ?s)"
    "ban_kind_of [10, 0, 0, 9] 5 (srv_bans ?s) \<noteq> KindPermanent" "\<not> trusted_tunnel_ip [10, 0, 0, 9] ?s"
    by (simp_all add: track_tcp_def example_server_def on_change_def ban_new_def ban_load_def is_pardoned_def
        ban_kind_of_def Let_def trusted_tunnel_ip_def allow_def empty_list_def)
  have "\<forall>c \<in> set (tcp_conns ?t). ip_key (pc_ip c) = ip_key [10, 0, 0, 9]"
    by (auto simp: note_tunnel_invalid_def Let_def with_bans_def evict_disallowed_def track_tcp_def example_server_def
        split: if_splits)
  then show ?thesis
    using eviction_exact [of 5 ?s "[10, 0, 0, 9]" "Probe (BadVersion 22)" None] s
    by (auto simp: Let_def ip_key_4)
qed

section \<open>The current session\<close>

text \<open>
The newest agent wins. Setting a session makes it the current one and closes the one before, and a closed session is never handed to a public connection; when the watcher of a session runs it clears that session only, so a newer one stays current.
\<close>

theorem newest_session_wins:
  assumes "x \<notin> set (dead_sess s)"
  shows "(sess s \<noteq> Some x \<longrightarrow> get_session (set_session x s) = Some x) \<and>
     (\<forall>y. sess s = Some y \<and> y \<noteq> x \<longrightarrow> y \<in> set (dead_sess (set_session x s))) \<and>
     (\<forall>y t. get_session t = Some y \<longrightarrow> y \<notin> set (dead_sess t)) \<and>
     (\<forall>y. y \<noteq> x \<and> sess s \<noteq> Some x \<longrightarrow> get_session (session_watch y (set_session x s)) = Some x)"
  using assms
  by (auto simp: get_session_def set_session_def session_watch_def split: option.splits if_splits)

theorem newest_session_wins_witness:
  "get_session (set_session 2 (set_session 1 example_server)) = Some 2"
  using newest_session_wins [of 2 "set_session 1 example_server"]
  by (simp add: example_server_def set_session_def)

text \<open>
A reconnecting agent is reported as disconnected. When an agent reconnects while its old session is still current, the new session is current and usable, yet as soon as the watcher of the replaced session runs, the agent gauge says disconnected and all UDP hubs, by then those of the new session, are closed once more; nothing sets the gauge again until the next reconnect.
\<close>

theorem stale_watcher_disconnects:
  assumes "sess s = Some a" "a \<noteq> b" "b \<notin> set (dead_sess s)" "a \<in> set (watchers s)"
  shows "let t = set_session b s; u = session_watch a t in
     agent_connected (reg t) \<and> get_session u = Some b \<and> \<not> agent_connected (reg u) \<and>
     hub_resets u = hub_resets t + 1"
  using assms by (auto simp: Let_def get_session_def set_session_def session_watch_def set_agent_connected_def)

theorem stale_watcher_disconnects_witness:
  "get_session (session_watch 1 (set_session 2 (set_session 1 example_server))) = Some 2 \<and>
   \<not> agent_connected (reg (session_watch 1 (set_session 2 (set_session 1 example_server))))"
  using stale_watcher_disconnects [of "set_session 1 example_server" 1 2]
  by (simp add: Let_def) (simp add: example_server_def set_session_def)

section \<open>Session slots\<close>

text \<open>
C32: session slots are not leaked. A public connection is relayed only if its address is allowed, a slot is free and a live agent session exists; it then holds one slot, within the limit, and counts one in the session gauge. On every other outcome the slots and the gauge are as before and the connection is not tracked any more; and when a relay ends, the slot and the count are given back.
\<close>

theorem public_slots:
  assumes "handle_public flt now x i opened s = (r, s')" "0 \<le> active_sessions (reg s)"
  shows "(r = Relaying \<longrightarrow> is_allowed i now s \<and> opened \<and> get_session s \<noteq> None \<and>
      sem_used s' = sem_used s + 1 \<and> sem_used s' \<le> sem_cap s' \<and>
      active_sessions (reg s') = active_sessions (reg s) + 1 \<and>
      sem_used (end_public x s') = sem_used s \<and> active_sessions (reg (end_public x s')) = active_sessions (reg s)) \<and>
   (r \<noteq> Relaying \<longrightarrow> sem_used s' = sem_used s \<and> active_sessions (reg s') = active_sessions (reg s) \<and>
      (\<forall>c \<in> set (tcp_conns s'). pc_id c \<noteq> x))"
proof -
  let ?s = "track_tcp \<lparr>pc_id = x, pc_ip = i, pc_open = True\<rparr> s"
  obtain ok s1 where p: "public_allowed flt i now ?s = (ok, s1)" by fastforce
  have q: "ok = is_allowed i now s" "sem_used s1 = sem_used s" "sem_cap s1 = sem_cap s" "sess s1 = sess s"
    "dead_sess s1 = dead_sess s" "active_sessions (reg s1) = active_sessions (reg s)"
    using public_allowed_parts [of flt i now ?s] p by (auto simp: track_tcp_def is_allowed_iff)
  show ?thesis
    using assms q unfolding handle_public_def Let_def p
    by (auto simp: untrack_tcp_def end_public_def get_session_def add_sessions_def Let_def
        split: if_splits option.splits)
qed

theorem public_slots_witness:
  "let (r, s') = handle_public None 5 1 [10, 0, 0, 9] True example_server in r \<noteq> Relaying \<longrightarrow> sem_used s' = 0"
  using public_slots [of None 5 1 "[10, 0, 0, 9]" True example_server]
  by (cases "handle_public None 5 1 [10, 0, 0, 9] True example_server") (auto simp: example_server_def new_registry_def)

theorem agent_admission_witness:
  "closed (fst (snd (handle_agent (\<lambda>b. b) None 5 [10, 0, 0, 9] (Some ''EOF'') None False (mk_conn []) example_server)))"
proof -
  obtain r c' s' where h: "handle_agent (\<lambda>b. b) None 5 [10, 0, 0, 9] (Some ''EOF'') None False (mk_conn []) example_server = (r, c', s')"
    by (metis prod_cases3)
  have "\<forall>aid. r \<noteq> Admitted aid"
    using h by (auto simp: handle_agent_def split: if_splits)
  then show ?thesis using agent_admission [OF h] h by simp
qed

end
