(* ===== verification/HttpPeek.thy ===== *)
theory HttpPeek
  imports NetAddr Conn
begin

text \<open>
  Looking at the first bytes of a public HTTP or TLS connection, \<open>internal/proxy/peek.go\<close>,
  \<open>host.go\<close> and \<open>prefix.go\<close>: the server name of a TLS ClientHello, the host and path of the
  first HTTP/1 or HTTP/2 request, and the connection that replays what was read.

  \<open>PeekClientHello\<close> uses \<open>io.ReadFull\<close> and reads a \<open>conn\<close>. \<open>PeekHTTP\<close> uses single \<open>Read\<close>
  calls, which return what has arrived so far: its input is the list of the pieces in which the
  bytes arrive. The HPACK decoder is third-party code and an argument.
\<close>

definition maxPeekBytes :: nat where "maxPeekBytes = 64 * 1024"
definition tlsRecordHeaderLen :: nat where "tlsRecordHeaderLen = 5"
definition tlsMaxRecord :: nat where "tlsMaxRecord = 16384"
definition http2PrefaceLen :: nat where "http2PrefaceLen = 24"
definition http2FrameHeader :: nat where "http2FrameHeader = 9"
definition frameHeaders :: byte where "frameHeaders = 1"
definition frameContinuation :: byte where "frameContinuation = 9"
definition flagEndHeaders :: byte where "flagEndHeaders = 4"
definition flagPadded :: byte where "flagPadded = 8"
definition flagPriority :: byte where "flagPriority = 32"

definition crlf :: string where
  "crlf = [CHR 0x0D, CHR 0x0A]"

definition HTTP2ClientPreface :: string where
  "HTTP2ClientPreface = ''PRI * HTTP/2.0'' @ crlf @ crlf @ ''SM'' @ crlf @ crlf"

datatype peek_error = PeekRead io_error | Truncated string | BadInput string

section \<open>Hosts\<close>

definition lower_host :: "string \<Rightarrow> string" where
  "lower_host h =
     (if contains_byte h CHR '':'' then
        (case split_host_port h of Some (nh, _) \<Rightarrow> to_lower nh | None \<Rightarrow> to_lower h)
      else to_lower h)"

definition normalize_host :: "string \<Rightarrow> string" where
  "normalize_host host =
     (let h = trim_space host in
      if h = [] then []
      else if has_prefix h ''['' then
        (case index_byte h CHR '']'' of
           Some e \<Rightarrow>
             let inner = take (e - 1) (drop 1 h); rest = drop (e + 1) h in
             if e > 0 \<and> (rest = [] \<or> has_prefix rest '':'') then to_lower inner else lower_host h
         | None \<Rightarrow> lower_host h)
      else lower_host h)"

definition match_host :: "string \<Rightarrow> (string \<times> string) list \<Rightarrow> string \<Rightarrow> string option" where
  "match_host host by_host empty_key =
     (let key = normalize_host host;
          hit = (if key \<noteq> [] then map_of by_host key else None) in
      case hit of Some name \<Rightarrow> Some name
      | None \<Rightarrow> if empty_key \<noteq> [] then Some empty_key else None)"

section \<open>The replaying connection\<close>

record prefix_conn =
  pf_prefix :: bytes
  pf_conn :: conn

definition with_prefix :: "conn \<Rightarrow> bytes \<Rightarrow> prefix_conn" where
  "with_prefix c p = \<lparr>pf_prefix = p, pf_conn = c\<rparr>"

text \<open>\<open>Read\<close> into a buffer of \<open>n\<close> bytes; \<open>k\<close> is how many bytes the connection below has ready.\<close>

definition prefix_read :: "nat \<Rightarrow> nat \<Rightarrow> prefix_conn \<Rightarrow> (io_error + bytes) \<times> prefix_conn" where
  "prefix_read n k p =
     (if pf_prefix p \<noteq> [] then (Inr (take n (pf_prefix p)), p\<lparr>pf_prefix := drop n (pf_prefix p)\<rparr>)
      else if rx (pf_conn p) = [] then (Inl (rx_err (pf_conn p)), p)
      else (Inr (take (min n k) (rx (pf_conn p))),
            p\<lparr>pf_conn := (pf_conn p)\<lparr>rx := drop (min n k) (rx (pf_conn p))\<rparr>\<rparr>))"

section \<open>The TLS ClientHello\<close>

abbreviation u16_at :: "bytes \<Rightarrow> nat \<Rightarrow> nat" where
  "u16_at b off \<equiv> unat (rd16 (take 2 (drop off b)))"

definition u24 :: "byte \<Rightarrow> byte \<Rightarrow> byte \<Rightarrow> nat" where
  "u24 a b c = 65536 * unat a + 256 * unat b + unat c"

text \<open>A record, with everything that was consumed: a body that breaks off is filled up with zero
  bytes, as the buffer it was read into.\<close>

definition read_tls_record :: "conn \<Rightarrow> peek_error option \<times> bytes \<times> conn" where
  "read_tls_record c =
     (case read_full tlsRecordHeaderLen c of
        (Inl e, c1) \<Rightarrow> (Some (PeekRead e), [], c1)
      | (Inr hdr, c1) \<Rightarrow>
          let n = u16_at hdr 3 in
          if n = 0 \<or> n > tlsMaxRecord then (Some (BadInput ''invalid tls record length''), hdr, c1)
          else (case read_full n c1 of
              (Inl e, c2) \<Rightarrow> (Some (PeekRead e), hdr @ rx c1 @ replicate (n - length (rx c1)) 0, c2)
            | (Inr body, c2) \<Rightarrow> (None, hdr @ body, c2)))"

function sni_names :: "bytes \<Rightarrow> nat \<Rightarrow> nat \<Rightarrow> peek_error + string" where
  "sni_names data end off =
     (if off + 3 \<le> end then
        let name_type = data ! off; n = u16_at data (off + 1) in
        if off + 3 + n > end then Inl (Truncated ''sni name'')
        else if name_type = 0 then Inr (string_of_bytes (take n (drop (off + 3) data)))
        else sni_names data end (off + 3 + n)
      else Inr [])"
  by pat_completeness auto
termination
  by (relation "measure (\<lambda>(d, e, off). e - off)") auto

declare sni_names.simps [simp del]

definition parse_sni_extension :: "bytes \<Rightarrow> peek_error + string" where
  "parse_sni_extension data =
     (if length data < 2 then Inl (Truncated ''sni list'')
      else let n = u16_at data 0 in
        if 2 + n > length data then Inl (Truncated ''sni list body'')
        else sni_names data (2 + n) 2)"

function extensions :: "bytes \<Rightarrow> nat \<Rightarrow> nat \<Rightarrow> peek_error + string" where
  "extensions body end off =
     (if off + 4 \<le> end then
        let typ = u16_at body off; n = u16_at body (off + 2) in
        if off + 4 + n > end then Inl (Truncated ''extension'')
        else if typ \<noteq> 0 then extensions body end (off + 4 + n)
        else parse_sni_extension (take n (drop (off + 4) body))
      else Inr [])"
  by pat_completeness auto
termination
  by (relation "measure (\<lambda>(d, e, off). e - off)") auto

declare extensions.simps [simp del]

definition parse_hello_sni :: "bytes \<Rightarrow> peek_error + string" where
  "parse_hello_sni body =
     (if length body < 34 then Inl (Truncated ''client hello'')
      else if 34 \<ge> length body then Inl (Truncated ''session id'')
      else let off1 = 35 + unat (body ! 34) in
        if off1 + 2 > length body then Inl (Truncated ''cipher suites'')
        else let off2 = off1 + 2 + u16_at body off1 in
          if off2 \<ge> length body then Inl (Truncated ''compression'')
          else let off3 = off2 + 1 + unat (body ! off2) in
            if off3 = length body then Inr []
            else if off3 + 2 > length body then Inl (Truncated ''extensions length'')
            else let ext_len = u16_at body off3; end = off3 + 2 + ext_len in
              if end > length body then Inl (Truncated ''extensions'')
              else extensions body end (off3 + 2))"

lemma read_tls_record_shrinks:
  "read_tls_record c = (None, rec, c') \<Longrightarrow> length (rx c') < length (rx c)"
  by (auto simp: read_tls_record_def read_full_def tlsRecordHeaderLen_def Let_def split: if_splits)

text \<open>\<open>PeekClientHello\<close>: \<open>raw\<close> is everything consumed so far, \<open>hs\<close> the handshake bytes in it.\<close>

function peek_hello :: "bytes \<Rightarrow> bytes \<Rightarrow> conn \<Rightarrow> (peek_error + string) \<times> bytes \<times> conn" where
  "peek_hello raw hs c =
     (case read_tls_record c of
        (Some e, rec, c1) \<Rightarrow> (Inl e, raw @ rec, c1)
      | (None, rec, c1) \<Rightarrow>
          let raw1 = raw @ rec in
          if length raw1 > maxPeekBytes then (Inl (BadInput ''tls client hello too large''), raw1, c1)
          else if rec ! 0 \<noteq> 0x16 then (Inl (BadInput ''not a tls handshake record''), raw1, c1)
          else let hs1 = hs @ drop tlsRecordHeaderLen rec in
            if length hs1 < 4 then peek_hello raw1 hs1 c1
            else if hs1 ! 0 \<noteq> 1 then (Inl (BadInput ''not a tls client hello''), raw1, c1)
            else let n = u24 (hs1 ! 1) (hs1 ! 2) (hs1 ! 3) in
              if length hs1 < 4 + n then peek_hello raw1 hs1 c1
              else (parse_hello_sni (take n (drop 4 hs1)), raw1, c1))"
  by pat_completeness auto
termination
  by (relation "measure (\<lambda>(raw, hs, c). length (rx c))") (auto dest!: read_tls_record_shrinks [OF sym])

declare peek_hello.simps [simp del]

definition PeekClientHello :: "conn \<Rightarrow> (peek_error + string) \<times> bytes \<times> conn" where
  "PeekClientHello c = peek_hello [] [] c"

section \<open>The first HTTP request\<close>

record http_head =
  hd_host :: string
  hd_path :: string
  hd_http2 :: bool

text \<open>One \<open>Read\<close> into a buffer of \<open>k\<close> bytes.\<close>

fun read_piece :: "nat \<Rightarrow> bytes list \<Rightarrow> (bytes \<times> bytes list) option" where
  "read_piece k [] = None"
| "read_piece k (c # cs) = Some (if length c \<le> k then (c, cs) else (take k c, drop k c # cs))"

definition pieces_size :: "bytes list \<Rightarrow> nat" where
  "pieces_size cs = sum_list (map (\<lambda>c. Suc (length c)) cs)"

lemma read_piece_smaller: "read_piece k cs = Some (b, cs') \<Longrightarrow> 0 < k \<Longrightarrow> pieces_size cs' < pieces_size cs"
  by (cases cs) (auto simp: pieces_size_def split: if_splits)

lemma read_piece_concat: "read_piece k cs = Some (b, cs') \<Longrightarrow> b @ concat cs' = concat cs"
  by (cases cs) (auto split: if_splits)

lemma read_piece_None [simp]: "read_piece k cs = None \<longleftrightarrow> cs = []"
  by (cases cs) auto

fun index_str :: "string \<Rightarrow> string \<Rightarrow> nat option" where
  "index_str [] p = (if p = [] then Some 0 else None)"
| "index_str (x # s) p = (if has_prefix (x # s) p then Some 0 else map_option Suc (index_str s p))"

lemma index_str_bound: "index_str s p = Some i \<Longrightarrow> i + length p \<le> length s"
proof (induction s arbitrary: i)
  case (Cons x s)
  show ?case
  proof (cases "has_prefix (x # s) p")
    case True
    then have "length (take (length p) (x # s)) = length p" by (simp add: has_prefix_def)
    then show ?thesis using True Cons.prems by simp
  qed (use Cons in auto)
qed (auto split: if_splits)

function split_crlf :: "string \<Rightarrow> string list" where
  "split_crlf s = (case index_str s crlf of None \<Rightarrow> [s] | Some i \<Rightarrow> take i s # split_crlf (drop (i + 2) s))"
  by pat_completeness auto
termination
  by (relation "measure length") (auto dest!: index_str_bound simp: crlf_def)

declare split_crlf.simps [simp del]

definition path_only :: "string \<Rightarrow> string" where
  "path_only p =
     (let p' = (case index_byte p CHR ''?'' of Some i \<Rightarrow> take i p | None \<Rightarrow> p) in if p' = [] then ''/'' else p')"

fun find_host :: "string list \<Rightarrow> string" where
  "find_host [] = []"
| "find_host (line # rest) =
     (if line = [] then find_host rest
      else case cut_byte line CHR '':'' of
        None \<Rightarrow> find_host rest
      | Some (name, val) \<Rightarrow> if equal_fold name ''Host'' then trim_space val else find_host rest)"

definition parse_http1_head :: "string \<Rightarrow> peek_error + http_head" where
  "parse_http1_head h =
     (let lines = split_crlf h; req = split_n CHR '' '' 3 (lines ! 0) in
      if length req < 2 then Inl (BadInput ''bad http/1 request line'')
      else Inr \<lparr>hd_host = find_host (drop 1 lines), hd_path = path_only (req ! 1), hd_http2 = False\<rparr>)"

function peek_http1 :: "io_error \<Rightarrow> bytes \<Rightarrow> bytes list \<Rightarrow> (peek_error + http_head) \<times> bytes \<times> bytes list" where
  "peek_http1 err raw cs =
     (case index_str (string_of_bytes raw) (crlf @ crlf) of
        Some i \<Rightarrow> (parse_http1_head (take i (string_of_bytes raw)), raw, cs)
      | None \<Rightarrow>
          if length raw > maxPeekBytes then (Inl (BadInput ''http/1 headers too large''), raw, cs)
          else (case read_piece 1024 cs of
              None \<Rightarrow> (Inl (if raw = [] then PeekRead err else Truncated ''http/1 headers''), raw, cs)
            | Some (b, cs') \<Rightarrow> peek_http1 err (raw @ b) cs'))"
  by pat_completeness auto
termination
  by (relation "measure (\<lambda>(e, raw, cs). pieces_size cs)") (auto dest: read_piece_smaller)

declare peek_http1.simps [simp del]

section \<open>HTTP/2\<close>

definition headers_fragment :: "bytes \<Rightarrow> byte \<Rightarrow> peek_error + bytes" where
  "headers_fragment payload flags =
     rbind
       (if flags AND flagPadded = 0 then Inr payload
        else if payload = [] then Inl (Truncated ''padded headers'')
        else if unat (hd payload) > length (tl payload) then Inl (BadInput ''headers padding too long'')
        else Inr (take (length (tl payload) - unat (hd payload)) (tl payload)))
       (\<lambda>p. if flags AND flagPriority = 0 then Inr p
            else if length p < 5 then Inl (Truncated ''priority headers'')
            else Inr (drop 5 p))"

fun head_fields :: "(string \<times> string) list \<Rightarrow> http_head \<Rightarrow> http_head" where
  "head_fields [] h = h"
| "head_fields ((n, v) # fs) h =
     head_fields fs
       (if n = '':authority'' then h\<lparr>hd_host := v\<rparr> else if n = '':path'' then h\<lparr>hd_path := path_only v\<rparr> else h)"

definition decode_hpack :: "(bytes \<Rightarrow> (string \<times> string) list option) \<Rightarrow> bytes \<Rightarrow> peek_error + http_head" where
  "decode_hpack dec block =
     (case dec block of
        None \<Rightarrow> Inl (BadInput ''hpack'')
      | Some fs \<Rightarrow> Inr (head_fields fs \<lparr>hd_host = [], hd_path = [], hd_http2 = True\<rparr>))"

text \<open>The frames that are complete: the result, or where the scan stopped.\<close>

function h2_scan :: "(bytes \<Rightarrow> (string \<times> string) list option) \<Rightarrow> bytes \<Rightarrow> nat \<Rightarrow> bytes \<Rightarrow> bool \<Rightarrow>
    (peek_error + http_head) + (nat \<times> bytes \<times> bool)" where
  "h2_scan dec raw off block inh =
     (if off + http2FrameHeader > length raw then Inr (off, block, inh)
      else let n = u24 (raw ! off) (raw ! (off + 1)) (raw ! (off + 2)); end = off + http2FrameHeader + n in
        if end > length raw then Inr (off, block, inh)
        else let ftype = raw ! (off + 3); flags = raw ! (off + 4); payload = take n (drop (off + http2FrameHeader) raw) in
          if ftype = frameHeaders then
            (if inh then Inl (Inl (BadInput ''nested http2 headers''))
             else case headers_fragment payload flags of
               Inl e \<Rightarrow> Inl (Inl e)
             | Inr frag \<Rightarrow>
                 if flags AND flagEndHeaders \<noteq> 0 then Inl (decode_hpack dec (block @ frag))
                 else h2_scan dec raw end (block @ frag) True)
          else if ftype = frameContinuation then
            (if \<not> inh then Inl (Inl (BadInput ''http2 continuation without headers''))
             else if flags AND flagEndHeaders \<noteq> 0 then Inl (decode_hpack dec (block @ payload))
             else h2_scan dec raw end (block @ payload) inh)
          else if inh then Inl (Inl (BadInput ''http2 frame during headers''))
          else h2_scan dec raw end block inh)"
  by pat_completeness auto
termination
  by (relation "measure (\<lambda>(d, raw, off, b, i). length raw - off)") (auto simp: http2FrameHeader_def)

declare h2_scan.simps [simp del]

function peek_http2 :: "(bytes \<Rightarrow> (string \<times> string) list option) \<Rightarrow> io_error \<Rightarrow> bytes \<Rightarrow> nat \<Rightarrow> bytes \<Rightarrow> bool \<Rightarrow> bytes list
    \<Rightarrow> (peek_error + http_head) \<times> bytes \<times> bytes list" where
  "peek_http2 dec err raw off block inh cs =
     (case h2_scan dec raw off block inh of
        Inl r \<Rightarrow> (r, raw, cs)
      | Inr (off', block', inh') \<Rightarrow>
          if length raw > maxPeekBytes then (Inl (BadInput ''http2 peek too large''), raw, cs)
          else (case read_piece 2048 cs of
              None \<Rightarrow> (Inl (Truncated ''http2 preface''), raw, cs)
            | Some (b, cs') \<Rightarrow> peek_http2 dec err (raw @ b) off' block' inh' cs'))"
  by pat_completeness auto
termination
  by (relation "measure (\<lambda>(d, e, raw, off, b, i, cs). pieces_size cs)") (auto dest: read_piece_smaller)

declare peek_http2.simps [simp del]

text \<open>\<open>PeekHTTP\<close>: first enough bytes for the HTTP/2 preface, unless the input ends before.\<close>

function peek_start :: "bytes \<Rightarrow> bytes list \<Rightarrow> bytes \<times> bytes list" where
  "peek_start buf cs =
     (if length buf \<ge> http2PrefaceLen then (buf, cs)
      else case read_piece 512 cs of None \<Rightarrow> (buf, cs) | Some (b, cs') \<Rightarrow> peek_start (buf @ b) cs')"
  by pat_completeness auto
termination
  by (relation "measure (\<lambda>(b, cs). pieces_size cs)") (auto dest: read_piece_smaller)

declare peek_start.simps [simp del]

definition PeekHTTP :: "(bytes \<Rightarrow> (string \<times> string) list option) \<Rightarrow> io_error \<Rightarrow> bytes list
    \<Rightarrow> (peek_error + http_head) \<times> bytes \<times> bytes list" where
  "PeekHTTP dec err cs0 =
     (let (buf, cs) = peek_start [] cs0 in
      if buf = [] then (Inl (PeekRead err), buf, cs)
      else if length buf \<ge> http2PrefaceLen \<and> take http2PrefaceLen (string_of_bytes buf) = HTTP2ClientPreface
      then peek_http2 dec err buf http2PrefaceLen [] False cs
      else peek_http1 err buf cs)"

section \<open>The outcome does not depend on how the bytes arrive\<close>

lemma has_prefix_append_iff: "length p \<le> length s \<Longrightarrow> has_prefix (s @ t) p = has_prefix s p"
  by (simp add: has_prefix_def)

lemma has_prefix_length: "has_prefix s p \<Longrightarrow> length p \<le> length s"
  unfolding has_prefix_def by (metis length_take min.cobounded1)

lemma index_str_append: "index_str s p = Some i \<Longrightarrow> index_str (s @ t) p = Some i"
proof (induction s arbitrary: i)
  case Nil
  then have "p = []" by (auto split: if_splits)
  then show ?case using Nil by (cases t) (auto simp: has_prefix_def)
next
  case (Cons x s)
  have "length p \<le> length (x # s)" using index_str_bound [OF Cons.prems] by simp
  from has_prefix_append_iff [OF this, of t] show ?case using Cons by (auto split: if_splits)
qed

lemma string_of_bytes_append [simp]: "string_of_bytes (a @ b) = string_of_bytes a @ string_of_bytes b"
  by (simp add: string_of_bytes_def)

lemma string_of_bytes_take [simp]: "string_of_bytes (take n b) = take n (string_of_bytes b)"
  by (simp add: string_of_bytes_def take_map)

lemma peek_start_props:
  "peek_start buf cs = (b', cs') \<Longrightarrow>
   b' @ concat cs' = buf @ concat cs \<and> (length b' < http2PrefaceLen \<longrightarrow> cs' = [])"
proof (induction buf cs rule: peek_start.induct)
  case (1 buf cs)
  note u = peek_start.simps [of buf cs]
  consider (enough) "length buf \<ge> http2PrefaceLen" | (ended) "length buf < http2PrefaceLen" "cs = []"
    | (more) b cs1 where "length buf < http2PrefaceLen" "read_piece 512 cs = Some (b, cs1)"
    by (cases "read_piece 512 cs") fastforce+
  then show ?case
  proof cases
    case more
    then show ?thesis using "1.IH" [OF _ more(2) refl] "1.prems" u read_piece_concat [OF more(2)] by simp
  qed (use "1.prems" u in auto)
qed

definition spec_http1 :: "bytes \<Rightarrow> peek_error + http_head" where
  "spec_http1 s =
     (case index_str (string_of_bytes s) (crlf @ crlf) of
        Some i \<Rightarrow> parse_http1_head (take i (string_of_bytes s))
      | None \<Rightarrow> Inl (Truncated ''http/1 headers''))"

lemma peek_http1_spec:
  "length (raw @ concat cs) \<le> maxPeekBytes \<Longrightarrow> raw \<noteq> [] \<Longrightarrow>
   fst (peek_http1 err raw cs) = spec_http1 (raw @ concat cs) \<and>
   fst (snd (peek_http1 err raw cs)) @ concat (snd (snd (peek_http1 err raw cs))) = raw @ concat cs"
proof (induction err raw cs rule: peek_http1.induct)
  case (1 err raw cs)
  note u = peek_http1.simps [of err raw cs]
  have small: "\<not> length raw > maxPeekBytes" using "1.prems"(1) by simp
  consider (found) i where "index_str (string_of_bytes raw) (crlf @ crlf) = Some i"
    | (ended) "index_str (string_of_bytes raw) (crlf @ crlf) = None" "cs = []"
    | (more) b cs1 where "index_str (string_of_bytes raw) (crlf @ crlf) = None" "read_piece 1024 cs = Some (b, cs1)"
    by (cases "index_str (string_of_bytes raw) (crlf @ crlf)"; cases "read_piece 1024 cs") fastforce+
  then show ?case
  proof cases
    case (found i)
    then have "i \<le> length raw" using index_str_bound by fastforce
    then show ?thesis
      using index_str_append [OF found] by (simp add: u found spec_http1_def)
  next
    case ended
    then show ?thesis using "1.prems"(2) small by (simp add: peek_http1.simps [of err raw "[]"] spec_http1_def)
  next
    case (more b cs1)
    note c = read_piece_concat [OF more(2)]
    have "peek_http1 err raw cs = peek_http1 err (raw @ b) cs1"
      unfolding u more option.case prod.case using small by simp
    moreover have "(raw @ b) @ concat cs1 = raw @ concat cs" using c by simp
    ultimately show ?thesis using "1.IH" [OF more(1) small more(2) refl] "1.prems" by simp
  qed
qed

lemma http2_frame_append:
  assumes "off + http2FrameHeader \<le> length raw"
  shows "(raw @ x) ! off = raw ! off" "(raw @ x) ! (off + 1) = raw ! (off + 1)" "(raw @ x) ! (off + 2) = raw ! (off + 2)"
    "(raw @ x) ! (off + 3) = raw ! (off + 3)" "(raw @ x) ! (off + 4) = raw ! (off + 4)"
    "off + http2FrameHeader \<le> length (raw @ x)"
  using assms by (simp_all add: nth_append http2FrameHeader_def)

text \<open>More input does not change what was scanned.\<close>

lemma h2_scan_append:
  "h2_scan dec (raw @ x) off block inh =
     (case h2_scan dec raw off block inh of
        Inl r \<Rightarrow> Inl r | Inr (off', block', inh') \<Rightarrow> h2_scan dec (raw @ x) off' block' inh')"
proof (induction dec raw off block inh rule: h2_scan.induct)
  case (1 dec raw off block inh)
  let ?n = "u24 (raw ! off) (raw ! (off + 1)) (raw ! (off + 2))"
  let ?stop = "off + http2FrameHeader + ?n"
  show ?case
  proof (cases "off + http2FrameHeader > length raw \<or> ?stop > length raw")
    case True
    then have "h2_scan dec raw off block inh = Inr (off, block, inh)"
      by (subst h2_scan.simps) (auto simp: Let_def)
    then show ?thesis by simp
  next
    case False
    then have o: "off + http2FrameHeader \<le> length raw" and e: "\<not> ?stop > length raw" by auto
    note f = http2_frame_append [OF o, of x]
    have p: "take ?n (drop (off + http2FrameHeader) (raw @ x)) = take ?n (drop (off + http2FrameHeader) raw)"
      and e': "\<not> ?stop > length (raw @ x)" "\<not> off + http2FrameHeader > length (raw @ x)" "\<not> off + http2FrameHeader > length raw"
      using e o by simp_all
    note ih = "1.IH" [OF e'(3) refl refl e refl refl refl]
    show ?thesis
      unfolding h2_scan.simps [of dec raw off] h2_scan.simps [of dec "raw @ x" off] Let_def f(1-5) p
      using e e' ih
      by (simp split: sum.split)
  qed
qed

definition spec_http2 :: "(bytes \<Rightarrow> (string \<times> string) list option) \<Rightarrow> bytes \<Rightarrow> nat \<Rightarrow> bytes \<Rightarrow> bool \<Rightarrow> peek_error + http_head" where
  "spec_http2 dec s off block inh =
     (case h2_scan dec s off block inh of Inl r \<Rightarrow> r | Inr _ \<Rightarrow> Inl (Truncated ''http2 preface''))"

lemma peek_http2_spec:
  "length (raw @ concat cs) \<le> maxPeekBytes \<Longrightarrow>
   fst (peek_http2 dec err raw off block inh cs) = spec_http2 dec (raw @ concat cs) off block inh \<and>
   fst (snd (peek_http2 dec err raw off block inh cs)) @ concat (snd (snd (peek_http2 dec err raw off block inh cs))) = raw @ concat cs"
proof (induction dec err raw off block inh cs rule: peek_http2.induct)
  case (1 dec err raw off block inh cs)
  have small: "\<not> length raw > maxPeekBytes" using "1.prems"(1) by simp
  show ?case
  proof (cases "h2_scan dec raw off block inh")
    case (Inl r)
    then show ?thesis
      using h2_scan_append [of dec raw "concat cs" off block inh]
      by (simp add: peek_http2.simps [of dec err raw off block inh cs] spec_http2_def)
  next
    case (Inr st)
    obtain o' b' i' where st: "st = (o', b', i')" by (cases st) auto
    note s = Inr [unfolded st]
    show ?thesis
    proof (cases "read_piece 2048 cs")
      case None
      then have "cs = []" by simp
      then show ?thesis
        using s small by (simp add: peek_http2.simps [of dec err raw off block inh "[]"] spec_http2_def)
    next
      case (Some q)
      obtain b cs1 where q: "q = (b, cs1)" by (cases q) auto
      note r = Some [unfolded q]
      note c = read_piece_concat [OF r]
      have u: "peek_http2 dec err raw off block inh cs = peek_http2 dec err (raw @ b) o' b' i' cs1"
        using s r small by (simp add: peek_http2.simps [of dec err raw off block inh cs])
      have "(raw @ b) @ concat cs1 = raw @ concat cs" using c by simp
      moreover have "spec_http2 dec (raw @ concat cs) off block inh = spec_http2 dec (raw @ concat cs) o' b' i'"
        using h2_scan_append [of dec raw "concat cs" off block inh] s by (simp add: spec_http2_def)
      ultimately show ?thesis
        using "1.IH" [OF s refl refl small r refl] "1.prems" u by simp
    qed
  qed
qed

text \<open>What \<open>PeekHTTP\<close> makes of a whole input.\<close>

definition peek_spec :: "(bytes \<Rightarrow> (string \<times> string) list option) \<Rightarrow> io_error \<Rightarrow> bytes \<Rightarrow> peek_error + http_head" where
  "peek_spec dec err s =
     (if s = [] then Inl (PeekRead err)
      else if has_prefix (string_of_bytes s) HTTP2ClientPreface then spec_http2 dec s http2PrefaceLen [] False
      else spec_http1 s)"

lemma length_preface: "length HTTP2ClientPreface = http2PrefaceLen"
  by (simp add: HTTP2ClientPreface_def http2PrefaceLen_def crlf_def)

lemma peek_http_pieces:
  assumes "length (concat cs) \<le> maxPeekBytes"
  shows "\<exists>raw rest. PeekHTTP dec err cs = (peek_spec dec err (concat cs), raw, rest) \<and> raw @ concat rest = concat cs"
proof -
  obtain buf cs1 where b: "peek_start [] cs = (buf, cs1)" by fastforce
  have s: "buf @ concat cs1 = concat cs" and ended: "length buf < http2PrefaceLen \<Longrightarrow> cs1 = []"
    using peek_start_props [OF b] by auto
  have l: "length (buf @ concat cs1) \<le> maxPeekBytes" using assms s by simp
  let ?h2 = "length buf \<ge> http2PrefaceLen \<and> take http2PrefaceLen (string_of_bytes buf) = HTTP2ClientPreface"
  have h2: "has_prefix (string_of_bytes (concat cs)) HTTP2ClientPreface \<longleftrightarrow> ?h2"
  proof (cases "length buf \<ge> http2PrefaceLen")
    case True
    then show ?thesis unfolding s [symmetric] by (simp add: has_prefix_def length_preface)
  next
    case False
    then have "concat cs = buf" using s ended by simp
    then show ?thesis using False has_prefix_length [of "string_of_bytes buf" HTTP2ClientPreface] length_preface by auto
  qed
  show ?thesis
  proof (cases "buf = []")
    case True
    then have "cs1 = []" using ended by (simp add: http2PrefaceLen_def)
    moreover from this have "concat cs = []" using s True by simp
    ultimately show ?thesis using b True by (simp add: PeekHTTP_def peek_spec_def)
  next
    case False
    then have ne: "concat cs \<noteq> []" using s by (metis append_is_Nil_conv)
    show ?thesis
    proof (cases ?h2)
      case True
      obtain r raw rest where p: "peek_http2 dec err buf http2PrefaceLen [] False cs1 = (r, raw, rest)" by (metis prod_cases3)
      show ?thesis
        using peek_http2_spec [OF l, of dec err http2PrefaceLen "[]" False] True h2 ne b p s False
        by (auto simp: PeekHTTP_def peek_spec_def)
    next
      case no: False
      obtain r raw rest where p: "peek_http1 err buf cs1 = (r, raw, rest)" by (metis prod_cases3)
      have "PeekHTTP dec err cs = (r, raw, rest)" using no b p False unfolding PeekHTTP_def by (auto simp: Let_def)
      then show ?thesis
        using peek_http1_spec [OF l False, of err] no h2 ne p s unfolding peek_spec_def by auto
    qed
  qed
qed

lemma peek_http_arrival_pieces:
  "length (concat cs) \<le> maxPeekBytes \<Longrightarrow> fst (PeekHTTP dec err cs) = peek_spec dec err (concat cs)"
  by (drule peek_http_pieces [of _ dec err]) auto

text \<open>
Routing does not depend on how the bytes of a request arrive. For an input of at most 64 KiB, however it is cut into pieces and whatever the sizes of the reads, \<open>PeekHTTP\<close> always returns, its result is that of a function of the whole input, for HTTP/1 and HTTP/2 and for every kind of malformed request, and what it read together with what is still to come is exactly the input, so the replayed connection loses and repeats nothing.
\<close>

theorem peek_http_arrival_independent:
  assumes "length (concat cs) \<le> maxPeekBytes"
  shows "\<exists>raw rest. PeekHTTP dec err cs = (peek_spec dec err (concat cs), raw, rest) \<and> raw @ concat rest = concat cs"
  by (rule peek_http_pieces [OF assms])

text \<open>A short request line, in two pieces.\<close>

definition example_pieces :: "bytes list" where
  "example_pieces = [bytes_of_string ''GET /a?b HTTP/1.1'', bytes_of_string (crlf @ ''Host: x'' @ crlf @ crlf)]"

theorem peek_http_arrival_independent_witness:
  "\<exists>raw rest. PeekHTTP (\<lambda>_. None) EOF example_pieces = (peek_spec (\<lambda>_. None) EOF (concat example_pieces), raw, rest)
     \<and> raw @ concat rest = concat example_pieces"
  by (rule peek_http_arrival_independent) (simp add: example_pieces_def maxPeekBytes_def crlf_def)

section \<open>HTTP/1 requests\<close>

text \<open>A request head: its lines, separated by CR LF.\<close>

fun render :: "string list \<Rightarrow> string" where
  "render [] = []"
| "render [l] = l"
| "render (l # ls) = l @ crlf @ render ls"

definition no_cr :: "string \<Rightarrow> bool" where
  "no_cr s \<longleftrightarrow> CHR 0x0D \<notin> set s"

lemma index_crlf:
  assumes "no_cr l" "q = CHR 0x0D # q'"
  shows "index_str (l @ s) q = map_option (\<lambda>i. length l + i) (index_str s q)"
  using assms(1)
proof (induction l)
  case (Cons x l)
  then have "\<not> has_prefix (x # l @ s) q" using assms(2) by (auto simp: has_prefix_def no_cr_def)
  then show ?case using Cons by (auto simp: no_cr_def option.map_comp comp_def)
qed (cases "index_str s q"; simp)

lemma index_str_here: "has_prefix s p \<Longrightarrow> index_str s p = Some 0"
  by (cases s) (auto simp: has_prefix_def)

lemma index_str_skip: "s \<noteq> [] \<Longrightarrow> \<not> has_prefix s p \<Longrightarrow> index_str s p = map_option Suc (index_str (tl s) p)"
  by (cases s) auto

lemma index_crlf_none: "no_cr l \<Longrightarrow> index_str l crlf = None"
  using index_crlf [of l crlf "[CHR 0x0A]" "[]"] by (simp add: crlf_def)

lemma split_crlf_render: "ls \<noteq> [] \<Longrightarrow> list_all no_cr ls \<Longrightarrow> split_crlf (render ls) = ls"
proof (induction ls rule: render.induct)
  case (2 l)
  then show ?case by (subst split_crlf.simps) (simp add: index_crlf_none)
next
  case (3 l m ls)
  have "index_str (l @ crlf @ render (m # ls)) crlf = Some (length l)"
    using 3 index_crlf [of l crlf "[CHR 0x0A]" "crlf @ render (m # ls)"] index_str_here [of "crlf @ render (m # ls)" crlf]
    by (simp add: crlf_def has_prefix_def)
  then show ?case using 3 by (subst split_crlf.simps) (simp add: crlf_def)
qed simp

text \<open>The head ends at the first empty line.\<close>

lemma index_head_end:
  "ls \<noteq> [] \<Longrightarrow> list_all no_cr ls \<Longrightarrow> list_all (\<lambda>l. l \<noteq> []) ls \<Longrightarrow>
   index_str (render ls @ crlf @ crlf @ body) (crlf @ crlf) = Some (length (render ls))"
proof (induction ls rule: render.induct)
  case (2 l)
  then show ?case
    using index_crlf [of l "crlf @ crlf" "CHR 0x0A # crlf" "crlf @ crlf @ body"]
      index_str_here [of "crlf @ crlf @ body" "crlf @ crlf"]
    by (simp add: crlf_def has_prefix_def)
next
  case (3 l m ls)
  let ?t = "render (m # ls) @ crlf @ crlf @ body"
  obtain x m' where m: "m = x # m'" using 3(4) by (cases m) auto
  have x: "x \<noteq> CHR 0x0D" using 3(3) m by (auto simp: no_cr_def)
  have r: "\<exists>y. render (m # ls) = x # y" using m by (cases ls) auto
  have "index_str (crlf @ ?t) (crlf @ crlf) = map_option (\<lambda>i. 2 + i) (index_str ?t (crlf @ crlf))"
    using r x by (auto simp: crlf_def has_prefix_def option.map_comp comp_def)
  then show ?case
    using 3 index_crlf [of l "crlf @ crlf" "CHR 0x0A # crlf" "crlf @ ?t"]
    by (simp add: option.map_comp comp_def) (simp add: crlf_def)
qed simp

text \<open>A header line, and the lines of a request.\<close>

definition header_line :: "string \<times> string \<Rightarrow> string" where
  "header_line h = fst h @ '':'' @ snd h"

definition request_lines :: "string \<Rightarrow> string \<Rightarrow> string \<Rightarrow> (string \<times> string) list \<Rightarrow> string list" where
  "request_lines verb target version hs = (verb @ '' '' @ target @ '' '' @ version) # map header_line hs"

definition header_ok :: "string \<times> string \<Rightarrow> bool" where
  "header_ok h \<longleftrightarrow> CHR '':'' \<notin> set (fst h) \<and> no_cr (fst h) \<and> no_cr (snd h)"

definition first_host :: "(string \<times> string) list \<Rightarrow> string" where
  "first_host hs = (case find (\<lambda>h. equal_fold (fst h) ''Host'') hs of None \<Rightarrow> [] | Some h \<Rightarrow> trim_space (snd h))"

lemma find_host_headers: "list_all header_ok hs \<Longrightarrow> find_host (map header_line hs) = first_host hs"
proof (induction hs)
  case (Cons h hs)
  have "cut_byte (header_line h) CHR '':'' = Some (fst h, snd h)"
    using Cons.prems index_byte_append [of "CHR '':''" "fst h" "snd h"] by (simp add: cut_byte_def header_line_def header_ok_def)
  moreover have "header_line h \<noteq> []" by (simp add: header_line_def)
  ultimately show ?case using Cons by (cases h) (simp add: first_host_def)
qed (simp add: first_host_def)

lemma split_n_request:
  assumes "CHR '' '' \<notin> set verb" "CHR '' '' \<notin> set target"
  shows "split_n CHR '' '' 3 (verb @ '' '' @ target @ '' '' @ version) = [verb, target, version]"
  using index_byte_append [OF assms(1), of "target @ '' '' @ version"] index_byte_append [OF assms(2), of version]
  by (simp add: numeral_3_eq_3)

text \<open>
An HTTP/1 request is routed by its own Host header and path. For any method, target and version, any header fields in any order and any body, the host that \<open>PeekHTTP\<close> finds is the value of the first Host field, whatever its case, without the white space around it, and empty if there is none; the path is the target up to the first question mark. The body is never looked at.
\<close>

theorem http1_request_routed:
  assumes "CHR '' '' \<notin> set verb" "CHR '' '' \<notin> set target" "no_cr (verb @ target @ version)" "list_all header_ok hs"
    and "concat cs = bytes_of_string (render (request_lines verb target version hs) @ crlf @ crlf @ body)"
    and "length (concat cs) \<le> maxPeekBytes" and "\<not> has_prefix (string_of_bytes (concat cs)) HTTP2ClientPreface"
  shows "fst (PeekHTTP dec err cs) = Inr \<lparr>hd_host = first_host hs, hd_path = path_only target, hd_http2 = False\<rparr>"
proof -
  let ?ls = "request_lines verb target version hs"
  have ok: "?ls \<noteq> []" "list_all no_cr ?ls" "list_all (\<lambda>l. l \<noteq> []) ?ls"
    using assms(3,4) by (auto simp: request_lines_def list_all_iff no_cr_def header_line_def header_ok_def)
  have i: "index_str (string_of_bytes (concat cs)) (crlf @ crlf) = Some (length (render ?ls))"
    unfolding assms(5) string_of_bytes_of_string by (rule index_head_end [OF ok])
  have h: "take (length (render ?ls)) (string_of_bytes (concat cs)) = render ?ls"
    unfolding assms(5) string_of_bytes_of_string by simp
  have "parse_http1_head (render ?ls) = Inr \<lparr>hd_host = first_host hs, hd_path = path_only target, hd_http2 = False\<rparr>"
    using split_crlf_render [OF ok(1,2)] split_n_request [OF assms(1,2), of version] find_host_headers [OF assms(4)]
    by (simp add: parse_http1_head_def request_lines_def)
  then have "spec_http1 (concat cs) = Inr \<lparr>hd_host = first_host hs, hd_path = path_only target, hd_http2 = False\<rparr>"
    unfolding spec_http1_def i option.case h .
  moreover have "concat cs \<noteq> []"
    unfolding assms(5) by (metis append_is_Nil_conv bytes_of_string_Nil bytes_of_string_inj crlf_def list.distinct(1))
  ultimately show ?thesis
    using peek_http_arrival_pieces [OF assms(6), of dec err] assms(7) unfolding peek_spec_def by simp
qed

theorem http1_request_routed_witness:
  "fst (PeekHTTP (\<lambda>_. None) EOF
     [bytes_of_string (render (request_lines ''GET'' ''/a?b'' ''HTTP/1.1'' [(''Accept'', '' *''), (''hOST'', '' shop.example '')]) @ crlf @ crlf)]) =
   Inr \<lparr>hd_host = ''shop.example'', hd_path = ''/a'', hd_http2 = False\<rparr>"
proof -
  let ?hs = "[(''Accept'', '' *''), (''hOST'', '' shop.example '')]"
  let ?c = "bytes_of_string (render (request_lines ''GET'' ''/a?b'' ''HTTP/1.1'' ?hs) @ crlf @ crlf)"
  have a: "first_host ?hs = ''shop.example''" by code_simp
  have b: "path_only ''/a?b'' = ''/a''" by (simp add: path_only_def Let_def)
  have c: "\<not> has_prefix (string_of_bytes (concat [?c])) HTTP2ClientPreface"
    by (simp add: has_prefix_def length_preface) (simp add: request_lines_def http2PrefaceLen_def HTTP2ClientPreface_def)
  have d: "length (concat [?c]) \<le> maxPeekBytes"
    by (simp add: request_lines_def header_line_def crlf_def maxPeekBytes_def)
  have e: "no_cr (''GET'' @ ''/a?b'' @ ''HTTP/1.1'')" "list_all header_ok ?hs"
    by (simp_all add: no_cr_def header_ok_def)
  have f: "concat [?c] = bytes_of_string (render (request_lines ''GET'' ''/a?b'' ''HTTP/1.1'' ?hs) @ crlf @ crlf @ [])" by simp
  show ?thesis
    using http1_request_routed [OF _ _ e f d c, of "\<lambda>_. None" EOF] unfolding a b by simp
qed

section \<open>ClientHello\<close>

text \<open>The body of a ClientHello, as RFC 8446 lays it out.\<close>

definition enc_ext :: "16 word \<times> bytes \<Rightarrow> bytes" where
  "enc_ext e = be16 (fst e) @ be16 (of_nat (length (snd e))) @ snd e"

definition enc_exts :: "(16 word \<times> bytes) list \<Rightarrow> bytes" where
  "enc_exts es = concat (map enc_ext es)"

definition sni_ext :: "string \<Rightarrow> 16 word \<times> bytes" where
  "sni_ext name = (0, be16 (of_nat (length name + 3)) @ [0] @ be16 (of_nat (length name)) @ bytes_of_string name)"

definition client_hello :: "bytes \<Rightarrow> bytes \<Rightarrow> bytes \<Rightarrow> bytes \<Rightarrow> (16 word \<times> bytes) list \<Rightarrow> bytes" where
  "client_hello fixed sid cs compr es =
     fixed @ [of_nat (length sid)] @ sid @ be16 (of_nat (length cs)) @ cs @ [of_nat (length compr)] @ compr @
     be16 (of_nat (length (enc_exts es))) @ enc_exts es"

definition ext_fits :: "16 word \<times> bytes \<Rightarrow> bool" where
  "ext_fits e \<longleftrightarrow> length (snd e) < 65536"

lemma length_enc_ext [simp]: "length (enc_ext e) = 4 + length (snd e)"
  by (simp add: enc_ext_def)

lemma take_be16 [simp]: "take 2 (be16 w @ r) = be16 w"
  by simp

lemma sni_names_first:
  assumes "length name < 65500"
  shows "parse_sni_extension (snd (sni_ext name)) = Inr name"
proof -
  let ?d = "snd (sni_ext name)"
  have d: "?d = be16 (of_nat (length name + 3)) @ 0 # be16 (of_nat (length name)) @ bytes_of_string name"
    by (simp add: sni_ext_def)
  have l: "length ?d = length name + 5" by (simp add: d)
  have n: "u16_at ?d 0 = length name + 3" using assms by (simp add: d unat_word16_of_nat [of "length name + 3", simplified])
  have a: "?d ! 2 = 0" by (simp add: d nth_append)
  have m: "u16_at ?d 3 = length name" using assms by (simp add: d)
  have b: "take (length name) (drop 5 ?d) = bytes_of_string name" by (simp add: d)
  show ?thesis
    unfolding parse_sni_extension_def l n Let_def
    by (subst sni_names.simps) (simp add: a m b Let_def)
qed

lemma extensions_skip:
  assumes "list_all (\<lambda>e. ext_fits e \<and> fst e \<noteq> 0) es"
    and "body = pre @ enc_exts es @ post" "off = length pre" "length pre + length (enc_exts es) \<le> end"
  shows "extensions body end off = extensions body end (off + length (enc_exts es))"
  using assms
proof (induction es arbitrary: pre off)
  case (Cons e es)
  let ?n = "length (snd e)"
  have b: "body = pre @ be16 (fst e) @ be16 (of_nat ?n) @ snd e @ enc_exts es @ post"
    using Cons.prems(2) by (simp add: enc_exts_def enc_ext_def)
  have t: "rd16 (take 2 (drop off body)) = fst e" using b Cons.prems(3) by simp
  have n: "u16_at body (off + 2) = ?n" using b Cons.prems(1,3) by (simp add: ext_fits_def)
  have l: "off + 4 + ?n \<le> end" using Cons.prems(3,4) by (simp add: enc_exts_def)
  have "unat (fst e) \<noteq> 0" using Cons.prems(1) by (simp add: unat_eq_0)
  then have "extensions body end off = extensions body end (off + 4 + ?n)"
    using l by (subst extensions.simps) (simp add: Let_def t n [simplified])
  also have "\<dots> = extensions body end (off + 4 + ?n + length (enc_exts es))"
    by (rule Cons.IH [of "pre @ enc_ext e"]) (use Cons.prems in \<open>simp_all add: enc_exts_def\<close>)
  finally show ?case by (simp add: enc_exts_def ac_simps)
qed (simp add: enc_exts_def)

lemma extensions_found:
  assumes "body = pre @ enc_ext (sni_ext name) @ post" "off = length pre" "off + length name + 9 \<le> end" "length name < 65500"
  shows "extensions body end off = Inr name"
proof -
  let ?d = "snd (sni_ext name)"
  have l: "length ?d = length name + 5" by (simp add: sni_ext_def)
  have b: "body = pre @ be16 0 @ be16 (of_nat (length ?d)) @ ?d @ post"
    using assms(1) by (simp add: enc_ext_def) (simp add: sni_ext_def)
  have t: "rd16 (take 2 (drop off body)) = 0" using b assms(2) by simp
  have "u16_at body (off + 2) = unat (of_nat (length ?d) :: 16 word)" using b assms(2) by simp
  also have "\<dots> = length ?d" by (rule unat_word16_of_nat) (use l assms(4) in simp)
  finally have n: "u16_at body (off + 2) = length ?d" .
  have d: "take (length ?d) (drop (off + 4) body) = ?d" using b assms(2) by simp
  show ?thesis
    using assms(3) l sni_names_first [OF assms(4)]
    by (subst extensions.simps) (simp add: Let_def t n [simplified] d [unfolded l] l)
qed

lemma nth_at: "b = p @ x # r \<Longrightarrow> length p = n \<Longrightarrow> b ! n = x"
  by auto

lemma u16_at_eq: "b = p @ be16 (of_nat k) @ r \<Longrightarrow> length p = n \<Longrightarrow> k < 65536 \<Longrightarrow> u16_at b n = k"
  by simp

lemma hello_head:
  assumes f: "length fixed = 34" "length sid < 256" "length cs < 65536" "length compr < 256" "length X < 65536"
    and b: "b = fixed @ [of_nat (length sid)] @ sid @ be16 (of_nat (length cs)) @ cs @ [of_nat (length compr)] @ compr @
       be16 (of_nat (length X)) @ X"
  shows "parse_hello_sni b = extensions b (length b) (40 + length sid + length cs + length compr)"
proof -
  have u8: "unat (of_nat k :: byte) = k" if "k < 256" for k using that by (simp add: unat_of_nat take_bit_eq_mod)
  let ?o1 = "35 + length sid" and ?o2 = "37 + length sid + length cs" and ?o3 = "38 + length sid + length cs + length compr"
  have len: "length b = ?o3 + 2 + length X" using f(1) b by simp
  have "b ! 34 = of_nat (length sid)" by (rule nth_at [OF _ f(1)]) (use b in simp)
  then have p1: "unat (b ! 34) = length sid" using u8 f(2) by simp
  have p2: "u16_at b ?o1 = length cs"
    by (rule u16_at_eq [of _ "fixed @ [of_nat (length sid)] @ sid"]) (use b f in simp_all)
  have "b ! ?o2 = of_nat (length compr)"
    by (rule nth_at [of _ "fixed @ [of_nat (length sid)] @ sid @ be16 (of_nat (length cs)) @ cs"]) (use b f in simp_all)
  then have p3: "unat (b ! ?o2) = length compr" using u8 f(4) by simp
  have p4: "u16_at b ?o3 = length X"
    by (rule u16_at_eq [of _ "fixed @ [of_nat (length sid)] @ sid @ be16 (of_nat (length cs)) @ cs @ [of_nat (length compr)] @ compr" _ X])
       (use b f in simp_all)
  have o2: "?o1 + 2 + length cs = ?o2" and o3: "?o2 + 1 + length compr = ?o3" by simp_all
  show ?thesis
    unfolding parse_hello_sni_def Let_def p1 p2 o2 p3 o3 p4 using len by (simp add: ac_simps)
qed

lemma parse_client_hello:
  assumes f: "length fixed = 34" "length sid < 256" "length cs < 65536" "length compr < 256"
    and es: "list_all (\<lambda>e. ext_fits e \<and> fst e \<noteq> 0) es1" "length name < 65500"
    and x: "length (enc_exts (es1 @ sni_ext name # es2)) < 65536"
  shows "parse_hello_sni (client_hello fixed sid cs compr (es1 @ sni_ext name # es2)) = Inr name"
proof -
  let ?X = "enc_exts (es1 @ sni_ext name # es2)"
  let ?pre = "fixed @ [of_nat (length sid)] @ sid @ be16 (of_nat (length cs)) @ cs @ [of_nat (length compr)] @ compr @
     be16 (of_nat (length ?X))"
  let ?o = "40 + length sid + length cs + length compr"
  define b where "b = ?pre @ ?X"
  have X: "?X = enc_exts es1 @ enc_ext (sni_ext name) @ enc_exts es2" by (simp add: enc_exts_def)
  have o: "?o = length ?pre" using f(1) by simp
  have sl: "length (enc_ext (sni_ext name)) = length name + 9" by (simp add: sni_ext_def)
  have len: "length b = ?o + length (enc_exts es1) + (length name + 9) + length (enc_exts es2)"
    unfolding b_def length_append X sl using f(1) by simp
  have "parse_hello_sni b = extensions b (length b) ?o" by (rule hello_head [OF f x]) (simp add: b_def)
  also have "\<dots> = extensions b (length b) (?o + length (enc_exts es1))"
  proof (rule extensions_skip [OF es(1)])
    show "b = ?pre @ enc_exts es1 @ (enc_ext (sni_ext name) @ enc_exts es2)" by (simp only: b_def X append.assoc)
    show "?o = length ?pre" by (rule o)
    show "length ?pre + length (enc_exts es1) \<le> length b" unfolding len o [symmetric] by simp
  qed
  also have "\<dots> = Inr name"
  proof (rule extensions_found [OF _ _ _ es(2)])
    show "b = (?pre @ enc_exts es1) @ enc_ext (sni_ext name) @ enc_exts es2" by (simp only: b_def X append.assoc)
    show "?o + length (enc_exts es1) = length (?pre @ enc_exts es1)" unfolding length_append [of ?pre] o [symmetric] by simp
    show "?o + length (enc_exts es1) + length name + 9 \<le> length b" unfolding len by simp
  qed
  finally show ?thesis by (simp add: b_def client_hello_def)
qed

text \<open>A handshake message cut into records.\<close>

definition tls_record :: "byte \<Rightarrow> byte \<Rightarrow> bytes \<Rightarrow> bytes" where
  "tls_record v1 v2 f = [0x16, v1, v2] @ be16 (of_nat (length f)) @ f"

definition handshake_msg :: "bytes \<Rightarrow> bytes" where
  "handshake_msg body =
     [1, of_nat (length body div 65536), of_nat (length body div 256 mod 256), of_nat (length body mod 256)] @ body"

lemma read_record:
  assumes "rx c = tls_record v1 v2 f @ r" "f \<noteq> []" "length f \<le> tlsMaxRecord"
  shows "read_tls_record c = (None, tls_record v1 v2 f, c\<lparr>rx := r\<rparr>)"
proof -
  let ?h = "[0x16, v1, v2] @ be16 (of_nat (length f))"
  have h: "read_full tlsRecordHeaderLen c = (Inr ?h, c\<lparr>rx := f @ r\<rparr>)"
    by (rule read_full_ok) (use assms(1) in \<open>simp_all add: tls_record_def tlsRecordHeaderLen_def\<close>)
  have n: "u16_at ?h 3 = length f" using assms(3) by (simp add: tlsMaxRecord_def)
  have b: "read_full (length f) (c\<lparr>rx := f @ r\<rparr>) = (Inr f, c\<lparr>rx := r\<rparr>)" by (subst read_full_ok) simp_all
  show ?thesis
    unfolding read_tls_record_def h sum.case prod.case Let_def n b using assms(2,3) by (simp add: tls_record_def)
qed

lemma msg_length:
  assumes "length body < 16777216"
  shows "u24 (handshake_msg body ! 1) (handshake_msg body ! 2) (handshake_msg body ! 3) = length body"
proof -
  have u8: "unat (of_nat k :: byte) = k" if "k < 256" for k using that by (simp add: unat_of_nat take_bit_eq_mod)
  have "length body div 65536 < 256" using assms by linarith
  moreover have "65536 * (n div 65536) + 256 * (n div 256 mod 256) + n mod 256 = n" for n :: nat
    by (metis (no_types, opaque_lifting) add.assoc add_mult_distrib2 div_mult2_eq mod_mult2_eq mult.assoc mult.commute mult_div_mod_eq numeral_times_numeral semiring_norm)
  ultimately show ?thesis by (simp add: handshake_msg_def u24_def u8 del: word_of_nat_eq_0_iff)
qed

definition records :: "(byte \<times> byte \<times> bytes) list \<Rightarrow> bytes" where
  "records rs = concat (map (\<lambda>(v1, v2, f). tls_record v1 v2 f) rs)"

definition fragments :: "(byte \<times> byte \<times> bytes) list \<Rightarrow> bytes" where
  "fragments rs = concat (map (\<lambda>(v1, v2, f). f) rs)"

definition record_ok :: "byte \<times> byte \<times> bytes \<Rightarrow> bool" where
  "record_ok r \<longleftrightarrow> snd (snd r) \<noteq> [] \<and> length (snd (snd r)) \<le> tlsMaxRecord"

text \<open>As long as the message is incomplete, one more record is read.\<close>

lemma peek_hello_next:
  assumes m: "m = handshake_msg body" "length body < 16777216"
    and pre: "hs @ g = take (length (hs @ g)) m" and short: "length (hs @ g) < length m"
    and r: "read_tls_record c = (None, tls_record w1 w2 g, c')"
    and room: "length (raw @ tls_record w1 w2 g) \<le> maxPeekBytes"
  shows "peek_hello raw hs c = peek_hello (raw @ tls_record w1 w2 g) (hs @ g) c'"
proof -
  have d: "drop tlsRecordHeaderLen (tls_record w1 w2 g) = g" "tls_record w1 w2 g ! 0 = 0x16"
    by (simp_all add: tls_record_def tlsRecordHeaderLen_def)
  have lm: "length m = 4 + length body" using m by (simp add: handshake_msg_def)
  show ?thesis
  proof (cases "length (hs @ g) < 4")
    case True
    then show ?thesis
      using room d(2) unfolding peek_hello.simps [of raw hs c] r prod.case option.case Let_def d(1) by simp
  next
    case False
    have "(hs @ g) ! k = m ! k" if "k < 4" for k
    proof -
      have "take (length (hs @ g)) m ! k = m ! k" using False that by (intro nth_take) simp
      then show ?thesis using pre by metis
    qed
    then have h: "(hs @ g) ! 0 = 1" "(hs @ g) ! 1 = m ! 1" "(hs @ g) ! 2 = m ! 2" "(hs @ g) ! 3 = m ! 3"
      by (simp_all add: m(1) handshake_msg_def)
    have n: "u24 ((hs @ g) ! 1) ((hs @ g) ! 2) ((hs @ g) ! 3) = length body"
      unfolding h m(1) by (rule msg_length [OF m(2)])
    show ?thesis
      using room d(2) False h(1) short lm
      unfolding peek_hello.simps [of raw hs c] r prod.case option.case Let_def d(1) n by simp
  qed
qed

lemma peek_hello_records:
  assumes m: "m = handshake_msg body" "length body < 16777216"
    and fr: "hs @ fragments rs @ f = m @ extra" "length (hs @ fragments rs) < length m" "length m \<le> length (hs @ fragments rs @ f)"
    and ok: "list_all record_ok (rs @ [(v1, v2, f)])"
    and c: "rx c = records (rs @ [(v1, v2, f)]) @ rest" "length (raw @ records (rs @ [(v1, v2, f)])) \<le> maxPeekBytes"
  shows "peek_hello raw hs c = (parse_hello_sni body, raw @ records (rs @ [(v1, v2, f)]), c\<lparr>rx := rest\<rparr>)"
  using fr ok c
proof (induction rs arbitrary: raw hs c)
  case Nil
  have r: "read_tls_record c = (None, tls_record v1 v2 f, c\<lparr>rx := rest\<rparr>)"
    by (rule read_record) (use Nil.prems in \<open>simp_all add: records_def record_ok_def\<close>)
  have e: "hs @ f = m @ extra" using Nil.prems(1) by (simp add: fragments_def)
  have h: "(hs @ f) ! 0 = 1" "(hs @ f) ! 1 = m ! 1" "(hs @ f) ! 2 = m ! 2" "(hs @ f) ! 3 = m ! 3"
    "length (hs @ f) \<ge> 4 + length body" "take (length body) (drop 4 (hs @ f)) = body"
    unfolding e m(1) by (simp_all add: handshake_msg_def)
  have b: "\<not> length (hs @ f) < 4" using h(5) by simp
  have n: "u24 ((hs @ f) ! 1) ((hs @ f) ! 2) ((hs @ f) ! 3) = length body"
    unfolding h m(1) by (rule msg_length [OF m(2)])
  have d: "drop tlsRecordHeaderLen (tls_record v1 v2 f) = f" by (simp add: tls_record_def tlsRecordHeaderLen_def)
  have "tls_record v1 v2 f ! 0 = 0x16" by (simp add: tls_record_def)
  then show ?case
    using Nil.prems(6) h(1,5,6) b unfolding peek_hello.simps [of raw hs c] r prod.case option.case Let_def d n
    by (simp add: records_def)
next
  case (Cons r0 rs)
  obtain w1 w2 g where r0: "r0 = (w1, w2, g)" by (cases r0) auto
  let ?R = "records (rs @ [(v1, v2, f)])"
  have recs: "records ((r0 # rs) @ [(v1, v2, f)]) = tls_record w1 w2 g @ ?R" by (simp add: records_def r0)
  have fs: "fragments (r0 # rs) = g @ fragments rs" by (simp add: fragments_def r0)
  have r: "read_tls_record c = (None, tls_record w1 w2 g, c\<lparr>rx := ?R @ rest\<rparr>)"
    by (rule read_record) (use Cons.prems recs in \<open>simp_all add: r0 record_ok_def\<close>)
  have short: "length (hs @ g) < length m" using Cons.prems(2) by (simp add: fs)
  have pre: "hs @ g = take (length (hs @ g)) m"
  proof -
    have "(hs @ g) @ fragments rs @ f = m @ extra" using Cons.prems(1) by (simp add: fs)
    then have "take (length (hs @ g)) (m @ extra) = hs @ g" by (metis append_eq_conv_conj)
    then show ?thesis using short by simp
  qed
  have next_rec: "peek_hello raw hs c = peek_hello (raw @ tls_record w1 w2 g) (hs @ g) (c\<lparr>rx := ?R @ rest\<rparr>)"
    by (rule peek_hello_next [OF m pre short r]) (use Cons.prems(6) recs in simp)
  have "peek_hello (raw @ tls_record w1 w2 g) (hs @ g) (c\<lparr>rx := ?R @ rest\<rparr>) =
      (parse_hello_sni body, (raw @ tls_record w1 w2 g) @ ?R, (c\<lparr>rx := ?R @ rest\<rparr>)\<lparr>rx := rest\<rparr>)"
    by (rule Cons.IH) (use Cons.prems recs in \<open>simp_all add: fs\<close>)
  then show ?case using next_rec recs by simp
qed

text \<open>
A TLS connection is routed by the server name of its ClientHello. However a client cuts its ClientHello into records, up to 64 KiB in all, and whatever session id, cipher suites, compression methods and other extensions it sends, \<open>PeekClientHello\<close> returns exactly the name in the server name extension, and has consumed exactly the records of the ClientHello, which it returns for the handshake to be replayed; what follows is left on the connection.
\<close>

theorem hello_routed_by_sni:
  assumes "length fixed = 34" "length sid < 256" "length cs < 65536" "length compr < 256"
    and "list_all (\<lambda>e. ext_fits e \<and> fst e \<noteq> 0) es1" "length name < 65500"
    and "length (enc_exts (es1 @ sni_ext name # es2)) < 65536"
    and "body = client_hello fixed sid cs compr (es1 @ sni_ext name # es2)"
    and "fragments (rs @ [(v1, v2, f)]) = handshake_msg body @ extra" "length (fragments rs) < length (handshake_msg body)"
    and "list_all record_ok (rs @ [(v1, v2, f)])" "length (records (rs @ [(v1, v2, f)])) \<le> maxPeekBytes"
    and "rx c = records (rs @ [(v1, v2, f)]) @ rest"
  shows "PeekClientHello c = (Inr name, records (rs @ [(v1, v2, f)]), c\<lparr>rx := rest\<rparr>)"
proof -
  have fr: "fragments (rs @ [(v1, v2, f)]) = fragments rs @ f" by (simp add: fragments_def)
  have "length body < 16777216" using assms(1-4,7,8) by (simp add: client_hello_def)
  moreover have "length (handshake_msg body) \<le> length (fragments rs @ f)" using assms(9) fr by (metis le_add1 length_append)
  ultimately have "peek_hello [] [] c = (parse_hello_sni body, [] @ records (rs @ [(v1, v2, f)]), c\<lparr>rx := rest\<rparr>)"
    using assms(9-13) fr by (intro peek_hello_records [OF refl]) simp_all
  then show ?thesis using parse_client_hello [OF assms(1-7)] assms(8) by (simp add: PeekClientHello_def)
qed

theorem hello_routed_by_sni_witness:
  "let body = client_hello (replicate 34 0) [] [0x13, 1] [0] [sni_ext ''shop.example''] in
   PeekClientHello (mk_conn (tls_record 3 1 (handshake_msg body) @ [9])) =
     (Inr ''shop.example'', tls_record 3 1 (handshake_msg body), mk_conn [9])"
proof -
  let ?b = "client_hello (replicate 34 0) [] [0x13, 1] [0] [sni_ext ''shop.example'']"
  have l: "length ?b = 64" by (simp add: client_hello_def enc_exts_def sni_ext_def)
  have m: "length (handshake_msg ?b) = 68" by (simp add: handshake_msg_def l)
  have ne: "handshake_msg ?b \<noteq> []" by (simp add: handshake_msg_def)
  let ?R = "tls_record 3 1 (handshake_msg ?b)"
  have R: "records ([] @ [(3, 1, handshake_msg ?b)]) = ?R" by (simp add: records_def)
  have "length ?R = 73" using m by (simp add: tls_record_def)
  then have len: "length (records ([] @ [(3, 1, handshake_msg ?b)])) \<le> maxPeekBytes" unfolding R by (simp add: maxPeekBytes_def)
  have x: "length (enc_exts ([] @ sni_ext ''shop.example'' # [])) < 65536" by (simp add: enc_exts_def sni_ext_def)
  have ok: "list_all record_ok ([] @ [(3, 1, handshake_msg ?b)])" using m ne by (simp add: record_ok_def tlsMaxRecord_def)
  have fr: "fragments ([] @ [(3, 1, handshake_msg ?b)]) = handshake_msg ?b @ []" by (simp add: fragments_def)
  have lt: "length (fragments []) < length (handshake_msg ?b)" using m by (simp add: fragments_def)
  have rx: "rx (mk_conn (?R @ [9])) = records ([] @ [(3, 1, handshake_msg ?b)]) @ [9]" unfolding R by simp
  have "PeekClientHello (mk_conn (?R @ [9])) = (Inr ''shop.example'', records ([] @ [(3, 1, handshake_msg ?b)]), (mk_conn (?R @ [9]))\<lparr>rx := [9]\<rparr>)"
    by (rule hello_routed_by_sni [OF _ _ _ _ _ _ x _ fr lt ok len rx, of "replicate 34 0" "[]" "[0x13, 1]" "[0]"]) simp_all
  then show ?thesis unfolding R by (simp add: mk_conn_def)
qed

section \<open>Replaying\<close>

lemma prefix_read_exact:
  "prefix_read n k p = (Inr b, p') \<Longrightarrow>
     b @ pf_prefix p' @ rx (pf_conn p') = pf_prefix p @ rx (pf_conn p) \<and> (0 < n \<longrightarrow> 0 < k \<longrightarrow> b \<noteq> [])"
  "prefix_read n k p = (Inl e, p') \<Longrightarrow> p' = p \<and> pf_prefix p @ rx (pf_conn p) = [] \<and> e = rx_err (pf_conn p)"
  by (auto simp: prefix_read_def min_def split: if_splits)

section \<open>Host names\<close>

text \<open>A host name without a port: nothing to trim, no colon, no brackets.\<close>

definition plain_host :: "string \<Rightarrow> bool" where
  "plain_host h \<longleftrightarrow> h \<noteq> [] \<and> solid h \<and> CHR '':'' \<notin> set h \<and> CHR ''['' \<notin> set h \<and> CHR '']'' \<notin> set h"

definition plain_port :: "string \<Rightarrow> bool" where
  "plain_port p \<longleftrightarrow> p \<noteq> [] \<and> list_all is_digit p"

lemma digit_not_special: "is_digit c \<Longrightarrow> c \<noteq> CHR '':'' \<and> c \<noteq> CHR ''['' \<and> c \<noteq> CHR '']'' \<and> \<not> ascii_space c \<and> of_char c < (128 :: nat)"
  by (auto simp: is_digit_def ascii_space_def)

lemma plain_no_bracket: "plain_host h \<Longrightarrow> \<not> has_prefix (h @ s) ''[''"
  by (cases h) (auto simp: plain_host_def has_prefix_def)

lemma normalize_plain: "plain_host h \<Longrightarrow> normalize_host h = to_lower h"
  using plain_no_bracket [of h "[]"]
  by (simp add: normalize_host_def plain_host_def trim_space_solid Let_def lower_host_def contains_byte_def)

lemma normalize_with_port:
  assumes h: "plain_host h" and p: "plain_port p"
  shows "normalize_host (h @ '':'' @ p) = to_lower h"
proof -
  have c: "CHR '':'' \<notin> set p" "CHR ''['' \<notin> set p" "CHR '']'' \<notin> set p" "\<not> ascii_space (last p)" "of_char (last p) < (128 :: nat)"
    using p digit_not_special by (auto simp: plain_port_def list_all_iff)
  have s: "solid (h @ '':'' @ p)" using h p c by (auto simp: solid_def plain_host_def plain_port_def)
  have "hd (h @ '':'' @ p) \<noteq> CHR ''[''" using h by (cases h) (auto simp: plain_host_def)
  moreover have "split_host_port (h @ '':'' @ p) = Some (h, p)"
    using h c last_index_byte_append [OF c(1), of h] calculation
    by (auto simp: split_host_port_def plain_host_def contains_byte_def)
  moreover have "\<not> has_prefix (h @ '':'' @ p) ''[''" using h by (cases h) (auto simp: plain_host_def has_prefix_def)
  moreover have "h @ '':'' @ p \<noteq> []" by simp
  ultimately show ?thesis
    using trim_space_solid [OF s] by (simp add: normalize_host_def Let_def lower_host_def contains_byte_def)
qed

end
