(* ===== verification/HttpRoute.thy ===== *)
theory HttpRoute
  imports Gate HttpPeek Dest
begin

text \<open>
  The HTTP front of Edge, \<open>internal/edge/http.go\<close>: how the configured tunnels share a public
  port, which tunnel a connection or a request goes to, which certificate a client is shown, and
  what every connection gets on every path.

  A certificate is its name. The TLS handshake (result: server name, negotiated protocol, the
  decrypted input) and the HPACK decoder are arguments; a reply is its status code, and the bytes
  of a reply that Edge writes itself are those of \<open>write_http_status\<close>. The HTTP/1 server and the
  reverse proxy are the Go library's: the model has the handler and the director that the code
  passes to them.
\<close>

section \<open>Listeners\<close>

record http_group =
  hg_tls :: bool
  hg_by_host :: "(string \<times> tunnel) list"
  hg_names :: "string list"

definition group_needs_terminate :: "http_group \<Rightarrow> bool" where
  "group_needs_terminate g \<longleftrightarrow> list_ex (\<lambda>(_, t). t_tls t \<and> \<not> t_passthrough t) (hg_by_host g)"

definition group_add :: "tunnel \<Rightarrow> (string \<times> http_group) list \<Rightarrow> (string \<times> http_group) list" where
  "group_add t out =
     (let g = (case map_of out (t_public t) of
                 Some g \<Rightarrow> g | None \<Rightarrow> \<lparr>hg_tls = t_tls t, hg_by_host = [], hg_names = []\<rparr>)
      in AList.update (t_public t)
           (g\<lparr>hg_by_host := AList.update (normalize_host (t_host t)) t (hg_by_host g),
              hg_names := List.insert (t_name t) (hg_names g)\<rparr>) out)"

definition group_http_tunnels :: "tunnel list \<Rightarrow> (string \<times> http_group) list" where
  "group_http_tunnels ts = fold group_add ts []"

record http_listener =
  hl_public :: string
  hl_tls :: bool
  hl_tunnels :: "(string \<times> tunnel) list"
  hl_by_name :: "(string \<times> tunnel) list"
  hl_certs :: "(string \<times> string) list"
  hl_fallback :: "string option"
  hl_conns :: "pub_conn list"

text \<open>\<open>loadHTTPCerts\<close>: \<open>edge_cert\<close> is what \<open>tlsutil.LoadOrGenerate\<close> returns and \<open>pair\<close> loads a
  certificate with its key.\<close>

fun load_certs :: "string \<Rightarrow> (string \<Rightarrow> string \<Rightarrow> string option) \<Rightarrow> (string \<times> tunnel) list \<Rightarrow> http_listener \<Rightarrow> (string + http_listener)" where
  "load_certs edge_cert pair [] hl = Inr hl"
| "load_certs edge_cert pair ((host, t) # rest) hl =
     (if t_passthrough t then load_certs edge_cert pair rest hl
      else if t_cert t \<noteq> [] \<and> t_key t \<noteq> [] then
        (case pair (t_cert t) (t_key t) of
           None \<Rightarrow> Inl (t_name t)
         | Some c \<Rightarrow> load_certs edge_cert pair rest
             (if host \<noteq> [] then hl\<lparr>hl_certs := AList.update host c (hl_certs hl)\<rparr> else hl\<lparr>hl_fallback := Some c\<rparr>))
      else load_certs edge_cert pair rest
        (if host \<noteq> [] then hl\<lparr>hl_certs := AList.update host edge_cert (hl_certs hl)\<rparr> else hl))"

definition load_http_certs :: "string option \<Rightarrow> (string \<Rightarrow> string \<Rightarrow> string option) \<Rightarrow> http_listener \<Rightarrow> http_group \<Rightarrow> string + http_listener" where
  "load_http_certs generated pair hl g =
     (case generated of
        None \<Rightarrow> Inl ''http tls material''
      | Some c \<Rightarrow> load_certs c pair (hg_by_host g) (hl\<lparr>hl_fallback := Some c\<rparr>))"

text \<open>The listener that \<open>startHTTP\<close> makes for one group.\<close>

definition start_listener :: "string option \<Rightarrow> (string \<Rightarrow> string \<Rightarrow> string option) \<Rightarrow> string \<Rightarrow> http_group \<Rightarrow> string + http_listener" where
  "start_listener generated pair public g =
     (let hl = \<lparr>hl_public = public, hl_tls = hg_tls g, hl_tunnels = hg_by_host g,
                hl_by_name = fold (\<lambda>(_, t). AList.update (t_name t) t) (hg_by_host g) [],
                hl_certs = [], hl_fallback = None, hl_conns = []\<rparr>
      in if hg_tls g \<and> group_needs_terminate g then load_http_certs generated pair hl g else Inr hl)"

definition hl_track :: "pub_conn \<Rightarrow> bool \<Rightarrow> http_listener \<Rightarrow> http_listener" where
  "hl_track c add hl =
     (let rest = filter (\<lambda>d. pc_id d \<noteq> pc_id c) (hl_conns hl) in
      hl\<lparr>hl_conns := (if add then c # rest else rest)\<rparr>)"

definition hl_evict :: "(ip \<Rightarrow> bool) \<Rightarrow> http_listener \<Rightarrow> http_listener" where
  "hl_evict allowed hl =
     hl\<lparr>hl_conns := map (\<lambda>c. if allowed (pc_ip c) then c else c\<lparr>pc_open := False\<rparr>) (hl_conns hl)\<rparr>"

section \<open>Routing\<close>

text \<open>\<open>lookupHTTPTunnel\<close>: the first candidate that some tunnel names, or the catch-all.\<close>

fun lookup_candidates :: "(string \<times> string) list \<Rightarrow> (string \<times> tunnel) list \<Rightarrow> string list \<Rightarrow> tunnel option" where
  "lookup_candidates by_host by_name [] = None"
| "lookup_candidates by_host by_name (c # cs) =
     (if c = [] then lookup_candidates by_host by_name cs
      else case match_host c by_host [] of
        None \<Rightarrow> lookup_candidates by_host by_name cs
      | Some n \<Rightarrow> (case map_of by_name n of Some t \<Rightarrow> Some t | None \<Rightarrow> lookup_candidates by_host by_name cs))"

definition lookup_http_tunnel :: "http_listener \<Rightarrow> string list \<Rightarrow> tunnel option" where
  "lookup_http_tunnel hl hosts =
     (let by_host = map (\<lambda>(h, t). (h, t_name t)) (filter (\<lambda>(h, _). h \<noteq> []) (hl_tunnels hl));
          empty = (case map_of (hl_tunnels hl) [] of Some t \<Rightarrow> t_name t | None \<Rightarrow> []) in
      case lookup_candidates by_host (hl_by_name hl) hosts of
        Some t \<Rightarrow> Some t
      | None \<Rightarrow> if empty \<noteq> [] then map_of (hl_by_name hl) empty else None)"

text \<open>\<open>tlsConfig\<close>: the offered protocols and \<open>GetCertificate\<close>.\<close>

definition alpn_offer :: "tunnel \<Rightarrow> string list" where
  "alpn_offer t = (if t_http2 t then [''h2'', ''http/1.1''] else [''http/1.1''])"

definition get_certificate :: "http_listener \<Rightarrow> string \<Rightarrow> string option" where
  "get_certificate hl server_name =
     (case map_of (hl_certs hl) (normalize_host server_name) of
        Some c \<Rightarrow> Some c | None \<Rightarrow> hl_fallback hl)"

section \<open>A connection\<close>

definition status_text :: "nat \<Rightarrow> string" where
  "status_text n =
     (if n = 403 then ''Forbidden'' else if n = 502 then ''Bad Gateway''
      else if n = 503 then ''Service Unavailable'' else [])"

definition write_http_status :: "nat \<Rightarrow> string \<Rightarrow> string" where
  "write_http_status status body0 =
     (let body = (if body0 \<noteq> [] \<and> last body0 \<noteq> CHR 0x0A then body0 @ [CHR 0x0A] else body0) in
      ''HTTP/1.1 '' @ nat_string status @ '' '' @ status_text status @ crlf @
      ''Content-Type: text/plain; charset=utf-8'' @ crlf @ ''Connection: close'' @ crlf @
      ''Content-Length: '' @ nat_string (length body) @ crlf @ crlf @ body)"

datatype http_outcome =
    HForbidden | HReset | HPeekFailed | HNoTunnel | HTlsFailed
  | HSplice tunnel string string bool bool
  | HServe1 "string option"

text \<open>The plain part of \<open>handleHTTPConn\<close>, after the TLS handshake if there was one: \<open>sni\<close> is the
  name so far, \<open>tls_name\<close> the server name of the TLS state.\<close>

definition route_plain ::
  "(bytes \<Rightarrow> (string \<times> string) list option) \<Rightarrow> io_error \<Rightarrow> http_listener \<Rightarrow> string \<Rightarrow> string option \<Rightarrow> bytes list \<Rightarrow> http_outcome" where
  "route_plain dec err hl sni tls_name pieces =
     (case fst (PeekHTTP dec err pieces) of
        Inl e \<Rightarrow> HPeekFailed
      | Inr head \<Rightarrow>
          if hd_http2 head then
            (case lookup_http_tunnel hl [hd_host head, sni] of
               None \<Rightarrow> HNoTunnel | Some t \<Rightarrow> HSplice t sni (hd_path head) True False)
          else HServe1 tls_name)"

definition route_conn ::
  "(bytes \<Rightarrow> (string \<times> string) list option) \<Rightarrow> io_error \<Rightarrow> http_listener \<Rightarrow> (tunnel \<Rightarrow> (string \<times> string \<times> bytes list) option)
   \<Rightarrow> conn \<Rightarrow> bytes list \<Rightarrow> http_outcome" where
  "route_conn dec err hl tls c pieces =
     (if \<not> hl_tls hl then route_plain dec err hl [] None pieces
      else case PeekClientHello c of
        (Inl e, _) \<Rightarrow> HPeekFailed
      | (Inr sni, _) \<Rightarrow>
          (case lookup_http_tunnel hl [sni] of
             None \<Rightarrow> HNoTunnel
           | Some t \<Rightarrow>
               if t_passthrough t then HSplice t sni [] False True
               else (case tls t of
                   None \<Rightarrow> HTlsFailed
                 | Some (name, alpn, inner) \<Rightarrow>
                     let sni' = (if name \<noteq> [] then name else sni) in
                     if alpn = ''h2'' then
                       (case lookup_http_tunnel hl [sni'] of
                          None \<Rightarrow> HNoTunnel | Some t' \<Rightarrow> HSplice t' sni' [] True False)
                     else route_plain dec err hl sni' (Some name) inner)))"

definition handle_http_conn ::
  "(bytes \<Rightarrow> (string \<times> string) list option) \<Rightarrow> io_error \<Rightarrow> fs_op option \<Rightarrow> int \<Rightarrow> ip \<Rightarrow> http_listener
   \<Rightarrow> (tunnel \<Rightarrow> (string \<times> string \<times> bytes list) option) \<Rightarrow> conn \<Rightarrow> bytes list \<Rightarrow> server \<Rightarrow> http_outcome \<times> server" where
  "handle_http_conn dec err flt now i hl tls c pieces s =
     (case public_allowed flt i now s of
        (False, s1) \<Rightarrow> (if \<not> hl_tls hl then HForbidden else HReset, s1)
      | (True, s1) \<Rightarrow> (route_conn dec err hl tls c pieces, s1))"

text \<open>\<open>spliceHTTP\<close> up to the relay: the bytes Edge answers itself, or the relay.\<close>

datatype splice_outcome = SpliceRefused string | SpliceRelaying

definition splice_http :: "bool \<Rightarrow> bool \<Rightarrow> bool \<Rightarrow> server \<Rightarrow> splice_outcome \<times> server" where
  "splice_http http2 passthrough opened s =
     (let refuse = (\<lambda>st msg. SpliceRefused (if \<not> passthrough \<and> \<not> http2 then write_http_status st msg else [])) in
      if sem_cap s \<le> sem_used s then (refuse 503 ''too many sessions'', s)
      else let s1 = s\<lparr>sem_used := sem_used s + 1\<rparr> in
        (case get_session s1 of
           None \<Rightarrow> (refuse 502 ''no agent'', s1\<lparr>sem_used := sem_used s1 - 1\<rparr>)
         | Some _ \<Rightarrow>
             if \<not> opened then (refuse 502 ''bad gateway'', s1\<lparr>sem_used := sem_used s1 - 1\<rparr>)
             else (SpliceRelaying, s1\<lparr>reg := add_sessions 1 (reg s1)\<rparr>)))"

definition end_splice :: "server \<Rightarrow> server" where
  "end_splice s = s\<lparr>reg := add_sessions (-1) (reg s), sem_used := sem_used s - 1\<rparr>"

section \<open>An HTTP/1 request\<close>

record http_req =
  rq_host :: string
  rq_path :: string
  rq_remote :: string
  rq_scheme :: string
  rq_url_host :: string
  rq_headers :: "(string \<times> string) list"

datatype http1_outcome = H1Health | H1Error nat string | H1Proxy tunnel http_req open_meta

definition header_get :: "string \<Rightarrow> http_req \<Rightarrow> string" where
  "header_get k r = (case map_of (rq_headers r) k of Some v \<Rightarrow> v | None \<Rightarrow> [])"

definition header_set :: "string \<Rightarrow> string \<Rightarrow> http_req \<Rightarrow> http_req" where
  "header_set k v r = r\<lparr>rq_headers := AList.update k v (rq_headers r)\<rparr>"

text \<open>The director of the reverse proxy; \<open>host0\<close> is the host of the original request.\<close>

definition director :: "tunnel \<Rightarrow> bool \<Rightarrow> string \<Rightarrow> http_req \<Rightarrow> http_req" where
  "director t tls host0 r0 =
     (let r1 = r0\<lparr>rq_scheme := ''http'', rq_url_host := t_local t\<rparr>;
          r2 = (if rq_host r1 = [] then r1\<lparr>rq_host := t_local t\<rparr> else r1);
          r3 = (if header_get ''X-Forwarded-Proto'' r2 = []
                then header_set ''X-Forwarded-Proto'' (if tls then ''https'' else ''http'') r2 else r2)
      in if header_get ''X-Forwarded-Host'' r3 = [] \<and> host0 \<noteq> [] then header_set ''X-Forwarded-Host'' host0 r3 else r3)"

definition http1_handler :: "config \<Rightarrow> http_listener \<Rightarrow> string option \<Rightarrow> http_req \<Rightarrow> server \<Rightarrow> http1_outcome \<times> server" where
  "http1_handler cfg hl tls_name r s =
     (let health = health_path_or_default cfg in
      if health \<noteq> [] \<and> rq_path r = health then (H1Health, s)
      else let found = (case lookup_http_tunnel hl [rq_host r] of
                          Some t \<Rightarrow> Some t
                        | None \<Rightarrow> (case tls_name of None \<Rightarrow> None | Some n \<Rightarrow> lookup_http_tunnel hl [n])) in
        (case found of
           None \<Rightarrow> (H1Error 502 ''no tunnel for host'', s)
         | Some t \<Rightarrow>
             if sem_cap s \<le> sem_used s then (H1Error 503 ''too many sessions'', s)
             else let s1 = s\<lparr>sem_used := sem_used s + 1\<rparr> in
               (case get_session s1 of
                  None \<Rightarrow> (H1Error 502 ''no agent'', s1\<lparr>sem_used := sem_used s1 - 1\<rparr>)
                | Some _ \<Rightarrow>
                    (H1Proxy t (director t (tls_name \<noteq> None) (rq_host r) r)
                       \<lparr>om_name = t_name t, om_local = t_local t, om_client_addr = rq_remote r, om_proto = ProtoHTTP\<rparr>,
                     s1\<lparr>reg := add_sessions 1 (reg s1)\<rparr>))))"

section \<open>The groups\<close>

text \<open>The tunnel that owns a host on a public address: the last one in the configuration.\<close>

definition route_of :: "tunnel list \<Rightarrow> string \<Rightarrow> string \<Rightarrow> tunnel option" where
  "route_of ts p key = find (\<lambda>t. t_public t = p \<and> normalize_host (t_host t) = key) (rev ts)"

lemma route_of_snoc:
  "route_of (ts @ [t]) p key = (if t_public t = p \<and> normalize_host (t_host t) = key then Some t else route_of ts p key)"
  by (simp add: route_of_def)

lemma route_of_Some: "route_of ts p key = Some t \<Longrightarrow> t \<in> set ts \<and> t_public t = p \<and> normalize_host (t_host t) = key"
  by (auto simp: route_of_def find_Some_iff) (metis nth_mem rev_nth set_rev length_rev)

lemma group_add_map:
  "map_of (group_add t out) p =
     (if p \<noteq> t_public t then map_of out p
      else let g = (case map_of out p of Some g \<Rightarrow> g | None \<Rightarrow> \<lparr>hg_tls = t_tls t, hg_by_host = [], hg_names = []\<rparr>) in
        Some (g\<lparr>hg_by_host := AList.update (normalize_host (t_host t)) t (hg_by_host g), hg_names := List.insert (t_name t) (hg_names g)\<rparr>))"
  by (auto simp: group_add_def Let_def)

lemma groups_spec:
  "(map_of (group_http_tunnels ts) p = None \<longleftrightarrow> (\<forall>t \<in> set ts. t_public t \<noteq> p)) \<and>
   (\<forall>g. map_of (group_http_tunnels ts) p = Some g \<longrightarrow>
      distinct (map fst (hg_by_host g)) \<and> map_of (hg_by_host g) = route_of ts p)"
proof (induction ts rule: rev_induct)
  case Nil
  then show ?case by (simp add: group_http_tunnels_def)
next
  case (snoc t ts)
  have s: "group_http_tunnels (ts @ [t]) = group_add t (group_http_tunnels ts)" by (simp add: group_http_tunnels_def)
  show ?case
  proof (cases "t_public t = p")
    case False
    then have "route_of (ts @ [t]) p = route_of ts p" by (simp add: route_of_snoc fun_eq_iff)
    then show ?thesis using False snoc by (auto simp: s group_add_map)
  next
    case True
    have none: "route_of ts p = (\<lambda>k. None)" if "\<forall>t \<in> set ts. t_public t \<noteq> p"
      using that route_of_Some [of ts p] by (metis not_Some_eq)
    have "route_of (ts @ [t]) p = (route_of ts p)(normalize_host (t_host t) \<mapsto> t)"
      using True by (simp add: route_of_snoc fun_eq_iff)
    then show ?thesis
      using True snoc none
      by (cases "map_of (group_http_tunnels ts) p") (auto simp: s group_add_map Let_def fun_eq_iff)
  qed
qed

lemma load_certs_keeps:
  "load_certs c pair m hl = Inr hl' \<Longrightarrow> hl_tunnels hl' = hl_tunnels hl \<and> hl_by_name hl' = hl_by_name hl \<and> hl_tls hl' = hl_tls hl"
proof (induction c pair m hl rule: load_certs.induct)
  case (2 c pair host t rest hl)
  show ?case
  proof (cases "t_passthrough t")
    case True
    then show ?thesis using 2 by simp
  next
    case p: False
    show ?thesis
    proof (cases "t_cert t \<noteq> [] \<and> t_key t \<noteq> []")
      case True
      then show ?thesis using 2(2,4) p by (cases "pair (t_cert t) (t_key t)") (auto split: if_splits)
    next
      case False
      then show ?thesis using 2(3) [OF p False] 2(4) p by (auto split: if_splits)
    qed
  qed
qed simp

lemma start_listener_keeps:
  assumes "start_listener gen pair p g = Inr hl"
  shows "hl_tunnels hl = hg_by_host g" "hl_by_name hl = fold (\<lambda>(_, t). AList.update (t_name t) t) (hg_by_host g) []"
    "hl_tls hl = hg_tls g"
  using assms
  by (auto simp: start_listener_def load_http_certs_def Let_def split: if_splits option.splits dest!: load_certs_keeps)

lemma by_name_spec:
  assumes "distinct (map (t_name \<circ> snd) m)" "(h, t) \<in> set m"
  shows "map_of (fold (\<lambda>(_, t). AList.update (t_name t) t) m acc) (t_name t) = Some t"
  using assms
proof (induction m arbitrary: acc)
  case (Cons x m)
  have later: "map_of (fold (\<lambda>(_, t). AList.update (t_name t) t) m a) n = map_of a n"
    if "n \<notin> set (map (t_name \<circ> snd) m)" for a n
    using that by (induction m arbitrary: a) auto
  show ?case
  proof (cases "x = (h, t)")
    case True
    then show ?thesis using Cons.prems later [of "t_name t"] by simp
  next
    case False
    then show ?thesis using Cons by (cases x) auto
  qed
qed simp

text \<open>What a list of candidate hosts means on a public address.\<close>

fun spec_route :: "tunnel list \<Rightarrow> string \<Rightarrow> string list \<Rightarrow> tunnel option" where
  "spec_route ts p [] = route_of ts p []"
| "spec_route ts p (h # hs) =
     (if normalize_host h \<noteq> [] \<and> route_of ts p (normalize_host h) \<noteq> None
      then route_of ts p (normalize_host h) else spec_route ts p hs)"

lemma normalize_Nil [simp]: "normalize_host [] = []"
  by (simp add: normalize_host_def)

lemma map_of_named: "map_of (map (\<lambda>(h, t). (h, t_name t)) m) k = map_option t_name (map_of m k)"
  by (induction m) auto

lemma lookup_spec:
  assumes n: "\<And>k t. route_of ts p k = Some t \<Longrightarrow> map_of by_name (t_name t) = Some t \<and> t_name t \<noteq> []"
    and b: "\<And>k. k \<noteq> [] \<Longrightarrow> map_of by_host k = map_option t_name (route_of ts p k)"
    and e: "dflt = (case route_of ts p [] of Some t \<Rightarrow> t_name t | None \<Rightarrow> [])"
  shows "(case lookup_candidates by_host by_name hs of Some t \<Rightarrow> Some t
          | None \<Rightarrow> if dflt \<noteq> [] then map_of by_name dflt else None) = spec_route ts p hs"
proof (induction hs)
  case Nil
  then show ?case using n e by (cases "route_of ts p []") auto
next
  case (Cons h hs)
  show ?case
  proof (cases "normalize_host h = []")
    case True
    then show ?thesis using Cons by (auto simp: match_host_def Let_def)
  next
    case False
    then have "h \<noteq> []" by auto
    then show ?thesis
      using False Cons b [OF False] n by (cases "route_of ts p (normalize_host h)") (auto simp: match_host_def Let_def)
  qed
qed

lemma lookup_is_spec:
  assumes d: "distinct (map t_name ts)" "[] \<notin> t_name ` set ts"
    and g: "map_of (group_http_tunnels ts) p = Some g" and l: "start_listener gen pair p g = Inr hl"
  shows "lookup_http_tunnel hl hosts = spec_route ts p hosts"
proof -
  have m: "distinct (map fst (hg_by_host g))" "map_of (hg_by_host g) = route_of ts p" using groups_spec [of ts p] g by auto
  note k = start_listener_keeps [OF l]
  have inj: "inj_on t_name (set ts)" using d(1) by (simp add: distinct_map)
  have mem: "route_of ts p h = Some t" if "(h, t) \<in> set (hg_by_host g)" for h t
    using that map_of_mem [OF m(1)] m(2) by metis
  have "distinct (map (t_name \<circ> snd) (hg_by_host g))"
  proof -
    have "inj_on (t_name \<circ> snd) (set (hg_by_host g))"
    proof (rule inj_onI, clarify)
      fix h t h' t'
      assume a: "(h, t) \<in> set (hg_by_host g)" "(h', t') \<in> set (hg_by_host g)" "(t_name \<circ> snd) (h, t) = (t_name \<circ> snd) (h', t')"
      have "t = t'" using mem [OF a(1)] mem [OF a(2)] route_of_Some a(3) inj by (metis comp_apply inj_onD snd_conv)
      moreover have "h = h'" using mem [OF a(1)] mem [OF a(2)] route_of_Some \<open>t = t'\<close> by metis
      ultimately show "h = h' \<and> t = t'" by simp
    qed
    moreover have "distinct (hg_by_host g)" using m(1) by (simp add: distinct_map)
    ultimately show ?thesis by (simp add: distinct_map)
  qed
  then have names: "map_of (hl_by_name hl) (t_name t) = Some t \<and> t_name t \<noteq> []" if "route_of ts p h = Some t" for h t
  proof -
    have "(h, t) \<in> set (hg_by_host g)" using that m(2) by (metis map_of_SomeD)
    moreover have "t_name t \<noteq> []" using route_of_Some [OF that] d(2) by (metis image_eqI)
    ultimately show ?thesis
      using by_name_spec [of "hg_by_host g" h t "[]"] k(2) \<open>distinct (map (t_name \<circ> snd) (hg_by_host g))\<close> by simp
  qed
  have hosts: "map_of (map (\<lambda>(h, t). (h, t_name t)) (filter (\<lambda>(h, _). h \<noteq> []) (hl_tunnels hl))) h = map_option t_name (route_of ts p h)"
    if "h \<noteq> []" for h
  proof -
    have "map_of (filter (\<lambda>(h, _). h \<noteq> []) (hl_tunnels hl)) h = map_of (hl_tunnels hl) h"
      using that map_of_filter_keys [of "\<lambda>h. h \<noteq> []" "hl_tunnels hl" h] by simp
    then show ?thesis by (simp add: map_of_named k(1) m(2))
  qed
  show ?thesis
    unfolding lookup_http_tunnel_def Let_def
    by (rule lookup_spec [OF names hosts]) (simp_all add: k(1) m(2))
qed

section \<open>Properties\<close>

text \<open>
C39: requests go to the tunnel that the configuration names. For tunnels with distinct, non-empty names, the lookup on a public address tries the candidate hosts in order, compares them without case, port and brackets, and returns the tunnel of that address that is configured for the first host that has one, else the tunnel of that address without a host, else none. No tunnel of another address is ever returned.
\<close>

theorem http_routing_exact:
  assumes "distinct (map t_name ts)" "[] \<notin> t_name ` set ts"
    and "map_of (group_http_tunnels ts) p = Some g" and "start_listener gen pair p g = Inr hl"
  shows "lookup_http_tunnel hl hosts = spec_route ts p hosts \<and>
     (\<forall>t. lookup_http_tunnel hl hosts = Some t \<longrightarrow> t \<in> set ts \<and> t_public t = p)"
proof -
  have "spec_route ts p hosts = Some t \<Longrightarrow> t \<in> set ts \<and> t_public t = p" for t
    by (induction hosts) (auto split: if_splits dest: route_of_Some)
  then show ?thesis using lookup_is_spec [OF assms] by simp
qed

definition example_tunnel :: "string \<Rightarrow> string \<Rightarrow> bool \<Rightarrow> tunnel" where
  "example_tunnel name host pass =
     \<lparr>t_name = name, t_type = TypeHTTP, t_public = '':443'', t_tls = True, t_passthrough = pass, t_http2 = False,
      t_local = ''127.0.0.1:80'', t_host = host, t_cert = [], t_key = []\<rparr>"

definition example_tunnels :: "tunnel list" where
  "example_tunnels = [example_tunnel ''web'' ''web.example'' False, example_tunnel ''e2e'' ''e2e.example'' True]"

definition example_listener :: http_listener where
  "example_listener =
     (case map_of (group_http_tunnels example_tunnels) '':443'' of
        Some g \<Rightarrow> (case start_listener (Some ''edge'') (\<lambda>_ _. None) '':443'' g of Inr hl \<Rightarrow> hl | Inl _ \<Rightarrow> undefined) | None \<Rightarrow> undefined)"

lemma norm_examples:
  "normalize_host ''web.example'' = ''web.example''" "normalize_host ''e2e.example'' = ''e2e.example''"
  "normalize_host ''E2E.example:443'' = ''e2e.example''"
  by code_simp+

lemma example_start:
  "\<exists>g. map_of (group_http_tunnels example_tunnels) '':443'' = Some g \<and>
     start_listener (Some ''edge'') (\<lambda>_ _. None) '':443'' g = Inr example_listener"
  by (simp add: example_listener_def example_tunnels_def example_tunnel_def group_http_tunnels_def group_add_def Let_def
      start_listener_def load_http_certs_def group_needs_terminate_def norm_examples)

theorem http_routing_exact_witness:
  "lookup_http_tunnel example_listener [''E2E.example:443''] = Some (example_tunnel ''e2e'' ''e2e.example'' True)"
proof -
  obtain g where g: "map_of (group_http_tunnels example_tunnels) '':443'' = Some g"
    "start_listener (Some ''edge'') (\<lambda>_ _. None) '':443'' g = Inr example_listener"
    using example_start by blast
  have "lookup_http_tunnel example_listener [''E2E.example:443''] = spec_route example_tunnels '':443'' [''E2E.example:443'']"
    using http_routing_exact [OF _ _ g] by (simp add: example_tunnels_def example_tunnel_def)
  then show ?thesis
    by (simp add: norm_examples route_of_def example_tunnels_def example_tunnel_def)
qed

lemma lookup_member: "lookup_http_tunnel hl hosts = Some t \<Longrightarrow> t \<in> snd ` set (hl_by_name hl)"
proof -
  have "lookup_candidates b m hs = Some t \<Longrightarrow> t \<in> snd ` set m" for b m hs
    by (induction b m hs rule: lookup_candidates.induct) (auto split: if_splits option.splits dest: map_of_SomeD intro: rev_image_eqI)
  then show "lookup_http_tunnel hl hosts = Some t \<Longrightarrow> t \<in> snd ` set (hl_by_name hl)"
    unfolding lookup_http_tunnel_def Let_def
    by (auto split: option.splits if_splits dest: map_of_SomeD intro: rev_image_eqI)
qed

fun routed_ok :: "http_listener \<Rightarrow> conn \<Rightarrow> http_outcome \<Rightarrow> bool" where
  "routed_ok hl c HForbidden = False"
| "routed_ok hl c HReset = False"
| "routed_ok hl c (HSplice t sni path h2 pass) \<longleftrightarrow> t \<in> snd ` set (hl_by_name hl) \<and> h2 = (\<not> pass) \<and>
     (pass \<longrightarrow> hl_tls hl \<and> t_passthrough t \<and> fst (PeekClientHello c) = Inr sni \<and> lookup_http_tunnel hl [sni] = Some t)"
| "routed_ok hl c (HServe1 m) \<longleftrightarrow> hl_tls hl \<or> m = None"
| "routed_ok hl c _ = True"

lemma route_plain_ok: "hl_tls hl \<or> n = None \<Longrightarrow> routed_ok hl c (route_plain dec err hl sni n ps)"
  by (cases "fst (PeekHTTP dec err ps)")
     (auto simp: route_plain_def split: option.split dest: lookup_member)

lemma route_conn_ok: "routed_ok hl c (route_conn dec err hl tls c pieces)"
proof (cases "hl_tls hl")
  case False
  then show ?thesis by (simp add: route_conn_def route_plain_ok)
next
  case tls: True
  obtain q raw c' where q: "PeekClientHello c = (q, raw, c')" by (metis prod_cases3)
  show ?thesis
  proof (cases q)
    case (Inl e)
    then show ?thesis using tls q by (simp add: route_conn_def)
  next
    case (Inr sni)
    note d = route_conn_def [of dec err hl tls c pieces, unfolded q Inr prod.case sum.case]
    show ?thesis
    proof (cases "lookup_http_tunnel hl [sni]")
      case None
      then show ?thesis using tls d by simp
    next
      case (Some t)
      show ?thesis
      proof (cases "t_passthrough t")
        case True
        then show ?thesis using tls d q Inr Some lookup_member [OF Some] by simp
      next
        case pt: False
        show ?thesis
        proof (cases "tls t")
          case (Some x)
          obtain name alpn inner where x: "x = (name, alpn, inner)" by (cases x) auto
          let ?sni = "if name \<noteq> [] then name else sni"
          have "route_conn dec err hl tls c pieces =
              (if alpn = ''h2'' then (case lookup_http_tunnel hl [?sni] of None \<Rightarrow> HNoTunnel | Some t' \<Rightarrow> HSplice t' ?sni [] True False)
               else route_plain dec err hl ?sni (Some name) inner)"
            using \<open>hl_tls hl\<close> d \<open>lookup_http_tunnel hl [sni] = Some t\<close> pt Some x by (simp add: Let_def)
          moreover have "routed_ok hl c (case lookup_http_tunnel hl [?sni] of None \<Rightarrow> HNoTunnel | Some t' \<Rightarrow> HSplice t' ?sni [] True False)"
            using lookup_member [of hl "[?sni]"] by (cases "lookup_http_tunnel hl [?sni]") simp_all
          ultimately show ?thesis using route_plain_ok [of hl "Some name" c dec err ?sni inner] \<open>hl_tls hl\<close> by simp
        qed (use tls d Some pt in simp)
      qed
    qed
  qed
qed

text \<open>
C40: a public HTTP connection. It gets past the gate exactly if its address is not banned and allowlisted; otherwise a plain listener answers 403 and a TLS listener resets, and nothing else happens to the input. What is spliced goes to a tunnel of this listener; undecrypted bytes go only to a passthrough tunnel of a TLS listener that the ClientHello named, and a listener without TLS neither passes TLS through nor claims a TLS name for a request.
\<close>

theorem http_connection_admission:
  assumes "handle_http_conn dec err flt now i hl tls c pieces s = (r, s')"
  shows "(is_allowed i now s \<longleftrightarrow> r \<noteq> HForbidden \<and> r \<noteq> HReset) \<and>
     (r = HForbidden \<longrightarrow> \<not> hl_tls hl) \<and> (r = HReset \<longrightarrow> hl_tls hl) \<and>
     (\<forall>t sni path h2 pass. r = HSplice t sni path h2 pass \<longrightarrow> t \<in> snd ` set (hl_by_name hl) \<and>
        (pass \<longrightarrow> hl_tls hl \<and> t_passthrough t \<and> \<not> h2 \<and>
           fst (PeekClientHello c) = Inr sni \<and> lookup_http_tunnel hl [sni] = Some t) \<and>
        (\<not> pass \<longrightarrow> h2)) \<and>
     (\<not> hl_tls hl \<longrightarrow> (\<forall>n. r \<noteq> HServe1 (Some n))) \<and>
     snd (public_allowed flt i now s) = s'"
proof -
  obtain ok s1 where p: "public_allowed flt i now s = (ok, s1)" by fastforce
  have ok: "ok = is_allowed i now s" using public_allowed_parts(1) [of flt i now s] p by simp
  show ?thesis
  proof (cases ok)
    case True
    then have r: "r = route_conn dec err hl tls c pieces" "s' = s1" using assms p by (auto simp: handle_http_conn_def)
    have "routed_ok hl c r" unfolding r(1) by (rule route_conn_ok)
    then show ?thesis using True ok p r(2) by (cases r) auto
  next
    case False
    then show ?thesis using assms p ok by (auto simp: handle_http_conn_def split: if_splits)
  qed
qed

theorem http_connection_admission_witness:
  "let r = fst (handle_http_conn (\<lambda>_. None) EOF None 5 [10, 0, 0, 9] example_listener (\<lambda>_. None) (mk_conn []) [] example_server) in
   is_allowed [10, 0, 0, 9] 5 example_server = (r \<noteq> HForbidden \<and> r \<noteq> HReset)"
  using http_connection_admission [of "\<lambda>_. None" EOF None 5 "[10, 0, 0, 9]" example_listener "\<lambda>_. None" "mk_conn []" "[]" example_server, OF prod.collapse [symmetric]]
  unfolding Let_def by blast

text \<open>
HTTP sessions hold a slot and are answered on every path. An HTTP/1 request for the health path is answered at once and touches nothing. Otherwise it goes to the tunnel that the Host header names, also when the TLS server name belongs to another tunnel, be it a passthrough one, and only without such a tunnel to that of the server name; it is proxied only with a free slot and a live agent session, and then takes exactly one slot within the limit and counts one session. Without a tunnel or an agent it is answered with 502, without a slot with 503, and slots and gauge are as before; the same holds for a spliced connection, whose slot and count are given back at the end.
\<close>

theorem http_slots:
  assumes "http1_handler cfg hl tls_name r s = (out, s')" and "splice_http h2 pass opened s = (sp, s2)"
    and g: "0 \<le> active_sessions (reg s)"
  shows "(case out of
       H1Health \<Rightarrow> health_path_or_default cfg = rq_path r \<and> s' = s
     | H1Error code msg \<Rightarrow> sem_used s' = sem_used s \<and> reg s' = reg s \<and>
         code = (if lookup_http_tunnel hl [rq_host r] \<noteq> None \<or> (\<exists>n. tls_name = Some n \<and> lookup_http_tunnel hl [n] \<noteq> None)
                 then (if sem_cap s \<le> sem_used s then 503 else 502) else 502)
     | H1Proxy t req m \<Rightarrow>
         (lookup_http_tunnel hl [rq_host r] = Some t \<or>
            lookup_http_tunnel hl [rq_host r] = None \<and> (\<exists>n. tls_name = Some n \<and> lookup_http_tunnel hl [n] = Some t)) \<and>
         om_name m = t_name t \<and> om_local m = t_local t \<and> rq_url_host req = t_local t \<and>
         get_session s \<noteq> None \<and> sem_used s' = sem_used s + 1 \<and> sem_used s' \<le> sem_cap s' \<and>
         active_sessions (reg s') = active_sessions (reg s) + 1) \<and>
     (case sp of
       SpliceRefused reply \<Rightarrow> sem_used s2 = sem_used s \<and> reg s2 = reg s \<and> (reply = [] \<longleftrightarrow> pass \<or> h2)
     | SpliceRelaying \<Rightarrow> opened \<and> get_session s \<noteq> None \<and> sem_used s2 = sem_used s + 1 \<and> sem_used s2 \<le> sem_cap s2 \<and>
         active_sessions (reg s2) = active_sessions (reg s) + 1 \<and>
         sem_used (end_splice s2) = sem_used s \<and> active_sessions (reg (end_splice s2)) = active_sessions (reg s))"
proof
  have gs: "get_session (s\<lparr>sem_used := k\<rparr>) = get_session s" for k by (simp add: get_session_def split: option.split)
  have d: "rq_url_host (director t b h q) = t_local t" for t b h q
    by (simp add: director_def header_set_def Let_def)
  have nat1: "sem_used s + 1 - 1 = sem_used s" by simp
  define found where "found = (case lookup_http_tunnel hl [rq_host r] of Some t \<Rightarrow> Some t
      | None \<Rightarrow> (case tls_name of None \<Rightarrow> None | Some n \<Rightarrow> lookup_http_tunnel hl [n]))"
  have f: "found = Some t \<longleftrightarrow> lookup_http_tunnel hl [rq_host r] = Some t \<or>
      lookup_http_tunnel hl [rq_host r] = None \<and> (\<exists>n. tls_name = Some n \<and> lookup_http_tunnel hl [n] = Some t)" for t
    by (auto simp: found_def split: option.split)
  have fn: "found \<noteq> None \<longleftrightarrow> lookup_http_tunnel hl [rq_host r] \<noteq> None \<or> (\<exists>n. tls_name = Some n \<and> lookup_http_tunnel hl [n] \<noteq> None)"
    by (auto simp: found_def split: option.split)
  have h: "http1_handler cfg hl tls_name r s =
     (if health_path_or_default cfg \<noteq> [] \<and> rq_path r = health_path_or_default cfg then (H1Health, s)
      else (case found of None \<Rightarrow> (H1Error 502 ''no tunnel for host'', s)
        | Some t \<Rightarrow>
            if sem_cap s \<le> sem_used s then (H1Error 503 ''too many sessions'', s)
            else (case get_session s of
                None \<Rightarrow> (H1Error 502 ''no agent'', s\<lparr>sem_used := sem_used s\<rparr>)
              | Some _ \<Rightarrow> (H1Proxy t (director t (tls_name \<noteq> None) (rq_host r) r)
                   \<lparr>om_name = t_name t, om_local = t_local t, om_client_addr = rq_remote r, om_proto = ProtoHTTP\<rparr>,
                  s\<lparr>sem_used := sem_used s + 1, reg := add_sessions 1 (reg s)\<rparr>))))"
    unfolding http1_handler_def Let_def found_def [symmetric] by (cases found; cases "get_session s") (simp_all add: gs)
  show "case out of
       H1Health \<Rightarrow> health_path_or_default cfg = rq_path r \<and> s' = s
     | H1Error code msg \<Rightarrow> sem_used s' = sem_used s \<and> reg s' = reg s \<and>
         code = (if lookup_http_tunnel hl [rq_host r] \<noteq> None \<or> (\<exists>n. tls_name = Some n \<and> lookup_http_tunnel hl [n] \<noteq> None)
                 then (if sem_cap s \<le> sem_used s then 503 else 502) else 502)
     | H1Proxy t req m \<Rightarrow>
         (lookup_http_tunnel hl [rq_host r] = Some t \<or>
            lookup_http_tunnel hl [rq_host r] = None \<and> (\<exists>n. tls_name = Some n \<and> lookup_http_tunnel hl [n] = Some t)) \<and>
         om_name m = t_name t \<and> om_local m = t_local t \<and> rq_url_host req = t_local t \<and>
         get_session s \<noteq> None \<and> sem_used s' = sem_used s + 1 \<and> sem_used s' \<le> sem_cap s' \<and>
         active_sessions (reg s') = active_sessions (reg s) + 1"
    unfolding fn [symmetric] f [symmetric]
    using assms(1) g unfolding h
    by (cases found; cases "get_session s") (auto simp: d add_sessions_def split: if_splits)
  show "case sp of
       SpliceRefused reply \<Rightarrow> sem_used s2 = sem_used s \<and> reg s2 = reg s \<and> (reply = [] \<longleftrightarrow> pass \<or> h2)
     | SpliceRelaying \<Rightarrow> opened \<and> get_session s \<noteq> None \<and> sem_used s2 = sem_used s + 1 \<and> sem_used s2 \<le> sem_cap s2 \<and>
         active_sessions (reg s2) = active_sessions (reg s) + 1 \<and>
         sem_used (end_splice s2) = sem_used s \<and> active_sessions (reg (end_splice s2)) = active_sessions (reg s)"
  proof -
    have w: "write_http_status st m \<noteq> []" for st m by (simp add: write_http_status_def Let_def)
    show ?thesis
      using assms(2) g w
      by (cases "get_session s") (auto simp: splice_http_def Let_def gs add_sessions_def end_splice_def split: if_splits)
  qed
qed

theorem http_slots_witness:
  "let r = \<lparr>rq_host = ''web.example'', rq_path = ''/healthz'', rq_remote = [], rq_scheme = [], rq_url_host = [], rq_headers = []\<rparr> in
   \<exists>s'. http1_handler (example_config\<lparr>health_path := ''/healthz''\<rparr>) example_listener None r example_server = (H1Health, s') \<and> s' = example_server"
proof -
  let ?r = "\<lparr>rq_host = ''web.example'', rq_path = ''/healthz'', rq_remote = [], rq_scheme = [], rq_url_host = [], rq_headers = []\<rparr>"
  let ?c = "example_config\<lparr>health_path := ''/healthz''\<rparr>"
  obtain s' where h: "http1_handler ?c example_listener None ?r example_server = (H1Health, s')"
    by (simp add: http1_handler_def health_path_or_default_def trim_space_solid solid_def ascii_space_def)
  have "0 \<le> active_sessions (reg example_server)" by (simp add: example_server_def new_registry_def)
  from http_slots [OF h prod.collapse [symmetric] this, of False False True] show ?thesis using h by (auto simp: Let_def)
qed

end
