(* ===== verification/ConfigRoute.thy ===== *)
theory ConfigRoute
  imports ConfigCheck HttpRoute
begin

text \<open>
  What the validation of a configuration promises to the HTTP front: every HTTP tunnel that Edge
  accepts is reachable by its own host. The two sides normalise hosts by different functions,
  \<open>normalizeConfigHost\<close> of \<open>internal/config/config.go\<close> and \<open>NormalizeHost\<close> of
  \<open>internal/proxy/host.go\<close>, which agree except on hosts in brackets.
\<close>

definition bracketed :: "tunnel \<Rightarrow> bool" where
  "bracketed t \<longleftrightarrow> has_prefix (trim_space (t_host t)) ''[''"

lemma split_needs_colon: "CHR '':'' \<notin> set h \<Longrightarrow> split_host_port h = None"
  using last_index_byte_None [of h "CHR '':''"] by (simp add: split_host_port_def)

lemma hosts_agree: "\<not> bracketed t \<Longrightarrow> normalize_config_host (t_host t) = normalize_host (t_host t)"
  by (auto simp: bracketed_def normalize_config_host_def normalize_host_def lower_host_def contains_byte_def split_needs_colon Let_def
      split: option.splits)

lemma group_tls:
  "map_of (group_http_tunnels ts) p = Some g \<Longrightarrow> \<exists>u \<in> set ts. t_public u = p \<and> hg_tls g = t_tls u"
proof (induction ts arbitrary: g rule: rev_induct)
  case (snoc t ts)
  have s: "group_http_tunnels (ts @ [t]) = group_add t (group_http_tunnels ts)" by (simp add: group_http_tunnels_def)
  show ?case
    using snoc by (cases "map_of (group_http_tunnels ts) p") (auto simp: s group_add_map Let_def split: if_splits)
qed (simp add: group_http_tunnels_def)

lemma route_of_unique:
  assumes "distinct (map (\<lambda>t. (t_public t, normalize_host (t_host t))) ts)" "t \<in> set ts"
  shows "route_of ts (t_public t) (normalize_host (t_host t)) = Some t"
  using assms
proof (induction ts rule: rev_induct)
  case (snoc u ts)
  then show ?case by (auto simp: route_of_snoc image_iff)
qed simp

lemma accepted_tunnel_route:
  assumes "validate_edge c0 = Inr c" and t: "t \<in> set (http_tunnels c)" and nb: "list_all (\<lambda>u. \<not> bracketed u) (http_tunnels c)"
  shows "\<exists>g. map_of (group_http_tunnels (http_tunnels c)) (t_public t) = Some g \<and>
     (\<forall>gen pair hl. start_listener gen pair (t_public t) g = Inr hl \<longrightarrow>
        hl_tls hl = t_tls t \<and> (\<forall>h. normalize_host h = normalize_host (t_host t) \<longrightarrow> lookup_http_tunnel hl [h] = Some t))"
proof -
  let ?ts = "http_tunnels c"
  have e: "edge_typed c" using assms(1) validate_edge_Inr by blast
  have names: "distinct (map t_name ?ts)" "[] \<notin> t_name ` set ?ts"
    using e by (auto simp: edge_typed_def http_tunnels_def distinct_map_filter list_all_iff)
  have m: "map http_key ?ts = map (\<lambda>t. (t_public t, normalize_host (t_host t))) ?ts"
    using nb hosts_agree by (auto simp: list_all_iff http_key_def)
  have "distinct (map http_key ?ts)" using e by (simp add: edge_typed_def)
  then have r: "route_of ?ts (t_public t) (normalize_host (t_host t)) = Some t"
    using t unfolding m by (rule route_of_unique)
  obtain g where g: "map_of (group_http_tunnels ?ts) (t_public t) = Some g"
    using groups_spec [of ?ts "t_public t"] t by fastforce
  obtain u where u: "u \<in> set ?ts" "t_public u = t_public t" "hg_tls g = t_tls u" using group_tls [OF g] by blast
  have tls: "hg_tls g = t_tls t" 
  proof -
    have "same_tls ?ts" using e by (simp add: edge_typed_def)
    then show ?thesis using t u unfolding same_tls_def by metis
  qed
  have "lookup_http_tunnel hl [h] = Some t" if "start_listener gen pair (t_public t) g = Inr hl" "normalize_host h = normalize_host (t_host t)"
    for gen pair hl h
    using lookup_is_spec [OF names g that(1), of "[h]"] r that(2) by (cases "normalize_host (t_host t) = []") auto
  moreover have "hl_tls hl = t_tls t" if "start_listener gen pair (t_public t) g = Inr hl" for gen pair hl
    using tls start_listener_keeps(3) [OF that] by simp
  ultimately show ?thesis using g by blast
qed

text \<open>
An accepted tunnel is reachable. In a configuration that Edge accepts, whose HTTP hosts are not written in brackets, every HTTP tunnel has a listener group on its public address; the listener made for the group uses TLS exactly if the tunnel does, and a request for the tunnel's own host is routed to that tunnel.
\<close>

theorem accepted_tunnel_reachable:
  assumes "validate_edge c0 = Inr c" and t: "t \<in> set (http_tunnels c)" and nb: "list_all (\<lambda>u. \<not> bracketed u) (http_tunnels c)"
  shows "\<exists>g. map_of (group_http_tunnels (http_tunnels c)) (t_public t) = Some g \<and>
     (\<forall>gen pair hl. start_listener gen pair (t_public t) g = Inr hl \<longrightarrow>
        hl_tls hl = t_tls t \<and> lookup_http_tunnel hl [t_host t] = Some t)"
  using accepted_tunnel_route [OF assms] by blast

text \<open>An example with two hosts on one address; \<open>clash\<close> writes the second one in brackets.\<close>

definition example_http :: "string \<Rightarrow> string \<Rightarrow> tunnel" where
  "example_http name host =
     \<lparr>t_name = name, t_type = TypeHTTP, t_public = '':81'', t_tls = False, t_passthrough = False, t_http2 = False,
      t_local = ''127.0.0.1:82'', t_host = host, t_cert = [], t_key = []\<rparr>"

definition example_sites :: "string \<Rightarrow> string \<Rightarrow> config" where
  "example_sites a b =
     empty_config\<lparr>listen := '':80'', cfg_token := ''t'', auto_self_signed := True,
       cfg_tunnels := [example_http ''one'' a, example_http ''two'' b]\<rparr>"

theorem accepted_tunnel_reachable_witness:
  "\<exists>g hl. map_of (group_http_tunnels (http_tunnels (example_sites ''a'' ''b''))) '':81'' = Some g \<and>
     start_listener None (\<lambda>_ _. None) '':81'' g = Inr hl \<and> lookup_http_tunnel hl [''a''] = Some (example_http ''one'' ''a'')"
proof -
  let ?c = "example_sites ''a'' ''b''" and ?t = "example_http ''one'' ''a''"
  have v: "validate_edge ?c = Inr ?c" by code_simp
  have t: "?t \<in> set (http_tunnels ?c)" by code_simp
  have b: "list_all (\<lambda>u. \<not> bracketed u) (http_tunnels ?c)" by code_simp
  have p: "t_public ?t = '':81''" "t_host ?t = ''a''" by code_simp+
  obtain g where g: "map_of (group_http_tunnels (http_tunnels ?c)) '':81'' = Some g"
    "\<And>gen pair hl. start_listener gen pair '':81'' g = Inr hl \<Longrightarrow> lookup_http_tunnel hl [''a''] = Some ?t"
    using accepted_tunnel_reachable [OF v t b] p by auto
  obtain u where "u \<in> set (http_tunnels ?c)" "hg_tls g = t_tls u" using group_tls [OF g(1)] by blast
  then have "\<not> hg_tls g" by (auto simp: example_sites_def example_http_def http_tunnels_def)
  then have "\<exists>hl. start_listener None (\<lambda>_ _. None) '':81'' g = Inr hl" by (simp add: start_listener_def Let_def)
  then show ?thesis using g by blast
qed

text \<open>Brackets defeat the check for duplicate hosts: of two tunnels for \<open>[::1]\<close> and \<open>::1\<close> both are
  accepted, and only the last one is reachable.\<close>

theorem bracketed_host_shadowed:
  "validate_edge (example_sites ''[::1]'' ''::1'') = Inr (example_sites ''[::1]'' ''::1'') \<and>
   route_of (http_tunnels (example_sites ''[::1]'' ''::1'')) '':81'' (normalize_host ''[::1]'') = Some (example_http ''two'' ''::1'')"
proof
  show "validate_edge (example_sites ''[::1]'' ''::1'') = Inr (example_sites ''[::1]'' ''::1'')" by code_simp
  show "route_of (http_tunnels (example_sites ''[::1]'' ''::1'')) '':81'' (normalize_host ''[::1]'') = Some (example_http ''two'' ''::1'')"
    by code_simp
qed

end
