(* ===== verification/Admin.thy ===== *)
theory Admin
  imports Gate Netutil
begin

text \<open>
  The Admin API of Edge, \<open>internal/admin/server.go\<close>: bearer authentication with strikes, and the
  handlers that read and edit the allowlist and the denylist.

  A request is what the handlers read of it; its body is what reading it gives, as a text or an
  error. The router, the HTTP server and \<open>encoding/json\<close> are the Go library's; the decoder is an
  argument. A reply carries what the handler passes to \<open>writeJSON\<close> or \<open>http.Error\<close>. The status
  function is an argument, in Edge \<open>server_status\<close>.
\<close>

definition maxBody :: nat where
  "maxBody = 1048576"

record admin =
  adm_token :: string
  adm_metrics :: bool
  adm_store :: acl_store
  adm_bans :: "ban_store option"

record admin_req =
  aq_method :: string
  aq_path :: string
  aq_auth :: string
  aq_actor :: string
  aq_remote :: string
  aq_cidrs :: "string list"
  aq_ips :: "string list"
  aq_length :: int
  aq_body :: "io_error + string"

datatype body_error = BodyRead io_error | BodyEmpty | BodyJSON

datatype admin_reply =
    AText nat string | ABadBody body_error | AAclError acl_error | AInvalidIP string | AUnbanError unban_error
  | AEntries "string list" string | ADenied "ban_entry list" | AStatus status | AMetrics string

fun reply_code :: "admin_reply \<Rightarrow> nat" where
  "reply_code (AText n m) = n"
| "reply_code (ABadBody e) = 400"
| "reply_code (AAclError e) = 400"
| "reply_code (AInvalidIP s) = 400"
| "reply_code (AUnbanError e) = 400"
| "reply_code (AEntries es c) = 200"
| "reply_code (ADenied es) = 200"
| "reply_code (AStatus s) = 200"
| "reply_code (AMetrics s) = 200"

section \<open>Authentication\<close>

definition subtle_equal :: "string \<Rightarrow> string \<Rightarrow> bool" where
  "subtle_equal a b =
     (if length a \<noteq> length b then False
      else fold (\<lambda>(x, y) v. v OR (x XOR y)) (zip (bytes_of_string a) (bytes_of_string b)) 0 = 0)"

definition bearer :: string where
  "bearer = ''Bearer ''"

definition bearer_ok :: "string \<Rightarrow> string \<Rightarrow> bool" where
  "bearer_ok hdr tok =
     (if \<not> has_prefix hdr bearer then False
      else let got = trim_space (drop (length bearer) hdr) in
        if got = [] \<or> tok = [] then False else subtle_equal got tok)"

definition actor_from :: "admin_req \<Rightarrow> string" where
  "actor_from r = (let a = trim_space (aq_actor r) in if a \<noteq> [] then a else aq_remote r)"

section \<open>Bodies\<close>

record allowlist_dto =
  dto_cidrs :: "string list"
  dto_cidr :: string

text \<open>\<open>json.Unmarshal\<close> into \<open>allowlistDTO\<close>: keys without regard to case, the last one wins.\<close>

fun dto_fields :: "allowlist_dto \<Rightarrow> (string \<times> json) list \<Rightarrow> allowlist_dto option" where
  "dto_fields d [] = Some d"
| "dto_fields d ((k, v) # fs) =
     (if equal_fold k ''cidrs''
      then (case v of
              JArr js \<Rightarrow> Option.bind (json_strings js) (\<lambda>c. dto_fields (d\<lparr>dto_cidrs := c\<rparr>) fs)
            | JNull \<Rightarrow> dto_fields (d\<lparr>dto_cidrs := []\<rparr>) fs
            | _ \<Rightarrow> None)
      else if equal_fold k ''cidr''
      then (case v of JStr s \<Rightarrow> dto_fields (d\<lparr>dto_cidr := s\<rparr>) fs | JNull \<Rightarrow> dto_fields d fs | _ \<Rightarrow> None)
      else dto_fields d fs)"

definition json_dto :: "json \<Rightarrow> allowlist_dto option" where
  "json_dto j =
     (case j of JObj fs \<Rightarrow> dto_fields \<lparr>dto_cidrs = [], dto_cidr = []\<rparr> fs
      | JNull \<Rightarrow> Some \<lparr>dto_cidrs = [], dto_cidr = []\<rparr> | _ \<Rightarrow> None)"

definition read_dto :: "(string \<Rightarrow> json option) \<Rightarrow> admin_req \<Rightarrow> body_error + allowlist_dto" where
  "read_dto dec r =
     (case aq_body r of
        Inl e \<Rightarrow> Inl (BodyRead e)
      | Inr data0 \<Rightarrow>
          let data = take maxBody data0 in
          if trim_space data = [] then Inl BodyEmpty
          else case Option.bind (dec data) json_dto of None \<Rightarrow> Inl BodyJSON | Some d \<Rightarrow> Inr d)"

text \<open>The body of a denylist request.\<close>

fun ip_fields :: "string list \<times> string \<Rightarrow> (string \<times> json) list \<Rightarrow> (string list \<times> string) option" where
  "ip_fields d [] = Some d"
| "ip_fields (ips, i) ((k, v) # fs) =
     (if equal_fold k ''ips''
      then (case v of
              JArr js \<Rightarrow> Option.bind (json_strings js) (\<lambda>c. ip_fields (c, i) fs)
            | JNull \<Rightarrow> ip_fields ([], i) fs
            | _ \<Rightarrow> None)
      else if equal_fold k ''ip''
      then (case v of JStr s \<Rightarrow> ip_fields (ips, s) fs | JNull \<Rightarrow> ip_fields (ips, i) fs | _ \<Rightarrow> None)
      else ip_fields (ips, i) fs)"

definition json_ips :: "json \<Rightarrow> (string list \<times> string) option" where
  "json_ips j = (case j of JObj fs \<Rightarrow> ip_fields ([], []) fs | JNull \<Rightarrow> Some ([], []) | _ \<Rightarrow> None)"

section \<open>Handlers\<close>

text \<open>\<open>flt\<close> is the fault of the allowlist file, \<open>fb\<close> that of the denylist file.\<close>

definition entries_reply :: "admin \<Rightarrow> string \<Rightarrow> admin_reply" where
  "entries_reply a c = AEntries (entries (acl_live (adm_store a))) c"

definition unban_listed :: "fs_op option \<Rightarrow> string list \<Rightarrow> admin \<Rightarrow> admin" where
  "unban_listed fb cidrs a = a\<lparr>adm_bans := map_option (unban_cidrs fb cidrs) (adm_bans a)\<rparr>"

text \<open>The common end of an edit that admits addresses: on success their bans are lifted.\<close>

definition edited :: "fs_op option \<Rightarrow> string list \<Rightarrow> string \<Rightarrow> (acl_error + unit) \<times> acl_store \<Rightarrow> admin \<Rightarrow> admin_reply \<times> admin" where
  "edited fb cidrs c res a =
     (case res of
        (Inl e, st) \<Rightarrow> (AAclError e, a\<lparr>adm_store := st\<rparr>)
      | (Inr _, st) \<Rightarrow> (let a' = unban_listed fb cidrs (a\<lparr>adm_store := st\<rparr>) in (entries_reply a' c, a')))"

definition allowlist_put :: "(string \<Rightarrow> json option) \<Rightarrow> fs_op option \<Rightarrow> fs_op option \<Rightarrow> admin_req \<Rightarrow> admin \<Rightarrow> admin_reply \<times> admin" where
  "allowlist_put dec flt fb r a =
     (case read_dto dec r of
        Inl e \<Rightarrow> (ABadBody e, a)
      | Inr d \<Rightarrow> edited fb (dto_cidrs d) [] (acl_replace flt (dto_cidrs d) (adm_store a)) a)"

definition allowlist_post :: "(string \<Rightarrow> json option) \<Rightarrow> fs_op option \<Rightarrow> fs_op option \<Rightarrow> admin_req \<Rightarrow> admin \<Rightarrow> admin_reply \<times> admin" where
  "allowlist_post dec flt fb r a =
     (case read_dto dec r of
        Inl e \<Rightarrow> (ABadBody e, a)
      | Inr d \<Rightarrow>
          let cidrs = dto_cidrs d @ (if dto_cidr d \<noteq> [] then [dto_cidr d] else []) in
          if cidrs = [] then (AText 400 ''cidr or cidrs required'', a)
          else edited fb cidrs [] (acl_add flt cidrs (adm_store a)) a)"

definition allowlist_delete :: "(string \<Rightarrow> json option) \<Rightarrow> fs_op option \<Rightarrow> admin_req \<Rightarrow> admin \<Rightarrow> admin_reply \<times> admin" where
  "allowlist_delete dec flt r a =
     (let from_body =
            (if aq_length r = 0 then Inr []
             else case read_dto dec r of
               Inr d \<Rightarrow> Inr (dto_cidrs d @ (if dto_cidr d \<noteq> [] then [dto_cidr d] else []))
             | Inl e \<Rightarrow> if aq_cidrs r = [] then Inl e else Inr []) in
      case from_body of
        Inl e \<Rightarrow> (ABadBody e, a)
      | Inr extra \<Rightarrow>
          let cidrs = aq_cidrs r @ extra in
          if cidrs = [] then (AText 400 ''cidr query or body required'', a)
          else case acl_remove flt cidrs (adm_store a) of
            (Inl e, st) \<Rightarrow> (AAclError e, a\<lparr>adm_store := st\<rparr>)
          | (Inr _, st) \<Rightarrow> (let a' = a\<lparr>adm_store := st\<rparr> in (entries_reply a' [], a')))"

definition not_allowed :: admin_reply where
  "not_allowed = AText 405 ''method not allowed''"

definition handle_allowlist :: "(string \<Rightarrow> json option) \<Rightarrow> fs_op option \<Rightarrow> fs_op option \<Rightarrow> admin_req \<Rightarrow> admin \<Rightarrow> admin_reply \<times> admin" where
  "handle_allowlist dec flt fb r a =
     (if aq_method r = ''GET'' then (entries_reply a [], a)
      else if aq_method r = ''PUT'' then allowlist_put dec flt fb r a
      else if aq_method r = ''POST'' then allowlist_post dec flt fb r a
      else if aq_method r = ''DELETE'' then allowlist_delete dec flt r a
      else (not_allowed, a))"

definition self_cidr :: "ip \<Rightarrow> string" where
  "self_cidr i = (if to4 i = None then ip_string i @ ''/128'' else ip_string i @ ''/32'')"

definition handle_allow_self :: "fs_op option \<Rightarrow> fs_op option \<Rightarrow> admin_req \<Rightarrow> admin \<Rightarrow> admin_reply \<times> admin" where
  "handle_allow_self flt fb r a =
     (if aq_method r \<noteq> ''POST'' then (not_allowed, a)
      else let i = ip_from_addr (aq_remote r) in
        if i = [] then (AText 400 ''cannot parse client ip'', a)
        else edited fb [self_cidr i] (self_cidr i) (acl_add flt [self_cidr i] (adm_store a)) a)"

text \<open>The loop of the denylist's DELETE: it stops at the first address it cannot lift.\<close>

fun unban_loop :: "fs_op option \<Rightarrow> string list \<Rightarrow> ban_store \<Rightarrow> admin_reply option \<times> ban_store" where
  "unban_loop fb [] b = (None, b)"
| "unban_loop fb (raw # rest) b =
     (let i = parse_ip (trim_space raw) in
      if i = [] then (Some (AInvalidIP raw), b)
      else case unban fb i b of
        (Inl e, b') \<Rightarrow> (Some (AUnbanError e), b')
      | (Inr _, b') \<Rightarrow> unban_loop fb rest b')"

definition denylist_ips :: "(string \<Rightarrow> json option) \<Rightarrow> admin_req \<Rightarrow> body_error + string list" where
  "denylist_ips dec r =
     (if aq_length r = 0 then Inr (aq_ips r)
      else case aq_body r of
        Inl e \<Rightarrow> Inr (aq_ips r)
      | Inr data0 \<Rightarrow>
          let data = take maxBody data0 in
          if trim_space data = [] then Inr (aq_ips r)
          else case Option.bind (dec data) json_ips of
            None \<Rightarrow> Inl BodyJSON
          | Some (ips, i) \<Rightarrow> Inr (aq_ips r @ ips @ (if i \<noteq> [] then [i] else [])))"

definition denylist_delete :: "(string \<Rightarrow> json option) \<Rightarrow> fs_op option \<Rightarrow> int \<Rightarrow> admin_req \<Rightarrow> ban_store \<Rightarrow> admin_reply \<times> ban_store" where
  "denylist_delete dec fb now r b =
     (case denylist_ips dec r of
        Inl e \<Rightarrow> (ABadBody e, b)
      | Inr ips \<Rightarrow>
          if ips = [] then (AText 400 ''ip query or body required'', b)
          else case unban_loop fb ips b of
            (Some e, b') \<Rightarrow> (e, b')
          | (None, b') \<Rightarrow> (ADenied (ban_list now b'), b'))"

definition handle_denylist :: "(string \<Rightarrow> json option) \<Rightarrow> fs_op option \<Rightarrow> int \<Rightarrow> admin_req \<Rightarrow> admin \<Rightarrow> admin_reply \<times> admin" where
  "handle_denylist dec fb now r a =
     (case adm_bans a of
        None \<Rightarrow> (AText 501 ''denylist unavailable'', a)
      | Some b \<Rightarrow>
          if aq_method r = ''GET'' then (ADenied (ban_list now b), a)
          else if aq_method r = ''DELETE'' then
            (case denylist_delete dec fb now r b of (rep, b') \<Rightarrow> (rep, a\<lparr>adm_bans := Some b'\<rparr>))
          else (not_allowed, a))"

definition handle_status :: "status \<Rightarrow> admin_req \<Rightarrow> admin_reply" where
  "handle_status st r = (if aq_method r \<noteq> ''GET'' then not_allowed else AStatus st)"

definition handle_metrics :: "(int \<Rightarrow> string) \<Rightarrow> status \<Rightarrow> admin_req \<Rightarrow> admin_reply" where
  "handle_metrics seconds st r = (if aq_method r \<noteq> ''GET'' then not_allowed else AMetrics (write_status seconds st))"

text \<open>The routes that \<open>New\<close> registers.\<close>

definition admin_mux ::
  "(string \<Rightarrow> json option) \<Rightarrow> (int \<Rightarrow> string) \<Rightarrow> fs_op option \<Rightarrow> fs_op option \<Rightarrow> int \<Rightarrow> status \<Rightarrow> admin_req \<Rightarrow> admin \<Rightarrow> admin_reply \<times> admin" where
  "admin_mux dec seconds flt fb now st r a =
     (if aq_path r = ''/v1/allowlist'' then handle_allowlist dec flt fb r a
      else if aq_path r = ''/v1/allowlist/self'' then handle_allow_self flt fb r a
      else if aq_path r = ''/v1/denylist'' then handle_denylist dec fb now r a
      else if aq_path r = ''/v1/status'' then (handle_status st r, a)
      else if adm_metrics a \<and> aq_path r = ''/metrics'' then (handle_metrics seconds st r, a)
      else (AText 404 ''404 page not found'', a))"

definition admin_auth :: "fs_op option \<Rightarrow> int \<Rightarrow> admin_req \<Rightarrow> (admin_req \<Rightarrow> admin \<Rightarrow> admin_reply \<times> admin) \<Rightarrow> admin \<Rightarrow> admin_reply \<times> admin" where
  "admin_auth fb now r next a =
     (let i = ip_from_addr (aq_remote r) in
      if \<not> bearer_ok (aq_auth r) (adm_token a) then
        (case adm_bans a of
           Some b \<Rightarrow>
             if blocked i now b then (AText 403 ''forbidden'', a)
             else (AText 401 ''unauthorized'', a\<lparr>adm_bans := Some (observe_invalid fb i ''admin'' now b)\<rparr>)
         | None \<Rightarrow> (AText 401 ''unauthorized'', a))
      else next r a)"

definition admin_serve ::
  "(string \<Rightarrow> json option) \<Rightarrow> (int \<Rightarrow> string) \<Rightarrow> fs_op option \<Rightarrow> fs_op option \<Rightarrow> int \<Rightarrow> status \<Rightarrow> admin_req \<Rightarrow> admin \<Rightarrow> admin_reply \<times> admin" where
  "admin_serve dec seconds flt fb now st r a = admin_auth fb now r (admin_mux dec seconds flt fb now st) a"

datatype new_error = NoListen | NoToken

text \<open>\<open>New\<close>; a nil store, logger, registry or status function does not occur.\<close>

definition admin_new :: "string \<Rightarrow> string \<Rightarrow> bool \<Rightarrow> ban_store option \<Rightarrow> acl_store \<Rightarrow> new_error + admin" where
  "admin_new addr tok m bans st =
     (if trim_space addr = [] then Inl NoListen
      else if trim_space tok = [] then Inl NoToken
      else Inr \<lparr>adm_token = tok, adm_metrics = m, adm_store = st, adm_bans = bans\<rparr>)"

section \<open>The token\<close>

lemma xor_fold_zero:
  "fold (\<lambda>(x, y) v. v OR (x XOR y)) zs (v :: byte) = 0 \<longleftrightarrow> v = 0 \<and> list_all (\<lambda>(x, y). x = y) zs"
proof (induction zs arbitrary: v)
  case (Cons z zs)
  obtain x y where z: "z = (x, y)" by fastforce
  have "v OR (x XOR y) = 0 \<longleftrightarrow> v = 0 \<and> x = y" by (auto simp: bit_eq_iff bit_or_iff bit_xor_iff)
  then show ?case using Cons by (auto simp: z)
qed simp

text \<open>The comparison without early exit is equality.\<close>

lemma subtle_equal_eq [simp]: "subtle_equal a b \<longleftrightarrow> a = b"
proof (cases "length a = length b")
  case True
  then have "list_all (\<lambda>(x, y). x = y) (zip (bytes_of_string a) (bytes_of_string b)) \<longleftrightarrow> bytes_of_string a = bytes_of_string b"
    by (auto simp: list_all_iff list_eq_iff_zip_eq bytes_of_string_def)
  then show ?thesis using True string_of_bytes_of_string by (auto simp: subtle_equal_def xor_fold_zero)
qed (auto simp: subtle_equal_def)

definition has_token :: "admin \<Rightarrow> admin_req \<Rightarrow> bool" where
  "has_token a r \<longleftrightarrow> adm_token a \<noteq> [] \<and> (\<exists>w. aq_auth r = ''Bearer '' @ w \<and> trim_space w = adm_token a)"

lemma bearer_ok_iff: "bearer_ok (aq_auth r) (adm_token a) \<longleftrightarrow> has_token a r"
proof -
  have p: "has_prefix h bearer \<longleftrightarrow> (\<exists>w. h = bearer @ w)" for h
    unfolding has_prefix_def by (metis append_eq_conv_conj append_take_drop_id)
  show ?thesis
  proof (cases "\<exists>w. aq_auth r = bearer @ w")
    case True
    then obtain w where w: "aq_auth r = bearer @ w" by blast
    then have "has_prefix (aq_auth r) bearer" "drop (length bearer) (aq_auth r) = w" using p by auto
    then have "bearer_ok (aq_auth r) (adm_token a) \<longleftrightarrow> adm_token a \<noteq> [] \<and> trim_space w = adm_token a"
      by (auto simp: bearer_ok_def Let_def)
    then show ?thesis using w unfolding has_token_def bearer_def by (metis same_append_eq)
  next
    case False
    then show ?thesis using p [of "aq_auth r"] unfolding bearer_ok_def has_token_def bearer_def by presburger
  qed
qed

lemma admin_serve_cases:
  "admin_serve dec seconds flt fb now st r a =
     (if has_token a r then admin_mux dec seconds flt fb now st r a
      else case adm_bans a of
        None \<Rightarrow> (AText 401 ''unauthorized'', a)
      | Some b \<Rightarrow>
          if blocked (ip_from_addr (aq_remote r)) now b then (AText 403 ''forbidden'', a)
          else (AText 401 ''unauthorized'', a\<lparr>adm_bans := Some (observe_invalid fb (ip_from_addr (aq_remote r)) ''admin'' now b)\<rparr>))"
  by (simp add: admin_serve_def admin_auth_def bearer_ok_iff Let_def split: option.split)

text \<open>
C10: the Admin API needs the token. A request reaches a handler if and only if its Authorization header is Bearer and the exact configured token, up to white space around it; any other request is answered 401 or 403 and changes neither the allowlist nor the token. A configured token that itself has white space around it can never be matched.
\<close>

theorem admin_needs_token:
  "(if adm_token a \<noteq> [] \<and> (\<exists>w. aq_auth r = ''Bearer '' @ w \<and> trim_space w = adm_token a)
    then admin_serve dec seconds flt fb now st r a = admin_mux dec seconds flt fb now st r a \<and> trim_space (adm_token a) = adm_token a
    else case admin_serve dec seconds flt fb now st r a of
      (rep, a') \<Rightarrow> reply_code rep \<in> {401, 403} \<and> adm_store a' = adm_store a \<and> adm_token a' = adm_token a \<and> adm_metrics a' = adm_metrics a)"
proof -
  have "trim_space w = adm_token a \<Longrightarrow> trim_space (adm_token a) = adm_token a" for w using trim_space_idem by metis
  then show ?thesis unfolding has_token_def [symmetric] by (auto simp: admin_serve_cases has_token_def split: option.split)
qed

section \<open>Guessing\<close>

definition admin_run ::
  "(string \<Rightarrow> json option) \<Rightarrow> (int \<Rightarrow> string) \<Rightarrow> fs_op option \<Rightarrow> fs_op option \<Rightarrow> status \<Rightarrow> (int \<times> admin_req) list \<Rightarrow> admin \<Rightarrow> admin" where
  "admin_run dec seconds flt fb st rs a = fold (\<lambda>(now, r) a. snd (admin_serve dec seconds flt fb now st r a)) rs a"

definition guess_from :: "ip \<Rightarrow> admin \<Rightarrow> admin_req \<Rightarrow> bool" where
  "guess_from i a r \<longleftrightarrow> ip_from_addr (aq_remote r) = i \<and> \<not> has_token a r"

lemma guesses_are_strikes:
  assumes "adm_bans a = Some b" "list_all (\<lambda>x. guess_from i a (snd x)) rs"
  shows "admin_run dec seconds flt fb st rs a = a\<lparr>adm_bans := Some (run_events ban_step (strikes fb i ''admin'' (map fst rs)) b)\<rparr>"
  using assms
proof (induction rs arbitrary: a b)
  case (Cons x rs)
  obtain now r where x: "x = (now, r)" by fastforce
  have "blocked i now b \<Longrightarrow> observe_invalid fb i ''admin'' now b = b"
    by (auto simp: observe_invalid_def blocked_def Let_def)
  then have s: "snd (admin_serve dec seconds flt fb now st r a) = a\<lparr>adm_bans := Some (observe_invalid fb i ''admin'' now b)\<rparr>"
    using Cons.prems x by (cases a) (auto simp: admin_serve_cases guess_from_def)
  have t: "guess_from i (a\<lparr>adm_bans := y\<rparr>) q \<longleftrightarrow> guess_from i a q" for y q by (simp add: guess_from_def has_token_def)
  have "admin_run dec seconds flt fb st rs (a\<lparr>adm_bans := Some (observe_invalid fb i ''admin'' now b)\<rparr>) =
      a\<lparr>adm_bans := Some (run_events ban_step (strikes fb i ''admin'' (map fst rs)) (observe_invalid fb i ''admin'' now b))\<rparr>"
    using Cons.IH [of "a\<lparr>adm_bans := Some (observe_invalid fb i ''admin'' now b)\<rparr>"] Cons.prems(2) by (simp add: t)
  then show ?case by (simp add: admin_run_def x s strikes_def)
qed (simp add: admin_run_def strikes_def)

text \<open>
C20: guessing the Admin token is stopped after five attempts. Requests without the token from one address that the denylist does not know are answered 401 four times without a ban, whatever they ask for; the fifth bans the address for six hours, during which such requests are answered 403, and the ban holds on the public ports even for an address on the allowlist. Nothing else changes, and a request with the right token is served as before.
\<close>

theorem admin_guesses_banned:
  assumes "adm_bans a = Some b" "unknown_to b i" and "length gs = 4" "0 < t"
    and "list_all (\<lambda>x. guess_from i a (snd x)) (gs @ [(t, g)])"
  shows "let a4 = admin_run dec seconds flt fb st gs a; a5 = admin_run dec seconds flt fb st (gs @ [(t, g)]) a in
     (\<exists>b4. adm_bans a4 = Some b4 \<and> (\<forall>now. \<not> blocked i now b4)) \<and>
     (\<exists>b5. adm_bans a5 = Some b5 \<and> a5 = a\<lparr>adm_bans := Some b5\<rparr> \<and> (\<forall>now. blocked i now b5 \<longleftrightarrow> now < t + TempDuration) \<and>
        (\<forall>now s. now < t + TempDuration \<longrightarrow> \<not> fst (public_allowed fb i now (s\<lparr>srv_bans := b5\<rparr>)))) \<and>
     reply_code (fst (admin_serve dec seconds flt fb now st g a4)) = 401 \<and>
     reply_code (fst (admin_serve dec seconds flt fb now st g a5)) = (if now < t + TempDuration then 403 else 401) \<and>
     (\<forall>r. has_token a r \<longrightarrow> admin_serve dec seconds flt fb now st r a5 = admin_mux dec seconds flt fb now st r a5)"
proof -
  let ?b4 = "run_events ban_step (strikes fb i ''admin'' (map fst gs)) b"
  let ?b5 = "run_events ban_step (strikes fb i ''admin'' (map fst gs @ [t])) b"
  have r4: "admin_run dec seconds flt fb st gs a = a\<lparr>adm_bans := Some ?b4\<rparr>"
    using guesses_are_strikes [OF assms(1), of i gs] assms(5) by simp
  have r5: "admin_run dec seconds flt fb st (gs @ [(t, g)]) a = a\<lparr>adm_bans := Some ?b5\<rparr>"
    using guesses_are_strikes [OF assms(1,5)] by simp
  have b4: "\<not> blocked i x ?b4" for x using few_strikes [OF assms(2)] assms(3) by simp
  have b5: "blocked i x ?b5 \<longleftrightarrow> x < t + TempDuration" for x using fifth_strike [OF assms(2)] assms(3,4) by simp
  have p: "\<not> fst (public_allowed fb i x (s\<lparr>srv_bans := ?b5\<rparr>))" if "x < t + TempDuration" for x s
    using b5 [of x] that by (simp add: public_allowed_parts is_allowed_iff)
  have g: "ip_from_addr (aq_remote g) = i" "\<not> has_token (a\<lparr>adm_bans := y\<rparr>) g" for y
    using assms(5) by (simp_all add: guess_from_def has_token_def)
  have h: "has_token (a\<lparr>adm_bans := y\<rparr>) r \<longleftrightarrow> has_token a r" for y r by (simp add: has_token_def)
  show ?thesis
    unfolding Let_def r4 r5 using b4 b5 p g by (simp add: admin_serve_cases h)
qed

section \<open>Admitting oneself\<close>

definition host_net :: "ip \<Rightarrow> ipnet" where
  "host_net i = (let l = 8 * length (normalize_ip i) in \<lparr>net_ip = normalize_ip i, net_mask = cidr_mask l l\<rparr>)"

lemma normalize_length: "length i = 4 \<or> length i = 16 \<Longrightarrow>
  (to4 i \<noteq> None \<and> length (normalize_ip i) = 4 \<or> to4 i = None \<and> normalize_ip i = i \<and> length i = 16)"
  by (cases "to4 i") (auto simp: normalize_ip_def to4_length)

lemma parse_addr_string:
  assumes "length i = 4 \<or> length i = 16"
  shows "parse_addr (ip_string i) = Some (normalize_ip i)"
proof (cases "to4 i")
  case (Some v)
  then show ?thesis using parse_addr_ipv4_string [OF to4_length [OF Some]] assms
    by (auto simp: ip_string_def normalize_ip_def)
next
  case None
  then have l: "length i = 16" "to16 i = i" using assms by (auto simp: to16_def)
  then have p: "parse_ip (ip_string i) = i" using parse_ip_string [OF assms] by simp
  then obtain b where b: "parse_addr (ip_string i) = Some b" "to16 b = i"
    using l(1) by (cases "parse_addr (ip_string i)") (auto simp: parse_ip_def)
  moreover have "length b \<noteq> 4" using b(2) None by auto
  ultimately show ?thesis using None by (auto simp: to16_def normalize_ip_def)
qed

lemma cut_slash: "CHR ''/'' \<notin> set s \<Longrightarrow> cut_byte (s @ ''/'' @ m) CHR ''/'' = Some (s, m)"
  by (simp add: cut_byte_def index_byte_append)

lemma full_mask: "length b = l \<Longrightarrow> and_bytes b (cidr_mask (8 * l) (8 * l)) = b"
proof (induction b arbitrary: l)
  case (Cons x b)
  then obtain k where "l = Suc k" by (cases l) auto
  then show ?case using Cons.IH [of k] Cons.prems by (simp add: cidr_mask_Suc and_bytes_def del: mult_Suc_right) (simp add: cidr_mask_def)
qed (simp add: and_bytes_def)

lemma parse_self:
  assumes "length i = 4 \<or> length i = 16"
  shows "parse_cidr (self_cidr i) = Some (host_net i)"
proof -
  have s: "CHR ''/'' \<notin> set (ip_string i)" using assms by simp
  show ?thesis
  proof (cases "to4 i")
    case (Some v)
    then have v: "length v = 4" "normalize_ip i = v" by (auto simp: to4_length normalize_ip_def)
    have "self_cidr i = ip_string i @ ''/'' @ ''32''" using Some by (simp add: self_cidr_def)
    moreover have "dec_val ''32'' = 32" "list_all is_digit ''32''" by code_simp+
    moreover have "ip_mask (to16 v) (cidr_mask 32 32) = v" using ip_mask_v4 [of v "cidr_mask 32 32"] full_mask [of v 4] v by simp
    ultimately show ?thesis
      using cut_slash [OF s, of "''32''"] parse_addr_string [OF assms] v by (simp add: parse_cidr_def host_net_def)
  next
    case None
    then have v: "length i = 16" "normalize_ip i = i" using assms by (auto simp: normalize_ip_def)
    have "self_cidr i = ip_string i @ ''/'' @ ''128''" using None by (simp add: self_cidr_def)
    moreover have "dec_val ''128'' = 128" "list_all is_digit ''128''" by code_simp+
    moreover have "ip_mask (to16 i) (cidr_mask 128 128) = i" using ip_mask_v6 [of i "cidr_mask 128 128"] full_mask [of i 16] v by (simp add: to16_def)
    ultimately show ?thesis
      using cut_slash [OF s, of "''128''"] parse_addr_string [OF assms] v by (simp add: parse_cidr_def host_net_def)
  qed
qed

lemma host_net_ok: "length i = 4 \<or> length i = 16 \<Longrightarrow> net_ok (host_net i)"
  using normalize_length [of i] by (auto simp: host_net_def Let_def intro: net_ok_v4 net_ok_v6)

lemma host_net_contains: "length i = 4 \<or> length i = 16 \<Longrightarrow> net_contains (host_net i) i \<and> prefix_match (host_net i) (normalize_ip i)"
proof -
  assume i: "length i = 4 \<or> length i = 16"
  obtain k where k: "mask_ones (net_mask (host_net i)) = Some k" "mask_size (net_mask (host_net i)) = (k, 8 * length (net_ip (host_net i)))"
    using net_ok_number [OF host_net_ok [OF i]] by blast
  have "length (normalize_ip i) = 4 \<or> length (normalize_ip i) = 16" using normalize_length [OF i] by auto
  then have "mask_ones (net_mask (host_net i)) = Some (8 * length (net_ip (host_net i)))"
    using mask_ones_32 [of 32] mask_ones_128 [of 128] by (auto simp: host_net_def Let_def)
  then have p: "prefix_match (host_net i) (normalize_ip i)" by (simp add: full_prefix_match) (simp add: host_net_def Let_def)
  then have c: "net_contains (host_net i) (normalize_ip i)" using net_contains_prefix [OF host_net_ok [OF i]] by simp
  have "net_contains n (normalize_ip i) = net_contains n i" for n
    by (auto simp: net_contains_def normalize_ip_def to4_length Let_def split: option.splits)
  then show ?thesis using p c by simp
qed

lemma self_solid: "length i = 4 \<or> length i = 16 \<Longrightarrow> trim_space (self_cidr i) = self_cidr i"
proof -
  assume i: "length i = 4 \<or> length i = 16"
  have h: "is_hex c \<Longrightarrow> \<not> ascii_space c \<and> of_char c < (128 :: nat)" for c
    by (auto simp: is_hex_def hex_digit_val_def ascii_space_def Let_def split: if_splits)
  have d: "is_digit c \<Longrightarrow> \<not> ascii_space c \<and> of_char c < (128 :: nat)" for c
    by (auto simp: is_digit_def ascii_space_def)
  have "i \<noteq> []" using i by auto
  then have "ip_string i \<noteq> []" using ip_string_not_empty [of i] i by (auto simp: real_ip_def)
  moreover have "\<forall>c \<in> set (ip_string i). \<not> ascii_space c \<and> of_char c < (128 :: nat)"
  proof
    fix c assume "c \<in> set (ip_string i)"
    then consider "is_digit c" | "is_hex c" | "c = CHR ''.''" | "c = CHR '':''" using ip_string_chars [OF i] by blast
    then show "\<not> ascii_space c \<and> of_char c < (128 :: nat)" using h d by cases (auto simp: ascii_space_def)
  qed
  ultimately show ?thesis
    by (intro trim_space_solid) (auto simp: self_cidr_def solid_def ascii_space_def)
qed

lemma self_parse:
  assumes i: "length i = 4 \<or> length i = 16"
  shows "acl_parse_cidr (self_cidr i) = Inr (host_net i)"
proof -
  have "contains_byte (self_cidr i) CHR ''/''" by (simp add: contains_byte_def self_cidr_def)
  moreover have "self_cidr i \<noteq> []" by (simp add: self_cidr_def)
  moreover have "canonicalize_net (host_net i) = host_net i"
  proof -
    have "to4 (normalize_ip i) = (if to4 i = None then None else Some (normalize_ip i))"
      unfolding normalize_idem by (auto simp: normalize_ip_def split: option.split)
    then show ?thesis using normalize_length [OF i] by (auto simp: canonicalize_net_def host_net_def Let_def split: prod.split)
  qed
  ultimately show ?thesis
    using parse_self [OF i] self_solid [OF i] by (simp add: acl_parse_cidr_def Let_def)
qed

lemma self_admits: "length i = 4 \<or> length i = 16 \<Longrightarrow> \<not> is_unspecified i \<Longrightarrow> admits [self_cidr i] i"
  using self_parse [of i] host_net_contains [of i] by (auto simp: admits_def entry_matches_iff)


lemma commit_ok: "parse_all 0 cs = Inr x \<Longrightarrow> fst (commit_list None cs s) = Inr ()"
  by (cases x) (auto simp: commit_list_def list_replace_def acl_persist_def save_file_def atomic_save_cases split: prod.split)

lemma add_one_ok:
  assumes c: "acl_parse_cidr c = Inr n" "trim_space c = c" "c \<noteq> []" and s: "acl_inv s"
  shows "fst (acl_add None [c] s) = Inr ()"
proof -
  let ?es = "entries (acl_live s)"
  have l: "list_ok (acl_live s)" using s by (simp add: acl_inv_def)
  have "\<forall>e \<in> set ?es. \<exists>k. normalize_key e = Inr k" using list_ok_entries [OF l] net_ok_key by blast
  then obtain f where "\<forall>e \<in> set ?es. normalize_key e = Inr (f e)" by metis
  then have "entry_keys ?es = Inr (map f ?es)" by (simp add: entry_keys_Inr)
  moreover obtain k where "normalize_key c = Inr k" using net_ok_key [OF c(1)] by blast
  moreover have "parse_all 0 (?es @ [c]) = Inr (?es @ [c], nets (acl_live s) @ [n])"
    using l c unfolding list_ok_def parse_all_Inr by simp
  ultimately show ?thesis using commit_ok c by (auto simp: acl_add_def Let_def)
qed

lemma self_unbans:
  assumes i: "length i = 4 \<or> length i = 16"
  shows "\<not> blocked i now (unban_cidrs fb [self_cidr i] b)"
proof (cases "ip_key i = []")
  case False
  have n: "unban_net (self_cidr i) = Some (host_net i)" by (simp add: unban_net_def parse_self [OF i])
  have k: "parse_ip (ip_key i) = to16 i" using False parse_ip_string [OF i] by (auto simp: ip_key_alt split: if_splits)
  have "net_contains n (to16 i) = net_contains n i" for n
    using i to4_to16 [OF i] by (auto simp: net_contains_def to16_def Let_def)
  moreover have "to16 i \<noteq> []" using i by (auto simp: to16_def)
  ultimately have "key_matches [host_net i] (ip_key i)"
    using host_net_contains [OF i] k by (simp add: key_matches_def Let_def)
  then have "snd (view (ip_key i) (unban_cidrs fb [self_cidr i] b)) = None"
    using view_unban_cidrs [of "ip_key i" fb "[self_cidr i]" b]
    by (cases "view (ip_key i) b") (auto simp: List.map_filter_def n)
  then show ?thesis by (simp add: blocked_view rec_blocked_def)
qed (simp add: blocked_def)

lemma ip_from_addr_length: "ip_from_addr s \<noteq> [] \<Longrightarrow> length (ip_from_addr s) = 16"
  using parse_ip_cases by (auto simp: ip_from_addr_def Let_def split: if_splits)

text \<open>
An operator who allows himself gets in. A POST to /v1/allowlist/self with the token, from an address that is no unspecified one, when the files can be written and the allowlist is a valid one, is answered 200 with the CIDR of that single address; afterwards Edge lets public connections from it through at any time, whatever its bans were before, and still lets through everyone it admitted before.
\<close>

theorem allow_self_admits:
  assumes "aq_path r = ''/v1/allowlist/self''" "aq_method r = ''POST''" "has_token a r"
    and i: "ip_from_addr (aq_remote r) = i" "i \<noteq> []" "\<not> is_unspecified i"
    and "acl_inv (adm_store a)" "adm_bans a = Some b"
    and s: "admin_serve dec seconds None None now st r a = (rep, a')"
  shows "reply_code rep = 200 \<and> (\<exists>es. rep = AEntries es (self_cidr i)) \<and>
     (\<exists>b'. adm_bans a' = Some b' \<and> (\<forall>t f srv. fst (public_allowed f i t (srv\<lparr>srv_acl := acl_live (adm_store a'), srv_bans := b'\<rparr>)))) \<and>
     (\<forall>j. allow j (acl_live (adm_store a)) \<longrightarrow> allow j (acl_live (adm_store a')))"
proof -
  have l: "length i = 4 \<or> length i = 16" using ip_from_addr_length [of "aq_remote r"] i(1,2) by simp
  let ?c = "self_cidr i"
  obtain res store where add: "acl_add None [?c] (adm_store a) = (res, store)" by fastforce
  have ok: "res = Inr ()" using add add_one_ok [OF self_parse [OF l] self_solid [OF l] _ assms(7)] by (simp add: self_cidr_def)
  note ad = add_admits [OF assms(7) add [unfolded ok]]
  have "allow i (acl_live store)" using ad self_admits [OF l i(3)] by blast
  moreover have "rep = entries_reply a' ?c" "adm_store a' = store" "adm_bans a' = Some (unban_cidrs None [?c] b)"
    using s assms(1,2,3,8) i add ok
    by (auto simp: admin_serve_cases admin_mux_def handle_allow_self_def edited_def unban_listed_def Let_def)
  ultimately show ?thesis
    using self_unbans [OF l] ad
    by (simp add: entries_reply_def public_allowed_parts is_allowed_iff)
qed

definition example_admin :: admin where
  "example_admin = \<lparr>adm_token = ''s'', adm_metrics = True, adm_store = new_store None [] \<lparr>target = Absent, temps = []\<rparr>,
     adm_bans = Some (ban_new [] \<lparr>target = Absent, temps = []\<rparr>)\<rparr>"

definition example_request :: "string \<Rightarrow> string \<Rightarrow> string \<Rightarrow> admin_req" where
  "example_request m p auth = \<lparr>aq_method = m, aq_path = p, aq_auth = auth, aq_actor = [], aq_remote = ''10.0.0.9:1'',
     aq_cidrs = [], aq_ips = [], aq_length = 0, aq_body = Inr []\<rparr>"

lemma example_remote: "ip_from_addr ''10.0.0.9:1'' = v4_prefix @ [10, 0, 0, 9]"
  by code_simp

lemma example_ban_key: "ip_key (v4_prefix @ [10, 0, 0, 9]) = ''10.0.0.9''"
  by code_simp

lemma example_tokens: "has_token example_admin (example_request m p ''Bearer s'')" "\<not> has_token example_admin (example_request m p ''Bearer x'')"
  by (auto simp: has_token_def example_admin_def example_request_def trim_space_solid solid_def ascii_space_def)

theorem admin_guesses_banned_witness:
  "let g = example_request ''GET'' ''/v1/status'' ''Bearer x'' in
   reply_code (fst (admin_serve (\<lambda>_. None) (\<lambda>_. []) None None 7 (snapshot new_registry) g
     (admin_run (\<lambda>_. None) (\<lambda>_. []) None None (snapshot new_registry) [(1, g), (2, g), (3, g), (4, g), (5, g)] example_admin))) = 403"
proof -
  let ?g = "example_request ''GET'' ''/v1/status'' ''Bearer x''" and ?b = "ban_new [] \<lparr>target = Absent, temps = []\<rparr>"
  have b: "adm_bans example_admin = Some ?b" by (simp add: example_admin_def)
  have u: "unknown_to ?b (v4_prefix @ [10, 0, 0, 9])" by (simp add: unknown_to_def example_ban_key view_ban_new)
  have g: "list_all (\<lambda>x. guess_from (v4_prefix @ [10, 0, 0, 9]) example_admin (snd x)) ([(1, ?g), (2, ?g), (3, ?g), (4, ?g)] @ [(5, ?g)])"
    using example_tokens(2) example_remote by (simp add: guess_from_def example_request_def)
  show ?thesis
    using admin_guesses_banned [OF b u _ _ g, of "\<lambda>_. None" "\<lambda>_. []" None None "snapshot new_registry" 7]
    by (simp add: Let_def TempDuration_def)
qed

theorem allow_self_admits_witness:
  "let r = example_request ''POST'' ''/v1/allowlist/self'' ''Bearer s'' in
   reply_code (fst (admin_serve (\<lambda>_. None) (\<lambda>_. []) None None 7 (snapshot new_registry) r example_admin)) = 200"
proof -
  let ?r = "example_request ''POST'' ''/v1/allowlist/self'' ''Bearer s''"
  have i: "ip_from_addr (aq_remote ?r) = v4_prefix @ [10, 0, 0, 9]" using example_remote by (simp add: example_request_def)
  have ne: "v4_prefix @ [10, 0, 0, 9] \<noteq> []" "\<not> is_unspecified (v4_prefix @ [10, 0, 0, 9])" by code_simp+
  have a: "acl_inv (adm_store example_admin)" "adm_bans example_admin = Some (ban_new [] \<lparr>target = Absent, temps = []\<rparr>)"
    by (simp_all add: example_admin_def acl_inv_def new_store_def)
  from allow_self_admits [OF _ _ example_tokens(1) i ne a prod.collapse [symmetric]] show ?thesis
    by (simp add: example_request_def Let_def)
qed

section \<open>Edits\<close>

lemma replace_admits:
  assumes "acl_replace flt cs s = (Inr (), s')"
  shows "allow i (acl_live s') = admits cs i"
  using commit_cases [OF assms [unfolded acl_replace_def]] allow_admits by auto

lemma edited_200:
  "reply_code (fst (edited fb cs c (res, st) a)) = 200 \<Longrightarrow>
     res = Inr () \<and> snd (edited fb cs c (res, st) a) = a\<lparr>adm_store := st, adm_bans := map_option (unban_cidrs fb cs) (adm_bans a)\<rparr>"
  by (cases res) (auto simp: edited_def unban_listed_def Let_def)

lemma unban_cidrs_clears:
  assumes "ip_key i \<noteq> []" "key_matches (List.map_filter unban_net cs) (ip_key i)"
  shows "\<not> blocked i now (unban_cidrs fb cs b)"
proof -
  have "snd (view (ip_key i) (unban_cidrs fb cs b)) = None"
    using view_unban_cidrs [of "ip_key i" fb cs b] assms(2) by (cases "view (ip_key i) b") auto
  then show ?thesis by (simp add: blocked_view rec_blocked_def)
qed



section \<open>Lifting bans\<close>

definition named_ip :: "string \<Rightarrow> ip" where
  "named_ip raw = parse_ip (trim_space raw)"

lemma unban_Inr:
  "fst (unban fb i b) = Inr () \<Longrightarrow> ip_key i \<noteq> [] \<and> snd (view (ip_key i) (snd (unban fb i b))) = None"
proof -
  assume u: "fst (unban fb i b) = Inr ()"
  then have k: "ip_key i \<noteq> []" by (auto simp: unban_def Let_def split: if_splits)
  have "snd (view (ip_key i) (snd (unban fb i b))) = None"
    unfolding view_unban [OF k] by (cases "view (ip_key i) b") simp
  then show ?thesis using k by blast
qed

lemma unban_keeps_none: "k \<noteq> [] \<Longrightarrow> snd (view k b) = None \<Longrightarrow> snd (view k (snd (unban fb i b))) = None"
  unfolding view_unban by (cases "view k b") simp

lemma unban_other: "k \<noteq> [] \<Longrightarrow> k \<noteq> ip_key i \<Longrightarrow> view k (snd (unban fb i b)) = view k b"
  unfolding view_unban by (cases "view k b") simp

lemma loop_keeps_none: "k \<noteq> [] \<Longrightarrow> snd (view k b) = None \<Longrightarrow> snd (view k (snd (unban_loop fb ips b))) = None"
proof (induction fb ips b rule: unban_loop.induct)
  case (2 fb raw rest b)
  then show ?case
    using unban_keeps_none [OF 2(2,3), of fb "parse_ip (trim_space raw)"]
    by (cases "unban fb (parse_ip (trim_space raw)) b"; cases "fst (unban fb (parse_ip (trim_space raw)) b)") (auto simp: Let_def)
qed simp

definition lifted_upto :: "string list \<Rightarrow> ban_store \<Rightarrow> admin_reply option \<times> ban_store \<Rightarrow> string list \<Rightarrow> string list \<Rightarrow> bool" where
  "lifted_upto ips b out lifted rest \<longleftrightarrow> ips = lifted @ rest \<and> (fst out = None \<longleftrightarrow> rest = []) \<and>
     (\<forall>e. fst out = Some e \<longrightarrow> reply_code e = 400) \<and>
     (\<forall>raw \<in> set lifted. named_ip raw \<noteq> [] \<and> (\<forall>t. \<not> blocked (named_ip raw) t (snd out))) \<and>
     (\<forall>k. k \<noteq> [] \<and> k \<notin> (ip_key \<circ> named_ip) ` set (lifted @ take 1 rest) \<longrightarrow> view k (snd out) = view k b)"

lemma lifted_upto_stop:
  assumes "reply_code e = 400" "\<And>k. k \<noteq> [] \<Longrightarrow> k \<noteq> ip_key (named_ip raw) \<Longrightarrow> view k b1 = view k b"
  shows "lifted_upto (raw # rest) b (Some e, b1) [] (raw # rest)"
  using assms by (simp add: lifted_upto_def)

lemma lifted_upto_step:
  assumes "lifted_upto rest b1 out ls rest'" "named_ip raw \<noteq> []" "\<And>t. \<not> blocked (named_ip raw) t (snd out)"
    "\<And>k. k \<noteq> [] \<Longrightarrow> k \<noteq> ip_key (named_ip raw) \<Longrightarrow> view k b1 = view k b"
  shows "lifted_upto (raw # rest) b out (raw # ls) rest'"
  using assms unfolding lifted_upto_def by simp

lemma unban_loop_cases:
  "unban_loop fb (raw # rest) b =
    (if named_ip raw = [] then (Some (AInvalidIP raw), b)
     else case unban fb (named_ip raw) b of (Inl e, b1) \<Rightarrow> (Some (AUnbanError e), b1) | (Inr _, b1) \<Rightarrow> unban_loop fb rest b1)"
  by (simp add: named_ip_def Let_def)

lemma unban_loop_spec: "\<exists>lifted rest. lifted_upto ips b (unban_loop fb ips b) lifted rest"
proof (induction ips arbitrary: b)
  case Nil
  show ?case by (intro exI [of _ "[]"]) (simp add: lifted_upto_def)
next
  case (Cons raw rest)
  obtain res b1 where u: "unban fb (named_ip raw) b = (res, b1)" by fastforce
  have other: "view k b1 = view k b" if "k \<noteq> []" "k \<noteq> ip_key (named_ip raw)" for k
    using unban_other [OF that, of fb b] u by simp
  show ?case
  proof (cases "named_ip raw = []")
    case True
    then have "unban_loop fb (raw # rest) b = (Some (AInvalidIP raw), b)" unfolding unban_loop_cases by simp
    then show ?thesis using lifted_upto_stop [of "AInvalidIP raw" raw b b rest] by auto
  next
    case n: False
    show ?thesis
    proof (cases res)
      case (Inl e)
      then have "unban_loop fb (raw # rest) b = (Some (AUnbanError e), b1)" unfolding unban_loop_cases using n u by simp
      then show ?thesis using lifted_upto_stop [of "AUnbanError e" raw b1 b rest] other by auto
    next
      case (Inr z)
      then have l: "unban_loop fb (raw # rest) b = unban_loop fb rest b1" unfolding unban_loop_cases using n u by simp
      have k: "ip_key (named_ip raw) \<noteq> []" "snd (view (ip_key (named_ip raw)) b1) = None"
        using unban_Inr [of fb "named_ip raw" b] u Inr by auto
      have "\<not> blocked (named_ip raw) t (snd (unban_loop fb rest b1))" for t
        using loop_keeps_none [OF k] by (simp add: blocked_view rec_blocked_def)
      moreover obtain ls rest' where "lifted_upto rest b1 (unban_loop fb rest b1) ls rest'" using Cons.IH by blast
      ultimately show ?thesis unfolding l using lifted_upto_step [OF _ n _ other] by blast
    qed
  qed
qed

text \<open>
Lifting bans stops at the first bad address. A DELETE on the denylist that names addresses works through them in order: it is answered 200 if and only if all of them were lifted, and else 400, with those before the first bad one lifted all the same. Lifted addresses are banned at no time, and the pardon and the record of every address that was not reached are as before.
\<close>

theorem denylist_delete_effect:
  assumes "denylist_ips dec r = Inr ips" "ips \<noteq> []" "denylist_delete dec fb now r b = (rep, b')"
  shows "\<exists>lifted rest. ips = lifted @ rest \<and> reply_code rep = (if rest = [] then 200 else 400) \<and>
     (\<forall>raw \<in> set lifted. named_ip raw \<noteq> [] \<and> (\<forall>t. \<not> blocked (named_ip raw) t b')) \<and>
     (\<forall>k. k \<noteq> [] \<and> k \<notin> (ip_key \<circ> named_ip) ` set (lifted @ take 1 rest) \<longrightarrow> view k b' = view k b)"
proof -
  have "b' = snd (unban_loop fb ips b)"
    "rep = (case fst (unban_loop fb ips b) of None \<Rightarrow> ADenied (ban_list now b') | Some e \<Rightarrow> e)"
    using assms by (auto simp: denylist_delete_def split: prod.splits option.splits)
  moreover obtain lifted rest where "lifted_upto ips b (unban_loop fb ips b) lifted rest" using unban_loop_spec by blast
  then have s: "ips = lifted @ rest" "fst (unban_loop fb ips b) = None \<longleftrightarrow> rest = []" "\<forall>e. fst (unban_loop fb ips b) = Some e \<longrightarrow> reply_code e = 400"
    "\<forall>raw \<in> set lifted. named_ip raw \<noteq> [] \<and> (\<forall>t. \<not> blocked (named_ip raw) t (snd (unban_loop fb ips b)))"
    "\<forall>k. k \<noteq> [] \<and> k \<notin> (ip_key \<circ> named_ip) ` set (lifted @ take 1 rest) \<longrightarrow> view k (snd (unban_loop fb ips b)) = view k b"
    unfolding lifted_upto_def by blast+
  ultimately have "reply_code rep = (if rest = [] then 200 else 400)"
    by (cases "fst (unban_loop fb ips b)") simp_all
  then show ?thesis
    unfolding \<open>b' = snd (unban_loop fb ips b)\<close> using s(1,4,5) by blast
qed

theorem denylist_delete_effect_witness:
  "let r = (example_request ''DELETE'' ''/v1/denylist'' ''Bearer s'')\<lparr>aq_ips := [''10.0.0.9'', ''junk'']\<rparr> in
   \<exists>lifted rest. [''10.0.0.9'', ''junk''] = lifted @ rest \<and>
     reply_code (fst (denylist_delete (\<lambda>_. None) None 7 r (ban_new [] \<lparr>target = Absent, temps = []\<rparr>))) = (if rest = [] then 200 else 400)"
proof -
  let ?r = "(example_request ''DELETE'' ''/v1/denylist'' ''Bearer s'')\<lparr>aq_ips := [''10.0.0.9'', ''junk'']\<rparr>"
  have "denylist_ips (\<lambda>_. None) ?r = Inr [''10.0.0.9'', ''junk'']" by (simp add: denylist_ips_def example_request_def)
  from denylist_delete_effect [OF this _ prod.collapse [symmetric], of None 7 "ban_new [] \<lparr>target = Absent, temps = []\<rparr>"] show ?thesis
    unfolding Let_def by blast
qed

end
