(* ===== verification/Relay.thy ===== *)
theory Relay
  imports Conn "HOL-Library.Sublist"
begin

text \<open>
  \<open>internal/proxy/tcp.go\<close>: the relay between a client connection and a tunnel stream, two copying
  goroutines that stop together.

  The relay is a step relation. Its own steps are one turn of either loop and the two receives of
  \<open>Relay\<close>; the steps of its environment are the peers, who send and end their streams, and time.
  Read results are taken from what has arrived, in pieces of any size up to the buffer; a write may
  fail after any part of a piece.
\<close>

definition copyBufSize :: nat where
  "copyBufSize = 32768"

section \<open>One direction\<close>

text \<open>Why a loop ended, with the error it returned.\<close>

datatype stop = SourceEnd io_error | WriteFailed io_error | IdleExpired | CutOff io_error

fun stop_error :: "stop \<Rightarrow> io_error" where
  "stop_error (SourceEnd e) = e"
| "stop_error (WriteFailed e) = e"
| "stop_error IdleExpired = Timeout"
| "stop_error (CutOff e) = e"

text \<open>\<open>pp_sent\<close> is everything the peer of the source has sent, \<open>pp_unread\<close> what was not read yet,
  \<open>pp_src\<close> the error after it once the peer has ended, \<open>pp_out\<close> what was written.\<close>

record pipe =
  pp_sent :: bytes
  pp_unread :: bytes
  pp_src :: "io_error option"
  pp_out :: bytes
  pp_deadline :: "int option"
  pp_end :: "stop option"

definition read_deadline :: "int \<Rightarrow> int \<Rightarrow> int option" where
  "read_deadline idle now = (if idle > 0 then Some (now + idle) else None)"

text \<open>A turn of \<open>pipe\<close>: a piece is copied; a piece that comes with the error is copied and ends the
  loop; a write fails; the source ends; the deadline passes; the source was closed.\<close>

inductive pipe_step :: "int \<Rightarrow> int \<Rightarrow> bool \<Rightarrow> pipe \<Rightarrow> pipe \<Rightarrow> bool" for idle now shut where
  pipe_copy: "pipe_step idle now shut p
     (p\<lparr>pp_unread := drop n (pp_unread p), pp_out := pp_out p @ take n (pp_unread p), pp_deadline := read_deadline idle now\<rparr>)"
    if "pp_end p = None" "\<not> shut" "0 < n" "n \<le> copyBufSize" "n \<le> length (pp_unread p)"
| pipe_last: "pipe_step idle now shut p
     (p\<lparr>pp_unread := [], pp_out := pp_out p @ pp_unread p, pp_end := Some (SourceEnd e)\<rparr>)"
    if "pp_end p = None" "\<not> shut" "length (pp_unread p) \<le> copyBufSize" "pp_src p = Some e"
| pipe_write: "pipe_step idle now shut p
     (p\<lparr>pp_unread := drop n (pp_unread p), pp_out := pp_out p @ take k (pp_unread p), pp_end := Some (WriteFailed e)\<rparr>)"
    if "pp_end p = None" "0 < n" "n \<le> copyBufSize" "n \<le> length (pp_unread p)" "k \<le> n" "shut \<longrightarrow> k = 0"
| pipe_idle: "pipe_step idle now shut p (p\<lparr>pp_end := Some IdleExpired\<rparr>)"
    if "pp_end p = None" "pp_unread p = []" "pp_deadline p = Some d" "d \<le> now"
| pipe_cut: "pipe_step idle now shut p (p\<lparr>pp_end := Some (CutOff e)\<rparr>)"
    if "pp_end p = None" "shut"

inductive_cases pipe_stepE: "pipe_step idle now shut p p'"

section \<open>The relay\<close>

datatype side = SideA | SideB

text \<open>\<open>rl_pipe s d\<close> copies what is read from side \<open>d\<close>; \<open>rl_errc\<close> is the channel, \<open>rl_first\<close> the first
  error received, \<open>rl_result\<close> what \<open>Relay\<close> returned (\<open>Some None\<close>: nil).\<close>

record relay =
  rl_pipe :: "side \<Rightarrow> pipe"
  rl_now :: int
  rl_errc :: "io_error list"
  rl_first :: "io_error option"
  rl_shut :: bool
  rl_result :: "io_error option option"

definition new_pipe :: "int \<Rightarrow> int \<Rightarrow> pipe" where
  "new_pipe idle now =
     \<lparr>pp_sent = [], pp_unread = [], pp_src = None, pp_out = [], pp_deadline = read_deadline idle now, pp_end = None\<rparr>"

definition relay_start :: "int \<Rightarrow> int \<Rightarrow> relay" where
  "relay_start idle now =
     \<lparr>rl_pipe = (\<lambda>d. new_pipe idle now), rl_now = now, rl_errc = [], rl_first = None, rl_shut = False, rl_result = None\<rparr>"

text \<open>The goroutine of side \<open>d\<close> after a turn: the error of an ended loop is sent.\<close>

definition with_pipe :: "side \<Rightarrow> pipe \<Rightarrow> relay \<Rightarrow> relay" where
  "with_pipe d p s = s\<lparr>rl_pipe := (rl_pipe s)(d := p),
     rl_errc := rl_errc s @ (case pp_end p of None \<Rightarrow> [] | Some w \<Rightarrow> [stop_error w])\<rparr>"

inductive relay_own :: "int \<Rightarrow> relay \<Rightarrow> relay \<Rightarrow> bool" for idle where
  own_pipe: "relay_own idle s (with_pipe d p s)" if "pipe_step idle (rl_now s) (rl_shut s) (rl_pipe s d) p"
| own_first: "relay_own idle s (s\<lparr>rl_first := Some e, rl_errc := es, rl_shut := True\<rparr>)"
    if "rl_first s = None" "rl_errc s = e # es"
| own_second: "relay_own idle s (s\<lparr>rl_errc := es, rl_result := Some (if e = EOF then None else Some e)\<rparr>)"
    if "rl_first s = Some e" "rl_result s = None" "rl_errc s = x # es"

definition arrive :: "side \<Rightarrow> bytes \<Rightarrow> relay \<Rightarrow> relay" where
  "arrive d b s = (let p = rl_pipe s d in
     s\<lparr>rl_pipe := (rl_pipe s)(d := p\<lparr>pp_sent := pp_sent p @ b, pp_unread := pp_unread p @ b\<rparr>)\<rparr>)"

definition hang_up :: "side \<Rightarrow> io_error \<Rightarrow> relay \<Rightarrow> relay" where
  "hang_up d e s = s\<lparr>rl_pipe := (rl_pipe s)(d := (rl_pipe s d)\<lparr>pp_src := Some e\<rparr>)\<rparr>"

inductive relay_env :: "relay \<Rightarrow> relay \<Rightarrow> bool" where
  peer_sends: "relay_env s (arrive d b s)" if "pp_src (rl_pipe s d) = None"
| peer_ends: "relay_env s (hang_up d e s)" if "pp_src (rl_pipe s d) = None"
| time_passes: "relay_env s (s\<lparr>rl_now := rl_now s + dt\<rparr>)" if "0 < dt"

inductive_cases relay_ownE: "relay_own idle s s'"
inductive_cases relay_envE: "relay_env s s'"

inductive relay_reach :: "int \<Rightarrow> int \<Rightarrow> relay \<Rightarrow> bool" for idle t0 where
  reach_start: "relay_reach idle t0 (relay_start idle t0)"
| reach_own: "relay_reach idle t0 s'" if "relay_reach idle t0 s" "relay_own idle s s'"
| reach_env: "relay_reach idle t0 s'" if "relay_reach idle t0 s" "relay_env s s'"

section \<open>The bytes of one direction\<close>

definition own_stop :: "stop \<Rightarrow> bool" where
  "own_stop w \<longleftrightarrow> (case w of CutOff e \<Rightarrow> False | _ \<Rightarrow> True)"

definition accounted :: "pipe \<Rightarrow> bool" where
  "accounted p \<longleftrightarrow> (\<exists>lost. pp_sent p = pp_out p @ lost @ pp_unread p \<and> (pp_end p = None \<longrightarrow> lost = []))"

definition all_copied :: "pipe \<Rightarrow> bool" where
  "all_copied p \<longleftrightarrow> pp_out p = pp_sent p"

definition pipe_inv :: "int \<Rightarrow> bool \<Rightarrow> pipe \<Rightarrow> bool" where
  "pipe_inv idle shut p \<longleftrightarrow>
     accounted p \<and> (\<forall>e. pp_end p = Some (SourceEnd e) \<longrightarrow> all_copied p \<and> pp_src p = Some e) \<and>
     (\<forall>w. pp_end p = Some w \<and> \<not> own_stop w \<longrightarrow> shut) \<and>
     (idle \<le> 0 \<longrightarrow> pp_deadline p = None \<and> pp_end p \<noteq> Some IdleExpired)"

lemma running_accounted: "accounted p \<Longrightarrow> pp_end p = None \<Longrightarrow> pp_sent p = pp_out p @ pp_unread p"
  by (auto simp: accounted_def)

lemma pipe_step_inv:
  assumes "pipe_step idle now shut p p'" "pipe_inv idle shut p"
  shows "pipe_inv idle shut p'"
proof -
  have s: "pp_sent p = pp_out p @ pp_unread p" if "pp_end p = None"
    using running_accounted [OF _ that] assms(2) by (simp add: pipe_inv_def)
  show ?thesis
    using assms
  proof (cases rule: pipe_step.cases)
    case (pipe_write n k e)
    have "take k (pp_unread p) @ drop k (take n (pp_unread p)) = take n (pp_unread p)"
      using append_take_drop_id [of k "take n (pp_unread p)"] pipe_write by (simp add: min_def)
    then have "pp_sent p = (pp_out p @ take k (pp_unread p)) @ drop k (take n (pp_unread p)) @ drop n (pp_unread p)"
      using s pipe_write(2) by (metis append.assoc append_take_drop_id)
    then have "accounted p'" unfolding pipe_write(1) accounted_def by (intro exI [of _ "drop k (take n (pp_unread p))"]) simp
    then show ?thesis using assms(2) unfolding pipe_write(1) pipe_inv_def by (auto simp: own_stop_def)
  qed (auto simp: pipe_inv_def accounted_def all_copied_def own_stop_def read_deadline_def s)
qed

lemma pipe_step_running: "pipe_step idle now shut p p' \<Longrightarrow> pp_end p = None"
  by (auto elim: pipe_stepE)

lemma pipe_step_shut: "pipe_step idle now True p p' \<Longrightarrow> pp_end p' \<noteq> None"
  by (auto elim: pipe_stepE)

section \<open>Both directions\<close>

definition ended :: "side \<Rightarrow> relay \<Rightarrow> nat" where
  "ended d s = (if pp_end (rl_pipe s d) = None then 0 else 1)"

definition cause :: "io_error \<Rightarrow> relay \<Rightarrow> bool" where
  "cause e s \<longleftrightarrow> (\<exists>d w. pp_end (rl_pipe s d) = Some w \<and> own_stop w \<and> stop_error w = e)"

definition relay_inv :: "int \<Rightarrow> relay \<Rightarrow> bool" where
  "relay_inv idle s \<longleftrightarrow>
     (\<forall>d. pipe_inv idle (rl_shut s) (rl_pipe s d)) \<and>
     (rl_shut s \<longleftrightarrow> rl_first s \<noteq> None) \<and>
     (rl_first s = None \<longrightarrow> (\<forall>e \<in> set (rl_errc s). cause e s)) \<and>
     (\<forall>e. rl_first s = Some e \<longrightarrow> cause e s) \<and>
     (\<forall>r. rl_result s = Some r \<longrightarrow> (\<exists>e. rl_first s = Some e \<and> r = (if e = EOF then None else Some e))) \<and>
     length (rl_errc s) + (if rl_first s = None then 0 else 1) + (if rl_result s = None then 0 else 1) = ended SideA s + ended SideB s"

lemma relay_inv_pipe: "relay_inv idle s \<Longrightarrow> pipe_inv idle (rl_shut s) (rl_pipe s d)"
  unfolding relay_inv_def by blast

lemma with_pipe_sel [simp]:
  "rl_pipe (with_pipe d p s) = (rl_pipe s)(d := p)" "rl_now (with_pipe d p s) = rl_now s" "rl_first (with_pipe d p s) = rl_first s"
  "rl_shut (with_pipe d p s) = rl_shut s" "rl_result (with_pipe d p s) = rl_result s"
  "rl_errc (with_pipe d p s) = rl_errc s @ (case pp_end p of None \<Rightarrow> [] | Some w \<Rightarrow> [stop_error w])"
  by (simp_all add: with_pipe_def)

lemma pipe_inv_shut: "pipe_inv idle shut p \<Longrightarrow> pipe_inv idle True p"
  by (auto simp: pipe_inv_def)

lemma cause_keep:
  assumes "cause e s" "pp_end (rl_pipe s d) = None"
  shows "cause e (with_pipe d p s)"
proof -
  obtain d' w where w: "pp_end (rl_pipe s d') = Some w" "own_stop w" "stop_error w = e" using assms(1) by (auto simp: cause_def)
  then have "d' \<noteq> d" using assms(2) by auto
  then show ?thesis using w unfolding cause_def by (intro exI [of _ d'] exI [of _ w]) simp
qed

lemma ended_with: "pp_end (rl_pipe s d) = None \<Longrightarrow>
  ended SideA (with_pipe d p s) + ended SideB (with_pipe d p s) = ended SideA s + ended SideB s + (if pp_end p = None then 0 else 1)"
  by (cases d) (simp_all add: ended_def)

lemma own_inv:
  assumes "relay_own idle s s'" "relay_inv idle s"
  shows "relay_inv idle s'"
  using assms(1)
proof (cases rule: relay_own.cases)
  case (own_pipe d p)
  have r: "pp_end (rl_pipe s d) = None" using pipe_step_running [OF own_pipe(2)] .
  have i: "pipe_inv idle (rl_shut s) p" using pipe_step_inv [OF own_pipe(2)] relay_inv_pipe [OF assms(2)] by blast
  have new: "cause (stop_error w) (with_pipe d p s)" if "pp_end p = Some w" "own_stop w" for w
    using that unfolding cause_def by (intro exI [of _ d] exI [of _ w]) simp
  have "\<forall>e \<in> set (rl_errc (with_pipe d p s)). cause e (with_pipe d p s)" if f: "rl_first s = None"
  proof -
    have "own_stop w" if "pp_end p = Some w" for w using that i f assms(2) by (auto simp: pipe_inv_def relay_inv_def)
    then show ?thesis using f assms(2) new cause_keep [OF _ r] by (auto simp: relay_inv_def split: option.splits)
  qed
  moreover have "length (rl_errc (with_pipe d p s)) = length (rl_errc s) + (if pp_end p = None then 0 else 1)"
    by (simp split: option.split)
  ultimately show ?thesis
    using assms(2) i cause_keep [OF _ r] ended_with [OF r, of p] unfolding own_pipe(1) relay_inv_def by auto
next
  case (own_first e es)
  have c: "cause x (s\<lparr>rl_first := f, rl_errc := q, rl_shut := b\<rparr>) = cause x s" for x f q b by (simp add: cause_def)
  have n: "ended d (s\<lparr>rl_first := f, rl_errc := q, rl_shut := b\<rparr>) = ended d s" for d f q b by (simp add: ended_def)
  show ?thesis
    using assms(2) own_first(2,3) unfolding own_first(1) relay_inv_def c n by (auto intro: pipe_inv_shut)
next
  case (own_second e x es)
  have c: "cause y (s\<lparr>rl_errc := q, rl_result := f\<rparr>) = cause y s" for y f q by (simp add: cause_def)
  have n: "ended d (s\<lparr>rl_errc := q, rl_result := f\<rparr>) = ended d s" for d f q by (simp add: ended_def)
  show ?thesis
    using assms(2) own_second(2-4) unfolding own_second(1) relay_inv_def c n by (simp split: if_splits) metis
qed

lemma env_frame:
  "relay_env s s' \<Longrightarrow> rl_shut s' = rl_shut s \<and> rl_first s' = rl_first s \<and> rl_errc s' = rl_errc s \<and> rl_result s' = rl_result s \<and>
     pp_end (rl_pipe s' d) = pp_end (rl_pipe s d)"
  by (erule relay_env.cases) (auto simp: arrive_def hang_up_def Let_def)

lemma pipe_inv_arrive:
  assumes "pipe_inv idle shut p" "pp_src p = None"
  shows "pipe_inv idle shut (p\<lparr>pp_sent := pp_sent p @ b, pp_unread := pp_unread p @ b\<rparr>)"
    and "pipe_inv idle shut (p\<lparr>pp_src := Some e\<rparr>)"
proof -
  have n: "pp_end p \<noteq> Some (SourceEnd x)" for x using assms by (auto simp: pipe_inv_def)
  have "accounted (p\<lparr>pp_src := Some e\<rparr>) = accounted p" by (simp add: accounted_def)
  then show "pipe_inv idle shut (p\<lparr>pp_src := Some e\<rparr>)" using assms(1) n by (simp add: pipe_inv_def)
  have "accounted p" using assms(1) by (simp add: pipe_inv_def)
  then obtain lost where "pp_sent p = pp_out p @ lost @ pp_unread p \<and> (pp_end p = None \<longrightarrow> lost = [])" unfolding accounted_def ..
  then have "accounted (p\<lparr>pp_sent := pp_sent p @ b, pp_unread := pp_unread p @ b\<rparr>)"
    unfolding accounted_def by (intro exI [of _ lost]) simp
  then show "pipe_inv idle shut (p\<lparr>pp_sent := pp_sent p @ b, pp_unread := pp_unread p @ b\<rparr>)"
    using assms(1) n by (simp add: pipe_inv_def)
qed

lemma env_pipe_inv:
  assumes "relay_env s s'" "\<And>d. pipe_inv idle shut (rl_pipe s d)"
  shows "pipe_inv idle shut (rl_pipe s' d)"
  using assms(1)
proof (cases rule: relay_env.cases)
  case (peer_sends x b)
  then show ?thesis using assms(2) pipe_inv_arrive(1) by (simp add: arrive_def Let_def)
next
  case (peer_ends x e)
  then show ?thesis using assms(2) pipe_inv_arrive(2) by (simp add: hang_up_def)
qed (simp add: assms(2))

lemma env_inv:
  assumes "relay_env s s'" "relay_inv idle s"
  shows "relay_inv idle s'"
proof -
  note f = env_frame [OF assms(1)]
  have k: "cause e s' = cause e s" "ended d s' = ended d s" for e d using f by (simp_all add: cause_def ended_def)
  have "\<forall>d. pipe_inv idle (rl_shut s') (rl_pipe s' d)"
    using env_pipe_inv [OF assms(1) relay_inv_pipe [OF assms(2)]] f by simp
  then show ?thesis using assms(2) f unfolding relay_inv_def k by simp
qed

lemma start_inv: "relay_inv idle (relay_start idle t0)"
  by (simp add: relay_inv_def relay_start_def new_pipe_def accounted_def pipe_inv_def read_deadline_def ended_def)

lemma reach_inv: "relay_reach idle t0 s \<Longrightarrow> relay_inv idle s"
  by (induction rule: relay_reach.induct) (auto intro: start_inv own_inv env_inv)

section \<open>What a relay delivers\<close>

lemma inv_shut: "relay_inv idle s \<Longrightarrow> rl_shut s \<Longrightarrow> \<exists>d w. pp_end (rl_pipe s d) = Some w \<and> own_stop w"
  by (cases "rl_first s") (auto simp: relay_inv_def cause_def)

lemma inv_result:
  assumes "relay_inv idle s" "rl_result s = Some r"
  shows "rl_shut s \<and> (\<forall>d. pp_end (rl_pipe s d) \<noteq> None) \<and>
     (\<exists>d w. pp_end (rl_pipe s d) = Some w \<and> own_stop w \<and> r = (if stop_error w = EOF then None else Some (stop_error w)))"
proof -
  obtain e where e: "rl_first s = Some e" "r = (if e = EOF then None else Some e)" "cause e s" "rl_shut s"
    using assms by (auto simp: relay_inv_def)
  have "2 \<le> ended SideA s + ended SideB s" using assms e(1) by (simp add: relay_inv_def)
  then have "pp_end (rl_pipe s d) \<noteq> None" for d by (cases d) (auto simp: ended_def split: if_splits)
  then show ?thesis using e unfolding cause_def by auto
qed

text \<open>
C30: a relay delivers in order and reports the true cause. In every state that the two loops, the two peers and the passing of time can lead to, what each direction has written is a prefix of what its peer has sent, and as long as its loop runs everything else is still waiting to be read; a loop that ended because its source ended has delivered everything. The connections are closed only because a loop had ended of itself, and \<open>Relay\<close> returns only after both loops are done, with the error of a loop that ended before anything was closed, or nil if that was the end of a stream. Without an idle timeout no loop ever ends for idleness.
\<close>

theorem relay_delivers:
  assumes "relay_reach idle t0 s"
  shows "(\<forall>d. prefix (pp_out (rl_pipe s d)) (pp_sent (rl_pipe s d)) \<and>
        (pp_end (rl_pipe s d) = None \<longrightarrow> pp_sent (rl_pipe s d) = pp_out (rl_pipe s d) @ pp_unread (rl_pipe s d)) \<and>
        (\<forall>e. pp_end (rl_pipe s d) = Some (SourceEnd e) \<longrightarrow> pp_out (rl_pipe s d) = pp_sent (rl_pipe s d)) \<and>
        (idle \<le> 0 \<longrightarrow> pp_end (rl_pipe s d) \<noteq> Some IdleExpired)) \<and>
     (rl_shut s \<longrightarrow> (\<exists>d w. pp_end (rl_pipe s d) = Some w \<and> own_stop w)) \<and>
     (\<forall>r. rl_result s = Some r \<longrightarrow> rl_shut s \<and> (\<forall>d. pp_end (rl_pipe s d) \<noteq> None) \<and>
        (\<exists>d w. pp_end (rl_pipe s d) = Some w \<and> own_stop w \<and> r = (if stop_error w = EOF then None else Some (stop_error w))))"
proof -
  note i = reach_inv [OF assms]
  have "prefix (pp_out q) (pp_sent q)" if "accounted q" for q using that unfolding accounted_def by auto
  then have "prefix (pp_out (rl_pipe s d)) (pp_sent (rl_pipe s d)) \<and>
        (pp_end (rl_pipe s d) = None \<longrightarrow> pp_sent (rl_pipe s d) = pp_out (rl_pipe s d) @ pp_unread (rl_pipe s d)) \<and>
        (\<forall>e. pp_end (rl_pipe s d) = Some (SourceEnd e) \<longrightarrow> pp_out (rl_pipe s d) = pp_sent (rl_pipe s d)) \<and>
        (idle \<le> 0 \<longrightarrow> pp_end (rl_pipe s d) \<noteq> Some IdleExpired)" for d
    using relay_inv_pipe [OF i, of d] running_accounted [of "rl_pipe s d"] unfolding pipe_inv_def all_copied_def by simp
  then show ?thesis using inv_shut [OF i] inv_result [OF i] by simp
qed

text \<open>What the two goroutines and \<open>Relay\<close> still have to do before it returns.\<close>

definition pending :: "relay \<Rightarrow> nat" where
  "pending s = (2 - ended SideA s - ended SideB s) + (if rl_first s = None then 1 else 0) + (if rl_result s = None then 1 else 0)"

lemma pending_env: "relay_env s s' \<Longrightarrow> pending s' = pending s"
  using env_frame [of s s'] by (simp add: pending_def ended_def)

lemma pending_shut:
  assumes "relay_own idle s s'" "rl_shut s" "relay_inv idle s"
  shows "pending s' < pending s"
  using assms(1)
proof (cases rule: relay_own.cases)
  case (own_pipe d p)
  have "pp_end (rl_pipe s d) = None" "pp_end p \<noteq> None"
    using pipe_step_running [OF own_pipe(2)] pipe_step_shut own_pipe(2) assms(2) by auto
  then have "ended SideA s' + ended SideB s' = Suc (ended SideA s + ended SideB s)"
    using ended_with [of s d p] unfolding own_pipe(1) by simp
  moreover have "ended SideA s' + ended SideB s' \<le> 2" by (simp add: ended_def)
  ultimately show ?thesis unfolding pending_def own_pipe(1) by (simp add: with_pipe_def ended_def split: if_splits)
next
  case (own_first e es)
  then show ?thesis using assms(2,3) by (simp add: relay_inv_def)
next
  case (own_second e x es)
  then show ?thesis unfolding pending_def own_second(1) by (simp add: ended_def)
qed

lemma relay_can_step:
  assumes "relay_inv idle s" "pp_end (rl_pipe s d) \<noteq> None" "rl_result s = None"
  shows "\<exists>s'. relay_own idle s s'"
proof (cases "rl_first s")
  case None
  have "ended d s = 1" using assms(2) by (simp add: ended_def)
  then have "0 < ended SideA s + ended SideB s" by (cases d) simp_all
  then have "rl_errc s \<noteq> []" using assms(1,3) None by (auto simp: relay_inv_def)
  then obtain e es where "rl_errc s = e # es" by (cases "rl_errc s") auto
  then show ?thesis using own_first [OF None] by blast
next
  case (Some e)
  show ?thesis
  proof (cases "rl_errc s")
    case Nil
    then have "ended SideA s + ended SideB s = 1" using assms(1,3) Some by (simp add: relay_inv_def)
    then obtain d' where "pp_end (rl_pipe s d') = None" by (auto simp: ended_def split: if_splits)
    moreover have "rl_shut s" using assms(1) Some by (simp add: relay_inv_def)
    ultimately show ?thesis using own_pipe [OF pipe_cut] by blast
  next
    case (Cons x es)
    then show ?thesis using own_second [OF Some assms(3)] by blast
  qed
qed

text \<open>
C31: a relay ends. Once one loop has ended the relay can always go on until \<open>Relay\<close> has returned, whatever the peers do; and once the connections are closed each of its steps brings the return nearer and none of the peers' steps puts it off, so at most three steps are left: the other loop cannot copy on.
\<close>

theorem relay_ends:
  assumes "relay_reach idle t0 s" "pp_end (rl_pipe s d) \<noteq> None" "rl_result s = None"
  shows "(\<exists>s'. relay_own idle s s') \<and>
     (rl_shut s \<longrightarrow> pending s \<le> 2 \<and> (\<forall>s'. relay_own idle s s' \<longrightarrow> pending s' < pending s) \<and> (\<forall>s'. relay_env s s' \<longrightarrow> pending s' = pending s)) \<and>
     (\<forall>s'. pending s' = 0 \<longrightarrow> rl_result s' \<noteq> None)"
proof -
  note i = reach_inv [OF assms(1)]
  have "ended d s = 1" using assms(2) by (simp add: ended_def)
  then have "1 \<le> ended SideA s + ended SideB s" by (cases d) simp_all
  moreover have "rl_shut s \<Longrightarrow> rl_first s \<noteq> None" using i by (simp add: relay_inv_def)
  ultimately have "rl_shut s \<Longrightarrow> pending s \<le> 2" using assms(3) by (auto simp: pending_def)
  then show ?thesis
    using relay_can_step [OF i assms(2,3)] pending_shut [OF _ _ i] pending_env by (auto simp: pending_def)
qed

section \<open>Examples\<close>

text \<open>A client sends a byte and ends its stream; the service has answered with two bytes by then.\<close>

definition half_closed :: relay where
  "half_closed = (let s = relay_start 0 7; a = rl_pipe s SideA; b = rl_pipe s SideB in
     s\<lparr>rl_pipe := (rl_pipe s)(SideA := a\<lparr>pp_sent := [1], pp_out := [1], pp_src := Some EOF, pp_end := Some (SourceEnd EOF)\<rparr>,
                              SideB := b\<lparr>pp_sent := [2, 3], pp_unread := [2, 3]\<rparr>), rl_errc := [EOF]\<rparr>)"

lemma half_closed_reach: "relay_reach 0 7 half_closed"
proof -
  let ?s1 = "arrive SideA [1] (relay_start 0 7)"
  let ?s2 = "arrive SideB [2, 3] ?s1"
  let ?s3 = "hang_up SideA EOF ?s2"
  let ?p = "(rl_pipe ?s3 SideA)\<lparr>pp_unread := [], pp_out := pp_out (rl_pipe ?s3 SideA) @ pp_unread (rl_pipe ?s3 SideA), pp_end := Some (SourceEnd EOF)\<rparr>"
  note d = arrive_def hang_up_def relay_start_def new_pipe_def Let_def
  have "relay_env (relay_start 0 7) ?s1" by (rule peer_sends) (simp add: d)
  moreover have "relay_env ?s1 ?s2" by (rule peer_sends) (simp add: d)
  moreover have "relay_env ?s2 ?s3" by (rule peer_ends) (simp add: d)
  moreover have "pipe_step 0 (rl_now ?s3) (rl_shut ?s3) (rl_pipe ?s3 SideA) ?p"
    by (rule pipe_last) (simp_all add: d copyBufSize_def)
  ultimately have "relay_reach 0 7 (with_pipe SideA ?p ?s3)"
    using reach_own [OF _ own_pipe] reach_env [OF reach_env [OF reach_env [OF reach_start]]] by blast
  moreover have "with_pipe SideA ?p ?s3 = half_closed"
    by (simp add: with_pipe_def half_closed_def d read_deadline_def fun_upd_twist)
  ultimately show ?thesis by simp
qed

theorem relay_delivers_witness:
  "prefix (pp_out (rl_pipe half_closed SideB)) (pp_sent (rl_pipe half_closed SideB)) \<and>
   pp_out (rl_pipe half_closed SideA) = pp_sent (rl_pipe half_closed SideA)"
proof -
  have "pp_end (rl_pipe half_closed SideA) = Some (SourceEnd EOF)" by (simp add: half_closed_def Let_def)
  then show ?thesis using relay_delivers [OF half_closed_reach] by blast
qed

theorem relay_ends_witness: "\<exists>s'. relay_own 0 half_closed s'"
proof -
  have "pp_end (rl_pipe half_closed SideA) \<noteq> None" "rl_result half_closed = None"
    by (simp_all add: half_closed_def Let_def relay_start_def)
  from relay_ends [OF half_closed_reach this] show ?thesis by blast
qed

text \<open>A half-closed stream loses its answer: both connections are closed at the end of either stream,
  so the two bytes are never written, and the relay returns nil.\<close>

theorem half_close_loses_answer:
  "\<exists>s. relay_reach 0 7 s \<and> rl_result s = Some None \<and> pp_sent (rl_pipe s SideB) = [2, 3] \<and> pp_out (rl_pipe s SideB) = []"
proof -
  let ?s1 = "half_closed\<lparr>rl_first := Some EOF, rl_errc := [], rl_shut := True\<rparr>"
  let ?p = "(rl_pipe ?s1 SideB)\<lparr>pp_end := Some (CutOff (NetErr ''closed''))\<rparr>"
  let ?s2 = "with_pipe SideB ?p ?s1"
  let ?s3 = "?s2\<lparr>rl_errc := [], rl_result := Some (if EOF = EOF then None else Some EOF)\<rparr>"
  have f: "rl_first half_closed = None" "rl_errc half_closed = [EOF]" "rl_result half_closed = None" "pp_end (rl_pipe half_closed SideB) = None"
    "pp_sent (rl_pipe half_closed SideB) = [2, 3]" "pp_out (rl_pipe half_closed SideB) = []"
    by (simp_all add: half_closed_def Let_def relay_start_def new_pipe_def)
  have "relay_reach 0 7 ?s1" using half_closed_reach own_first [OF f(1,2)] by (rule reach_own)
  moreover have "relay_own 0 ?s1 ?s2" by (rule own_pipe, rule pipe_cut) (simp_all add: f)
  moreover have "relay_own 0 ?s2 ?s3" by (rule own_second) (simp_all add: f)
  ultimately have "relay_reach 0 7 ?s3" by (blast intro: reach_own)
  then show ?thesis using f by (intro exI [of _ ?s3]) simp
qed

end
