(* ===== verification/Certs.thy ===== *)
theory Certs
  imports ConfigLoad
begin

text \<open>
  Certificates, \<open>internal/tlsutil/cert.go\<close>: loading or generating the certificate of Edge, and the
  TLS client of the Agent with the name it checks.

  Keys, signatures, PEM and X.509 are the Go library's: \<open>sign\<close> turns a template into the two PEM
  texts, \<open>pair\<close> makes a certificate of them, \<open>x509 roots name chain\<close> is the verification of a chain,
  \<open>roots = None\<close> the roots of the system. A TLS connection accepts a chain by the documented rule of
  \<open>crypto/tls\<close>.
\<close>

definition ALPN :: string where
  "ALPN = ''faketunnel/1''"

section \<open>Generating\<close>

record cert_template =
  ct_ips :: "ip list"
  ct_dns :: "string list"
  ct_not_before :: int
  ct_not_after :: int

definition default_hosts :: "string list" where
  "default_hosts = [''localhost'', ''127.0.0.1'', ''::1'']"

definition add_host :: "string \<Rightarrow> cert_template \<Rightarrow> cert_template" where
  "add_host h t =
     (let i = parse_ip h in
      if i \<noteq> [] then t\<lparr>ct_ips := ct_ips t @ [i]\<rparr> else t\<lparr>ct_dns := ct_dns t @ [h]\<rparr>)"

definition generate_self_signed :: "(cert_template \<Rightarrow> (string \<times> string) option) \<Rightarrow> string list \<Rightarrow> int \<Rightarrow> int \<Rightarrow> (string \<times> string) option" where
  "generate_self_signed sign hosts0 valid0 now =
     (let valid = (if valid0 \<le> 0 then 365 * 24 * 3600 * second else valid0);
          hosts = (if hosts0 = [] then default_hosts else hosts0)
      in sign (fold add_host hosts
           \<lparr>ct_ips = [], ct_dns = [], ct_not_before = now - 3600 * second, ct_not_after = now + valid\<rparr>))"

section \<open>Loading or generating\<close>

text \<open>\<open>os.Stat\<close>; \<open>hidden\<close> are the paths it fails on for another reason than that nothing is there.\<close>

datatype stat_result = StatOk | StatAbsent | StatError

definition os_stat :: "(string \<Rightarrow> bool) \<Rightarrow> files \<Rightarrow> string \<Rightarrow> stat_result" where
  "os_stat hidden fs p = (if hidden p then StatError else if fs p = FAbsent then StatAbsent else StatOk)"

datatype cert_error =
    LoadCertFailed | CertNotFound | StatCertFailed | CertIncomplete | CertRequired | GenerateFailed | SaveCertFailed | BadPair

text \<open>The switch of \<open>LoadOrGenerate\<close>: \<open>Inr True\<close> loads, \<open>Inr False\<close> generates.\<close>

definition cert_plan :: "stat_result \<Rightarrow> stat_result \<Rightarrow> bool \<Rightarrow> cert_error + bool" where
  "cert_plan c k auto =
     (if c = StatOk \<and> k = StatOk then Inr True
      else if c = StatAbsent \<and> k = StatAbsent \<and> auto then Inr False
      else if \<not> auto then (if c = StatAbsent \<or> k = StatAbsent then Inl CertNotFound else Inl StatCertFailed)
      else if (c = StatOk) \<noteq> (k = StatOk) then Inl CertIncomplete
      else Inl StatCertFailed)"

definition load_x509_key_pair :: "(string \<Rightarrow> string \<Rightarrow> string option) \<Rightarrow> files \<Rightarrow> string \<Rightarrow> string \<Rightarrow> string option" where
  "load_x509_key_pair pair fs c k =
     (case (read_file fs c, read_file fs k) of (Inr a, Inr b) \<Rightarrow> pair a b | _ \<Rightarrow> None)"

text \<open>Writing the new pair. A fault is the operation that fails with what it leaves at the path it
  writes.\<close>

datatype cert_op = MkdirCert | MkdirKey | WriteCert | WriteKey

definition save_pair :: "(cert_op \<times> file_state) option \<Rightarrow> string \<Rightarrow> string \<Rightarrow> string \<Rightarrow> string \<Rightarrow> files \<Rightarrow> bool \<times> files" where
  "save_pair flt cp kp c k fs =
     (case flt of
        None \<Rightarrow> (True, fs(cp := FText c, kp := FText k))
      | Some (WriteCert, left_) \<Rightarrow> (False, fs(cp := left_))
      | Some (WriteKey, left_) \<Rightarrow> (False, fs(cp := FText c, kp := left_))
      | Some _ \<Rightarrow> (False, fs))"

definition x509_key_pair :: "(string \<Rightarrow> string \<Rightarrow> string option) \<Rightarrow> string \<Rightarrow> string \<Rightarrow> cert_error + string" where
  "x509_key_pair pair c k = (case pair c k of None \<Rightarrow> Inl BadPair | Some x \<Rightarrow> Inr x)"

definition generate_pair ::
  "(cert_template \<Rightarrow> (string \<times> string) option) \<Rightarrow> (string \<Rightarrow> string \<Rightarrow> string option) \<Rightarrow> (cert_op \<times> file_state) option \<Rightarrow> int
   \<Rightarrow> string \<Rightarrow> string \<Rightarrow> string list \<Rightarrow> files \<Rightarrow> (cert_error + string) \<times> files" where
  "generate_pair sign pair flt now cp kp hosts fs =
     (case generate_self_signed sign hosts 0 now of
        None \<Rightarrow> (Inl GenerateFailed, fs)
      | Some (c, k) \<Rightarrow>
          if cp \<noteq> [] \<and> kp \<noteq> [] then
            (case save_pair flt cp kp c k fs of
               (False, fs') \<Rightarrow> (Inl SaveCertFailed, fs')
             | (True, fs') \<Rightarrow> (x509_key_pair pair c k, fs'))
          else (x509_key_pair pair c k, fs))"

definition load_or_generate ::
  "(cert_template \<Rightarrow> (string \<times> string) option) \<Rightarrow> (string \<Rightarrow> string \<Rightarrow> string option) \<Rightarrow> (string \<Rightarrow> bool) \<Rightarrow> (cert_op \<times> file_state) option \<Rightarrow> int
   \<Rightarrow> string \<Rightarrow> string \<Rightarrow> bool \<Rightarrow> string list \<Rightarrow> files \<Rightarrow> (cert_error + string) \<times> files" where
  "load_or_generate sign pair hidden flt now cp kp auto hosts fs =
     (if cp \<noteq> [] \<and> kp \<noteq> [] then
        (case cert_plan (os_stat hidden fs cp) (os_stat hidden fs kp) auto of
           Inl e \<Rightarrow> (Inl e, fs)
         | Inr True \<Rightarrow> (case load_x509_key_pair pair fs cp kp of None \<Rightarrow> (Inl LoadCertFailed, fs) | Some x \<Rightarrow> (Inr x, fs))
         | Inr False \<Rightarrow> generate_pair sign pair flt now cp kp hosts fs)
      else if \<not> auto then (Inl CertRequired, fs)
      else generate_pair sign pair flt now cp kp hosts fs)"

section \<open>The TLS client\<close>

text \<open>\<open>tc_verify\<close> is the name and the roots of a \<open>VerifyConnection\<close> that \<open>DialConfig\<close> installs.\<close>

record tls_client =
  tc_protos :: "string list"
  tc_skip :: bool
  tc_name :: string
  tc_roots :: "string option"
  tc_verify :: "(string \<times> string option) option"

datatype ca_error = ReadCA read_error | NoCertificates

text \<open>\<open>pool\<close> is whether a text holds a certificate.\<close>

definition client_config :: "(string \<Rightarrow> bool) \<Rightarrow> files \<Rightarrow> string \<Rightarrow> string \<Rightarrow> bool \<Rightarrow> ca_error + tls_client" where
  "client_config pool fs ca name insecure =
     (let cfg = \<lparr>tc_protos = [ALPN], tc_skip = insecure, tc_name = name, tc_roots = None, tc_verify = None\<rparr> in
      if ca = [] then Inr cfg
      else case read_file fs ca of
        Inl e \<Rightarrow> Inl (ReadCA e)
      | Inr pem \<Rightarrow> if \<not> pool pem then Inl NoCertificates else Inr (cfg\<lparr>tc_roots := Some pem\<rparr>))"

definition dial_config :: "tls_client \<Rightarrow> string \<Rightarrow> tls_client" where
  "dial_config base addr =
     (case split_host_port addr of
        None \<Rightarrow> base
      | Some (host, _) \<Rightarrow>
          let i = parse_ip host in
          if i = [] \<or> is_loopback i then base
          else let verify_name = tc_name base; cfg = base\<lparr>tc_name := []\<rparr> in
            if tc_skip base then cfg
            else cfg\<lparr>tc_skip := True,
                     tc_verify := Some (if verify_name = [] then ''localhost'' else verify_name, tc_roots base)\<rparr>)"

text \<open>When the TLS client accepts the chain of the server.\<close>

definition tls_accepts :: "(string option \<Rightarrow> string \<Rightarrow> 'c list \<Rightarrow> bool) \<Rightarrow> tls_client \<Rightarrow> 'c list \<Rightarrow> bool" where
  "tls_accepts x509 cfg chain \<longleftrightarrow>
     (tc_skip cfg \<or> tc_name cfg \<noteq> [] \<and> chain \<noteq> [] \<and> x509 (tc_roots cfg) (tc_name cfg) chain) \<and>
     (case tc_verify cfg of None \<Rightarrow> True | Some (name, roots) \<Rightarrow> chain \<noteq> [] \<and> x509 roots name chain)"

section \<open>What happens to the files\<close>

lemma plan_stats:
  "cert_plan (os_stat hidden fs cp) (os_stat hidden fs kp) auto = Inr True \<longleftrightarrow>
     \<not> hidden cp \<and> \<not> hidden kp \<and> fs cp \<noteq> FAbsent \<and> fs kp \<noteq> FAbsent"
  "cert_plan (os_stat hidden fs cp) (os_stat hidden fs kp) auto = Inr False \<longleftrightarrow>
     \<not> hidden cp \<and> \<not> hidden kp \<and> fs cp = FAbsent \<and> fs kp = FAbsent \<and> auto"
  by (auto simp: cert_plan_def os_stat_def)

lemma generate_touches:
  assumes "generate_pair sign pair flt now cp kp hosts fs = (r, fs')"
  shows "q \<noteq> cp \<Longrightarrow> q \<noteq> kp \<Longrightarrow> fs' q = fs q"
    and "cp = [] \<or> kp = [] \<Longrightarrow> fs' = fs"
    and "r = Inr x \<Longrightarrow> cp \<noteq> [] \<Longrightarrow> kp \<noteq> [] \<Longrightarrow>
      \<exists>c k. generate_self_signed sign hosts 0 now = Some (c, k) \<and> pair c k = Some x \<and> fs' = fs(cp := FText c, kp := FText k)"
  using assms
  by (auto simp: generate_pair_def save_pair_def x509_key_pair_def split: option.splits prod.splits if_splits cert_op.splits bool.splits)

text \<open>
Key material is never overwritten. Whatever happens, \<open>LoadOrGenerate\<close> touches at most the two configured files, and it writes at all only if it may generate and neither file was there; existing files are loaded or refused, also when only one of the two exists.
\<close>

theorem cert_files_kept:
  "case load_or_generate sign pair hidden flt now cp kp auto hosts fs of (r, fs') \<Rightarrow>
     (fs' \<noteq> fs \<longrightarrow> auto \<and> cp \<noteq> [] \<and> kp \<noteq> [] \<and> fs cp = FAbsent \<and> fs kp = FAbsent) \<and>
     (\<forall>q. q \<noteq> cp \<and> q \<noteq> kp \<longrightarrow> fs' q = fs q) \<and>
     (cp \<noteq> [] \<and> kp \<noteq> [] \<and> (fs cp = FAbsent) \<noteq> (fs kp = FAbsent) \<longrightarrow> (\<exists>e. r = Inl e))"
proof -
  obtain r fs' where l: "load_or_generate sign pair hidden flt now cp kp auto hosts fs = (r, fs')" by fastforce
  show ?thesis
  proof (cases "cp \<noteq> [] \<and> kp \<noteq> []")
    case True
    show ?thesis
    proof (cases "cert_plan (os_stat hidden fs cp) (os_stat hidden fs kp) auto")
      case (Inl e)
      then have "r = Inl e" "fs' = fs" using l True by (simp_all add: load_or_generate_def)
      then show ?thesis unfolding l by simp
    next
      case (Inr b)
      show ?thesis
      proof (cases b)
        case load: True
        then have "fs' = fs" using l True Inr by (auto simp: load_or_generate_def split: option.splits)
        then show ?thesis using plan_stats(1) Inr load unfolding l by simp
      next
        case gen: False
        then have g: "generate_pair sign pair flt now cp kp hosts fs = (r, fs')" using l True Inr by (simp add: load_or_generate_def)
        have "fs cp = FAbsent" "fs kp = FAbsent" auto using plan_stats(2) Inr gen by auto
        then show ?thesis using True generate_touches(1) [OF g] unfolding l by simp
      qed
    qed
  next
    case False
    then have "fs' = fs"
      using l generate_touches(2) [of sign pair flt now cp kp hosts fs r fs'] by (auto simp: load_or_generate_def split: if_splits)
    then show ?thesis using False unfolding l by auto
  qed
qed

text \<open>After a success with both paths set, the files hold the certificate.\<close>

lemma cert_on_disk:
  assumes "load_or_generate sign pair hidden flt now cp kp auto hosts fs = (Inr x, fs')" "cp \<noteq> []" "kp \<noteq> []" "cp \<noteq> kp"
  shows "\<not> hidden cp \<and> \<not> hidden kp \<and> fs' cp \<noteq> FAbsent \<and> fs' kp \<noteq> FAbsent \<and> load_x509_key_pair pair fs' cp kp = Some x"
proof (cases "cert_plan (os_stat hidden fs cp) (os_stat hidden fs kp) auto")
  case (Inl e)
  then show ?thesis using assms by (simp add: load_or_generate_def)
next
  case (Inr b)
  show ?thesis
  proof (cases b)
    case True
    then have "fs' = fs" "load_x509_key_pair pair fs cp kp = Some x"
      using assms Inr by (auto simp: load_or_generate_def split: option.splits)
    then show ?thesis using plan_stats(1) Inr True by simp
  next
    case False
    then have g: "generate_pair sign pair flt now cp kp hosts fs = (Inr x, fs')" using assms Inr by (simp add: load_or_generate_def)
    from generate_touches(3) [OF g refl assms(2,3)] obtain c k where "pair c k = Some x" "fs' = fs(cp := FText c, kp := FText k)" by blast
    then show ?thesis using plan_stats(2) Inr False assms(4) by (auto simp: load_x509_key_pair_def read_file_def)
  qed
qed

text \<open>
A certificate is made once. After a first success with configured files, every later call, with whatever hosts, key generator and settings, returns that same certificate and writes nothing. So the certificate of a first start has only the names the first call asked for: the host names that the HTTPS listeners ask for in the same start never get into it.
\<close>

theorem cert_made_once:
  assumes "load_or_generate sign pair hidden flt now cp kp auto hosts fs = (Inr x, fs')" "cp \<noteq> []" "kp \<noteq> []" "cp \<noteq> kp"
  shows "load_or_generate sign' pair hidden flt' now' cp kp auto' hosts' fs' = (Inr x, fs') \<and>
     (fs' \<noteq> fs \<longrightarrow> (\<exists>c k. generate_self_signed sign hosts 0 now = Some (c, k) \<and> fs' cp = FText c \<and> fs' kp = FText k \<and> pair c k = Some x))"
proof -
  note d = cert_on_disk [OF assms]
  have "cert_plan (os_stat hidden fs' cp) (os_stat hidden fs' kp) auto' = Inr True" using plan_stats(1) d by blast
  then have "load_or_generate sign' pair hidden flt' now' cp kp auto' hosts' fs' = (Inr x, fs')"
    using d assms(2,3) by (simp add: load_or_generate_def)
  moreover have "\<exists>c k. generate_self_signed sign hosts 0 now = Some (c, k) \<and> fs' cp = FText c \<and> fs' kp = FText k \<and> pair c k = Some x" if "fs' \<noteq> fs"
  proof -
    have "generate_pair sign pair flt now cp kp hosts fs = (Inr x, fs')"
      using assms that by (auto simp: load_or_generate_def split: sum.splits option.splits bool.splits)
    from generate_touches(3) [OF this refl assms(2,3)] show ?thesis using assms(4) by auto
  qed
  ultimately show ?thesis by blast
qed

theorem cert_made_once_witness:
  "let fs = (\<lambda>_. FAbsent)(''k'' := FAbsent); sign = (\<lambda>t. Some (''C'', ''K'')); pair = (\<lambda>c k. Some (c @ k)) in
   load_or_generate (\<lambda>t. None) pair (\<lambda>_. False) None 9 ''c'' ''k'' False [''git.example''] (fs(''c'' := FText ''C'', ''k'' := FText ''K'')) =
     (Inr ''CK'', fs(''c'' := FText ''C'', ''k'' := FText ''K''))"
proof -
  let ?fs = "(\<lambda>_. FAbsent)(''k'' := FAbsent)"
  have "load_or_generate (\<lambda>t. Some (''C'', ''K'')) (\<lambda>c k. Some (c @ k)) (\<lambda>_. False) None 7 ''c'' ''k'' True default_hosts ?fs =
      (Inr ''CK'', ?fs(''c'' := FText ''C'', ''k'' := FText ''K''))"
    by (simp add: load_or_generate_def cert_plan_def os_stat_def generate_pair_def generate_self_signed_def save_pair_def x509_key_pair_def Let_def)
  from cert_made_once [OF this, of "\<lambda>t. None" None 9 False "[''git.example'']"] show ?thesis by (simp add: Let_def)
qed

section \<open>Which name the Agent checks\<close>

lemma agent_name_set: "\<not> skip_verify c \<Longrightarrow> tls_server_name (apply_agent_defaults c) \<noteq> []"
  by (auto simp: apply_agent_defaults_def skip_verify_def Let_def split: option.splits prod.splits if_splits)

definition public_target :: "string \<Rightarrow> bool" where
  "public_target addr \<longleftrightarrow> (\<exists>host port. split_host_port addr = Some (host, port) \<and> parse_ip host \<noteq> [] \<and> \<not> is_loopback (parse_ip host))"

lemma dial_config_cases:
  "dial_config base addr =
     (if \<not> public_target addr then base
      else if tc_skip base then base\<lparr>tc_name := []\<rparr>
      else base\<lparr>tc_name := [], tc_skip := True, tc_verify := Some (if tc_name base = [] then ''localhost'' else tc_name base, tc_roots base)\<rparr>)"
  by (auto simp: dial_config_def public_target_def Let_def split: option.split)

section \<open>The server side\<close>

text \<open>The configurations of the tunnel port and of the Admin API, and the choice of a protocol by package
  \<open>tls\<close>: None ends the handshake, an empty name is no protocol.\<close>

record tls_server =
  ts_cert :: string
  ts_min :: nat
  ts_protos :: "string list"

definition VersionTLS12 :: nat where
  "VersionTLS12 = 0x0303"

definition server_config :: "string \<Rightarrow> tls_server" where
  "server_config cert = \<lparr>ts_cert = cert, ts_min = VersionTLS12, ts_protos = [ALPN]\<rparr>"

definition https_config :: "string \<Rightarrow> tls_server" where
  "https_config cert = \<lparr>ts_cert = cert, ts_min = VersionTLS12, ts_protos = [''http/1.1'']\<rparr>"

definition negotiate_alpn :: "string list \<Rightarrow> string list \<Rightarrow> string option" where
  "negotiate_alpn server client =
     (if server = [] \<or> client = [] then Some []
      else case find (\<lambda>s. s \<in> set client) server of
        Some s \<Rightarrow> Some s
      | None \<Rightarrow> if ''h2'' \<in> set server \<and> ''http/1.1'' \<in> set client then Some [] else None)"

text \<open>The tunnel port speaks the tunnel protocol with an Agent, refuses a client that offers only others in
  the TLS handshake, and lets one without any through to the frames; an Agent is refused by the Admin API.\<close>

lemma tunnel_alpn:
  assumes "client_config pool fs ca name insecure = Inr base"
  shows "negotiate_alpn (ts_protos (server_config cert)) (tc_protos (dial_config base addr)) = Some ALPN"
    "negotiate_alpn (ts_protos (server_config cert)) ps = (if ps = [] then Some [] else if ALPN \<in> set ps then Some ALPN else None)"
    "negotiate_alpn (ts_protos (https_config cert)) (tc_protos (dial_config base addr)) = None"
  using assms by (auto simp: negotiate_alpn_def server_config_def https_config_def ALPN_def client_config_def dial_config_cases Let_def
      split: if_splits sum.splits)

text \<open>
C17: an Agent that verifies is never talked out of it. For the configuration of an Agent after its defaults, the connection it dials offers the tunnel protocol, and sends no server name exactly to a public IP literal. If verification is on, a chain is accepted if and only if it verifies for the configured server name against the configured CA file, or the system's roots without one; the library check that is switched off for an IP literal is made up for. If verification is off every chain is accepted.
\<close>

theorem agent_verifies_edge:
  assumes "c = apply_agent_defaults c0" "client_config pool fs (tls_ca c) (tls_server_name c) (skip_verify c) = Inr base"
  shows "let cfg = dial_config base (edge c); roots = (if tls_ca c = [] then None else Some (projr (read_file fs (tls_ca c)))) in
     tc_protos cfg = [ALPN] \<and>
     (tc_name cfg = (if public_target (edge c) then [] else tls_server_name c)) \<and>
     (\<forall>chain. tls_accepts x509 cfg chain \<longleftrightarrow> skip_verify c \<or> chain \<noteq> [] \<and> x509 roots (tls_server_name c) chain) \<and>
     (tls_ca c \<noteq> [] \<longrightarrow> (\<exists>pem. read_file fs (tls_ca c) = Inr pem \<and> pool pem))"
proof -
  have b: "base = \<lparr>tc_protos = [ALPN], tc_skip = skip_verify c, tc_name = tls_server_name c,
      tc_roots = (if tls_ca c = [] then None else Some (projr (read_file fs (tls_ca c)))), tc_verify = None\<rparr>"
    "tls_ca c \<noteq> [] \<longrightarrow> (\<exists>pem. read_file fs (tls_ca c) = Inr pem \<and> pool pem)"
    using assms(2) by (auto simp: client_config_def Let_def split: if_splits sum.splits)
  have f: "skip_verify c = skip_verify c0"
    unfolding assms(1) by (simp add: apply_agent_defaults_def skip_verify_def Let_def split: option.split prod.split)
  have "tls_server_name c \<noteq> []" if "\<not> skip_verify c" using agent_name_set [of c0] that f assms(1) by simp
  then show ?thesis unfolding Let_def dial_config_cases using b by (auto simp: tls_accepts_def)
qed

theorem agent_verifies_edge_witness:
  "let c = apply_agent_defaults (empty_config\<lparr>edge := ''203.0.113.7:8443'', tls_ca := ''ca.pem''\<rparr>);
       base = \<lparr>tc_protos = [ALPN], tc_skip = False, tc_name = ''localhost'', tc_roots = Some ''P'', tc_verify = None\<rparr> in
   tls_accepts (\<lambda>r n ch. r = Some ''P'' \<and> n = ''localhost'') (dial_config base (edge c)) [0 :: nat] \<and>
   \<not> tls_accepts (\<lambda>r n ch. r = Some ''Q'' \<and> n = ''localhost'') (dial_config base (edge c)) [0 :: nat]"
proof -
  let ?c = "apply_agent_defaults (empty_config\<lparr>edge := ''203.0.113.7:8443'', tls_ca := ''ca.pem''\<rparr>)"
  let ?base = "\<lparr>tc_protos = [ALPN], tc_skip = False, tc_name = ''localhost'', tc_roots = Some ''P'', tc_verify = None\<rparr>"
  have c: "tls_ca ?c = ''ca.pem''" "tls_server_name ?c = ''localhost''" "\<not> skip_verify ?c" by code_simp+
  have "client_config (\<lambda>_. True) (\<lambda>_. FText ''P'') (tls_ca ?c) (tls_server_name ?c) (skip_verify ?c) = Inr ?base"
    by (simp add: c client_config_def read_file_def)
  note v = agent_verifies_edge [OF refl this]
  have "tls_accepts x509 (dial_config ?base (edge ?c)) chain \<longleftrightarrow> chain \<noteq> [] \<and> x509 (Some ''P'') ''localhost'' chain"
    for x509 and chain :: "nat list"
    using v [of x509] c by (simp add: Let_def read_file_def)
  then show ?thesis by (simp add: Let_def)
qed

end
