(* ===== verification/EdgeStart.thy ===== *)
theory EdgeStart
  imports ConfigRoute Certs Admin
begin

text \<open>
  Starting and stopping Edge, \<open>New\<close>, \<open>Start\<close>, \<open>startAdmin\<close> and \<open>Shutdown\<close> of
  \<open>internal/edge/server.go\<close> with \<open>startHTTP\<close> and \<open>startUDP\<close>.

  A socket is a number with the network and the address it was opened for; \<open>can\<close> says for which
  networks and addresses \<open>net.Listen\<close> succeeds. The goroutines that accept on a socket end when it
  is closed. The groups of HTTP tunnels come in the order in which Go walks the map.
\<close>

section \<open>Sockets\<close>

record edge_sockets =
  es_open :: "(nat \<times> string \<times> string) list"
  es_next :: nat
  es_tunnel :: "nat option"
  es_public :: "(string \<times> nat) list"
  es_udp :: "(string \<times> nat) list"
  es_http :: "http_listener list"
  es_admin :: "(nat \<times> bool) option"

definition no_sockets :: edge_sockets where
  "no_sockets = \<lparr>es_open = [], es_next = 0, es_tunnel = None, es_public = [], es_udp = [], es_http = [], es_admin = None\<rparr>"

definition net_listen :: "(string \<Rightarrow> string \<Rightarrow> bool) \<Rightarrow> string \<Rightarrow> string \<Rightarrow> edge_sockets \<Rightarrow> (nat \<times> edge_sockets) option" where
  "net_listen can net addr s =
     (if can net addr then Some (es_next s, s\<lparr>es_open := es_open s @ [(es_next s, net, addr)], es_next := es_next s + 1\<rparr>) else None)"

definition close_sockets :: "nat list \<Rightarrow> edge_sockets \<Rightarrow> edge_sockets" where
  "close_sockets ids s = s\<lparr>es_open := filter (\<lambda>(i, _). i \<notin> set ids) (es_open s)\<rparr>"

definition close_listeners :: "edge_sockets \<Rightarrow> edge_sockets" where
  "close_listeners s =
     close_sockets ((case es_tunnel s of None \<Rightarrow> [] | Some i \<Rightarrow> [i]) @ map snd (es_public s) @ map snd (es_udp s)) s"

definition socket_addr :: "edge_sockets \<Rightarrow> nat \<Rightarrow> string option" where
  "socket_addr s i = map_option snd (map_of (es_open s) i)"

definition public_addr :: "edge_sockets \<Rightarrow> string \<Rightarrow> string option" where
  "public_addr s n =
     (case map_of (es_public s) n of
        Some i \<Rightarrow> socket_addr s i
      | None \<Rightarrow> (case map_of (es_udp s) n of Some i \<Rightarrow> socket_addr s i | None \<Rightarrow> None))"

definition bind_public :: "string list \<Rightarrow> nat \<Rightarrow> edge_sockets \<Rightarrow> edge_sockets" where
  "bind_public ns i s = s\<lparr>es_public := fold (\<lambda>n. AList.update n i) ns (es_public s)\<rparr>"

section \<open>Starting\<close>

datatype start_error =
    TLSMaterial cert_error | ListenTunnel | ListenPublic string | ListenHTTP string | HTTPCerts string
  | ListenUDP string | AdminNew new_error | ListenAdmin

fun start_tcp :: "(string \<Rightarrow> string \<Rightarrow> bool) \<Rightarrow> tunnel list \<Rightarrow> edge_sockets \<Rightarrow> (start_error + unit) \<times> edge_sockets" where
  "start_tcp can [] s = (Inr (), s)"
| "start_tcp can (t # ts) s =
     (case net_listen can ''tcp'' (t_public t) s of
        None \<Rightarrow> (Inl (ListenPublic (t_public t)), close_listeners s)
      | Some (i, s1) \<Rightarrow> start_tcp can ts (bind_public [t_name t] i s1))"

text \<open>\<open>mat\<close> is \<open>LoadOrGenerate\<close> with the settings of the configuration, a function of the host names
  and the files.\<close>

definition cert_hosts :: "http_group \<Rightarrow> string list" where
  "cert_hosts g = filter (\<lambda>h. h \<noteq> []) (map fst (hg_by_host g)) @ [''localhost'', ''127.0.0.1'', ''::1'']"

definition http_material :: "(string list \<Rightarrow> files \<Rightarrow> (cert_error + string) \<times> files) \<Rightarrow> http_group \<Rightarrow> files \<Rightarrow> string option \<times> files" where
  "http_material mat g fs =
     (if hg_tls g \<and> group_needs_terminate g
      then (case mat (cert_hosts g) fs of (Inl e, fs') \<Rightarrow> (None, fs') | (Inr x, fs') \<Rightarrow> (Some x, fs'))
      else (None, fs))"

fun start_http ::
  "(string \<Rightarrow> string \<Rightarrow> bool) \<Rightarrow> (string list \<Rightarrow> files \<Rightarrow> (cert_error + string) \<times> files) \<Rightarrow> (string \<Rightarrow> string \<Rightarrow> string option)
   \<Rightarrow> (string \<times> http_group) list \<Rightarrow> edge_sockets \<Rightarrow> files \<Rightarrow> (start_error + unit) \<times> edge_sockets \<times> files" where
  "start_http can mat pair [] s fs = (Inr (), s, fs)"
| "start_http can mat pair ((public, g) # gs) s fs =
     (case net_listen can ''tcp'' public s of
        None \<Rightarrow> (Inl (ListenHTTP public), close_listeners s, fs)
      | Some (i, s1) \<Rightarrow>
          (case http_material mat g fs of (generated, fs1) \<Rightarrow>
             case start_listener generated (load_x509_key_pair pair fs1) public g of
               Inl e \<Rightarrow> (Inl (HTTPCerts e), close_listeners (close_sockets [i] s1), fs1)
             | Inr hl \<Rightarrow> start_http can mat pair gs ((bind_public (hg_names g) i s1)\<lparr>es_http := es_http s1 @ [hl]\<rparr>) fs1))"

fun start_udp :: "(string \<Rightarrow> string \<Rightarrow> bool) \<Rightarrow> tunnel list \<Rightarrow> edge_sockets \<Rightarrow> (start_error + unit) \<times> edge_sockets" where
  "start_udp can [] s = (Inr (), s)"
| "start_udp can (t # ts) s =
     (case net_listen can ''udp'' (t_public t) s of
        None \<Rightarrow> (Inl (ListenUDP (t_public t)), close_listeners s)
      | Some (i, s1) \<Rightarrow> start_udp can ts (s1\<lparr>es_udp := AList.update (t_name t) i (es_udp s1)\<rparr>))"

text \<open>\<open>Start\<close> and \<open>Shutdown\<close> of the Admin API; the flag of \<open>es_admin\<close> is whether it speaks TLS.\<close>

definition admin_start :: "(string \<Rightarrow> string \<Rightarrow> bool) \<Rightarrow> string \<Rightarrow> bool \<Rightarrow> edge_sockets \<Rightarrow> bool \<times> edge_sockets" where
  "admin_start can addr tls s =
     (case net_listen can ''tcp'' addr s of
        None \<Rightarrow> (False, s)
      | Some (i, s1) \<Rightarrow> (True, s1\<lparr>es_admin := Some (i, tls)\<rparr>))"

definition admin_shutdown :: "edge_sockets \<Rightarrow> edge_sockets" where
  "admin_shutdown k = (case es_admin k of None \<Rightarrow> k | Some (i, _) \<Rightarrow> close_sockets [i] k)"

definition start_admin :: "(string \<Rightarrow> string \<Rightarrow> bool) \<Rightarrow> config \<Rightarrow> ban_store \<Rightarrow> acl_store \<Rightarrow> edge_sockets \<Rightarrow> (start_error + admin option) \<times> edge_sockets" where
  "start_admin can c bans store s =
     (if \<not> admin_enabled c then (Inr None, s)
      else case admin_new (admin_listen c) (admin_token c) (admin_metrics_or_default c) (Some bans) store of
        Inl e \<Rightarrow> (Inl (AdminNew e), s)
      | Inr adm \<Rightarrow>
          (case admin_start can (admin_listen c) (\<not> listen_host_is_loopback (admin_listen c)) s of
             (False, s1) \<Rightarrow> (Inl ListenAdmin, s1)
           | (True, s1) \<Rightarrow> (Inr (Some adm), s1)))"

declare admin_start_def [simp] admin_shutdown_def [simp]

text \<open>\<open>Start\<close> after the certificate: the tunnel port and the public ports, then the Admin API.\<close>

definition start_ports ::
  "(string \<Rightarrow> string \<Rightarrow> bool) \<Rightarrow> (string list \<Rightarrow> files \<Rightarrow> (cert_error + string) \<times> files) \<Rightarrow> (string \<Rightarrow> string \<Rightarrow> string option)
   \<Rightarrow> (string \<times> http_group) list \<Rightarrow> config \<Rightarrow> edge_sockets \<Rightarrow> files \<Rightarrow> (start_error + unit) \<times> edge_sockets \<times> files" where
  "start_ports can mat pair gs c s fs =
     (case net_listen can ''tcp'' (listen c) s of
        None \<Rightarrow> (Inl ListenTunnel, s, fs)
      | Some (i, s1) \<Rightarrow>
          (case start_tcp can (tcp_tunnels c) (s1\<lparr>es_tunnel := Some i\<rparr>) of
             (Inl e, s2) \<Rightarrow> (Inl e, s2, fs)
           | (Inr _, s2) \<Rightarrow>
               (case start_http can mat pair gs s2 fs of
                  (Inl e, s3, fs1) \<Rightarrow> (Inl e, s3, fs1)
                | (Inr _, s3, fs1) \<Rightarrow>
                    (case start_udp can (udp_tunnels c) (s3\<lparr>es_udp := []\<rparr>) of (r, s4) \<Rightarrow> (r, s4, fs1)))))"

definition edge_start ::
  "(string \<Rightarrow> string \<Rightarrow> bool) \<Rightarrow> (string list \<Rightarrow> files \<Rightarrow> (cert_error + string) \<times> files) \<Rightarrow> (string \<Rightarrow> string \<Rightarrow> string option)
   \<Rightarrow> (string \<times> http_group) list \<Rightarrow> config \<Rightarrow> ban_store \<Rightarrow> acl_store \<Rightarrow> edge_sockets \<Rightarrow> files
   \<Rightarrow> (start_error + admin option) \<times> edge_sockets \<times> files" where
  "edge_start can mat pair gs c bans store s fs =
     (case mat default_hosts fs of
        (Inl e, fs1) \<Rightarrow> (Inl (TLSMaterial e), s, fs1)
      | (Inr cert, fs1) \<Rightarrow>
          (case start_ports can mat pair gs c s fs1 of
             (Inl e, s1, fs2) \<Rightarrow> (Inl e, s1, fs2)
           | (Inr _, s1, fs2) \<Rightarrow>
               (case start_admin can c bans store s1 of
                  (Inl e, s2) \<Rightarrow> (Inl e, close_listeners s2, fs2)
                | (Inr adm, s2) \<Rightarrow> (Inr adm, s2, fs2))))"

section \<open>New and Shutdown\<close>

text \<open>\<open>New\<close>: validation, the stores, and eviction hooked to both.\<close>

definition edge_new :: "config \<Rightarrow> acl_list \<Rightarrow> string list disk \<Rightarrow> ban_dto disk \<Rightarrow> config_error + config \<times> server \<times> acl_store" where
  "edge_new c0 list ak bk =
     rbind (validate_edge c0) (\<lambda>c. Inr (c,
       \<lparr>token = cfg_token c, srv_bans = on_change ''evictDisallowed'' (ban_new (denylist_file c) bk), srv_acl = list, reg = new_registry,
        agent_ip = [], tcp_conns = [], sem_used = 0, sem_cap = nat (max_sessions_or_default c), sess = None, dead_sess = [],
        watchers = [], hub_resets = 0\<rparr>,
       acl_on_change ''evictDisallowed'' (new_store (Some list) (allowlist_file c) ak)))"

definition close_tcp_conns :: "server \<Rightarrow> server" where
  "close_tcp_conns s = s\<lparr>tcp_conns := []\<rparr>"

definition hl_close_all :: "http_listener \<Rightarrow> http_listener" where
  "hl_close_all hl = hl\<lparr>hl_conns := []\<rparr>"

text \<open>\<open>Shutdown\<close>, up to the wait for the handlers.\<close>

definition edge_shutdown :: "server \<Rightarrow> edge_sockets \<Rightarrow> server \<times> edge_sockets" where
  "edge_shutdown s k =
     (let k1 = admin_shutdown k;
          k2 = close_listeners (k1\<lparr>es_http := map hl_close_all (es_http k1)\<rparr>);
          s1 = (close_tcp_conns s)\<lparr>hub_resets := hub_resets s + 1\<rparr>;
          s2 = (case sess s1 of None \<Rightarrow> s1 | Some x \<Rightarrow> close_session x (s1\<lparr>sess := None\<rparr>))
      in (s2\<lparr>reg := set_agent_connected False (reg s2)\<rparr>, k2))"

section \<open>What is open\<close>

text \<open>Every open socket is known to \<open>closeListeners\<close>, and numbers are fresh.\<close>

definition known_ids :: "edge_sockets \<Rightarrow> nat set" where
  "known_ids s = set_option (es_tunnel s) \<union> ran (map_of (es_public s)) \<union> ran (map_of (es_udp s))"

definition sockets_ok :: "edge_sockets \<Rightarrow> bool" where
  "sockets_ok s \<longleftrightarrow> fst ` set (es_open s) \<subseteq> known_ids s \<and> (\<forall>i \<in> fst ` set (es_open s) \<union> known_ids s. i < es_next s)"

definition bound_names :: "edge_sockets \<Rightarrow> string set" where
  "bound_names s = dom (map_of (es_public s)) \<union> dom (map_of (es_udp s))"

text \<open>The step from \<open>s\<close> to \<open>s'\<close> opened the sockets \<open>xs\<close> and gave the names of \<open>m\<close> their addresses.\<close>

definition grows :: "edge_sockets \<Rightarrow> (string \<times> string) list \<Rightarrow> (string \<rightharpoonup> string) \<Rightarrow> edge_sockets \<Rightarrow> bool" where
  "grows s xs m s' \<longleftrightarrow> sockets_ok s' \<and> map snd (es_open s') = map snd (es_open s) @ xs \<and> es_admin s' = es_admin s \<and>
     es_tunnel s' = es_tunnel s \<and> bound_names s' = bound_names s \<union> dom m \<and>
     (\<forall>n. public_addr s' n = (case m n of Some a \<Rightarrow> Some a | None \<Rightarrow> public_addr s n))"

definition outcome :: "edge_sockets \<Rightarrow> (start_error + unit) \<Rightarrow> (string \<times> string) list \<Rightarrow> (string \<rightharpoonup> string) \<Rightarrow> edge_sockets \<Rightarrow> bool" where
  "outcome s r xs m s' \<longleftrightarrow> (case r of Inl e \<Rightarrow> es_open s' = [] | Inr _ \<Rightarrow> grows s xs m s')"

lemma grows_refl: "sockets_ok s \<Longrightarrow> grows s [] Map.empty s"
  by (simp add: grows_def)

lemma grows_trans: "grows s xs m s' \<Longrightarrow> grows s' ys m' s'' \<Longrightarrow> grows s (xs @ ys) (m ++ m') s''"
  by (auto simp: grows_def map_add_def split: option.splits)

lemma outcome_trans: "grows s xs m s' \<Longrightarrow> outcome s' r ys m' s'' \<Longrightarrow> outcome s r (xs @ ys) (m ++ m') s''"
  by (auto simp: outcome_def intro: grows_trans split: sum.splits)

lemma close_all: "fst ` set (es_open s) \<subseteq> known_ids s \<Longrightarrow> es_open (close_listeners s) = []"
proof -
  assume k: "fst ` set (es_open s) \<subseteq> known_ids s"
  have r: "ran (map_of m) \<subseteq> set (map snd m)" for m :: "(string \<times> nat) list"
  proof
    fix i
    assume "i \<in> ran (map_of m)"
    then obtain n where "(n, i) \<in> set m" unfolding ran_def using map_of_SomeD by fast
    then show "i \<in> set (map snd m)" by force
  qed
  define ids where "ids = (case es_tunnel s of None \<Rightarrow> [] | Some i \<Rightarrow> [i]) @ map snd (es_public s) @ map snd (es_udp s)"
  have "set_option (es_tunnel s) \<subseteq> set ids" by (cases "es_tunnel s") (simp_all add: ids_def)
  moreover have "ran (map_of (es_public s)) \<subseteq> set ids" "ran (map_of (es_udp s)) \<subseteq> set ids"
    using r [of "es_public s"] r [of "es_udp s"] unfolding ids_def set_append by blast+
  ultimately have "known_ids s \<subseteq> set ids" unfolding known_ids_def by blast
  then have "i \<in> set ids" if "(i, x) \<in> set (es_open s)" for i x
    using k that by (metis fst_conv imageI subsetD)
  then have "filter (\<lambda>(i, _). i \<notin> set ids) (es_open s) = []" unfolding filter_empty_conv by auto
  then show ?thesis unfolding close_listeners_def close_sockets_def ids_def [symmetric] by simp
qed

lemma ran_upd: "m n = None \<or> m n = Some i \<Longrightarrow> ran (m(n \<mapsto> i)) = insert i (ran m)"
  by (auto simp: map_upd_triv insert_absorb ranI)

lemma bind_map:
  "map_of (fold (\<lambda>n. AList.update n i) ns m) = (\<lambda>n. if n \<in> set ns then Some i else map_of m n)"
  by (induction ns arbitrary: m) (auto simp: fun_eq_iff)

lemma socket_addr_new:
  assumes "sockets_ok s" "i < es_next s"
  shows "map_of (es_open s @ [(es_next s, x)]) i = map_of (es_open s) i"
  using assms by (auto simp: sockets_ok_def map_add_def split: option.split)

lemma socket_addr_next:
  assumes "sockets_ok s"
  shows "map_of (es_open s @ [(es_next s, x)]) (es_next s) = Some x"
proof -
  have "es_next s \<notin> fst ` set (es_open s)" using assms by (auto simp: sockets_ok_def)
  then have "map_of (es_open s) (es_next s) = None" by (simp add: map_of_eq_None_iff)
  then show ?thesis by (simp add: map_add_def)
qed

lemma sockets_ok_new:
  assumes "sockets_ok s" "es_open s' = es_open s @ [(es_next s, x)]" "es_next s' = es_next s + 1" "known_ids s' = insert (es_next s) (known_ids s)"
  shows "sockets_ok s'"
  using assms(1) unfolding sockets_ok_def assms(2-4) by (auto simp: less_Suc_eq)

lemma listen_public_grows:
  assumes "sockets_ok s" "net_listen can net addr s = Some (i, s1)" "ns \<noteq> []" "set ns \<inter> bound_names s = {}"
  shows "grows s [(net, addr)] (\<lambda>n. if n \<in> set ns then Some addr else None) (bind_public ns i s1)"
proof -
  have i: "i = es_next s" "s1 = s\<lparr>es_open := es_open s @ [(es_next s, net, addr)], es_next := es_next s + 1\<rparr>"
    using assms(2) by (auto simp: net_listen_def split: if_splits)
  let ?s = "bind_public ns i s1"
  have p: "map_of (es_public ?s) = (\<lambda>n. if n \<in> set ns then Some i else map_of (es_public s) n)"
    unfolding i(2) by (simp add: bind_public_def bind_map)
  have f: "es_udp ?s = es_udp s" "es_tunnel ?s = es_tunnel s" "es_next ?s = es_next s + 1" "es_admin ?s = es_admin s"
    "es_open ?s = es_open s @ [(es_next s, net, addr)]"
    by (simp_all add: bind_public_def i)
  have fresh: "n \<in> set ns \<Longrightarrow> map_of (es_public s) n = None" for n using assms(4) by (auto simp: bound_names_def)
  have ran: "ran (map_of (es_public ?s)) = insert i (ran (map_of (es_public s)))"
  proof -
    obtain n where n: "n \<in> set ns" using assms(3) by (cases ns) auto
    have "j \<in> ran (map_of (es_public ?s))" if "map_of (es_public s) k = Some j" for j k
      using that fresh [of k] unfolding p by (intro ranI [of _ k]) auto
    then have "ran (map_of (es_public s)) \<subseteq> ran (map_of (es_public ?s))" by (auto simp: ran_def [of "map_of (es_public s)"])
    moreover have "i \<in> ran (map_of (es_public ?s))" using n unfolding p by (intro ranI [of _ n]) simp
    moreover have "ran (map_of (es_public ?s)) \<subseteq> insert i (ran (map_of (es_public s)))" unfolding p by (auto simp: ran_def)
    ultimately show ?thesis by blast
  qed
  have "known_ids ?s = insert i (known_ids s)" unfolding known_ids_def f ran by auto
  then have ok: "sockets_ok ?s" using sockets_ok_new [OF assms(1) f(5,3)] i(1) by simp
  have old: "socket_addr ?s j = socket_addr s j" if "j \<in> known_ids s" for j
    using socket_addr_new [OF assms(1), of j] that assms(1) by (auto simp: socket_addr_def f sockets_ok_def)
  have new: "socket_addr ?s i = Some addr" unfolding socket_addr_def f(5) unfolding i(1) socket_addr_next [OF assms(1)] by simp
  have "public_addr ?s n = (if n \<in> set ns then Some addr else public_addr s n)" for n
  proof -
    have "j \<in> known_ids s" if "map_of (es_public s) n = Some j \<or> map_of (es_udp s) n = Some j" for j
      using that by (auto simp: known_ids_def ran_def)
    then show ?thesis unfolding public_addr_def p f using new old by (auto split: option.splits)
  qed
  moreover have "bound_names ?s = bound_names s \<union> set ns" unfolding bound_names_def p f by (auto simp: dom_def split: if_splits)
  ultimately show ?thesis unfolding grows_def using ok by (auto simp: f dom_def split: if_splits)
qed

lemma listen_udp_grows:
  assumes "sockets_ok s" "net_listen can net addr s = Some (i, s1)" "n \<notin> bound_names s"
  shows "grows s [(net, addr)] [n \<mapsto> addr] (s1\<lparr>es_udp := AList.update n i (es_udp s1)\<rparr>)"
proof -
  have i: "i = es_next s" "s1 = s\<lparr>es_open := es_open s @ [(es_next s, net, addr)], es_next := es_next s + 1\<rparr>"
    using assms(2) by (auto simp: net_listen_def split: if_splits)
  let ?s = "s1\<lparr>es_udp := AList.update n i (es_udp s1)\<rparr>"
  have f: "es_public ?s = es_public s" "es_tunnel ?s = es_tunnel s" "es_next ?s = es_next s + 1" "es_admin ?s = es_admin s"
    "es_open ?s = es_open s @ [(es_next s, net, addr)]" "map_of (es_udp ?s) = (map_of (es_udp s))(n \<mapsto> i)"
    by (simp_all add: i)
  have fresh: "map_of (es_public s) n = None" "map_of (es_udp s) n = None" using assms(3) by (auto simp: bound_names_def)
  have "known_ids ?s = insert i (known_ids s)" unfolding known_ids_def f using fresh by (simp add: ran_upd)
  then have ok: "sockets_ok ?s" using sockets_ok_new [OF assms(1) f(5,3)] i(1) by simp
  have old: "socket_addr ?s j = socket_addr s j" if "j \<in> known_ids s" for j
    using socket_addr_new [OF assms(1), of j] that assms(1) by (auto simp: socket_addr_def f sockets_ok_def)
  have new: "socket_addr ?s i = Some addr" unfolding socket_addr_def f(5) unfolding i(1) socket_addr_next [OF assms(1)] by simp
  have "public_addr ?s k = (if k = n then Some addr else public_addr s k)" for k
  proof -
    have "j \<in> known_ids s" if "map_of (es_public s) k = Some j \<or> map_of (es_udp s) k = Some j" for j
      using that by (auto simp: known_ids_def ran_def)
    then show ?thesis unfolding public_addr_def f using new old fresh by (auto split: option.splits)
  qed
  moreover have "bound_names ?s = insert n (bound_names s)" unfolding bound_names_def f by auto
  ultimately show ?thesis unfolding grows_def using ok by (auto simp: f)
qed

lemma listen_Some: "net_listen can net addr s = Some (i, s1) \<Longrightarrow> can net addr \<and> i = es_next s \<and>
  es_open s1 = es_open s @ [(i, net, addr)] \<and> es_public s1 = es_public s \<and> es_udp s1 = es_udp s \<and> es_tunnel s1 = es_tunnel s \<and> es_admin s1 = es_admin s"
  by (auto simp: net_listen_def split: if_splits)

lemma refused_all_closed: "sockets_ok s \<Longrightarrow> outcome s (Inl e) xs m (close_listeners s)"
  by (simp add: outcome_def close_all sockets_ok_def)

definition tcp_sockets :: "tunnel list \<Rightarrow> (string \<times> string) list" where
  "tcp_sockets ts = map (\<lambda>t. (''tcp'', t_public t)) ts"

definition udp_sockets :: "tunnel list \<Rightarrow> (string \<times> string) list" where
  "udp_sockets ts = map (\<lambda>t. (''udp'', t_public t)) ts"

definition name_addrs :: "tunnel list \<Rightarrow> string \<rightharpoonup> string" where
  "name_addrs ts = map_of (map (\<lambda>t. (t_name t, t_public t)) ts)"

lemma name_addrs_simps:
  "name_addrs [] = Map.empty" "name_addrs (t # ts) = (name_addrs ts)(t_name t \<mapsto> t_public t)"
  "dom (name_addrs ts) = set (map t_name ts)"
  by (auto simp: name_addrs_def dom_map_of_conv_image_fst image_image)

lemma name_addrs_Cons:
  assumes "distinct (map t_name (t # ts))"
  shows "[t_name t \<mapsto> t_public t] ++ name_addrs ts = name_addrs (t # ts)"
proof
  fix n
  have "name_addrs ts (t_name t) = None" using assms name_addrs_simps(3) [of ts] by auto
  then show "([t_name t \<mapsto> t_public t] ++ name_addrs ts) n = name_addrs (t # ts) n"
    by (auto simp: name_addrs_simps(2) map_add_def split: option.split)
qed

lemma start_tcp_outcome:
  assumes "sockets_ok s" "distinct (map t_name ts)" "set (map t_name ts) \<inter> bound_names s = {}" "start_tcp can ts s = (r, s')"
  shows "outcome s r (tcp_sockets ts) (name_addrs ts) s'"
  using assms
proof (induction ts arbitrary: s)
  case Nil
  then show ?case by (auto simp: outcome_def tcp_sockets_def name_addrs_simps grows_refl)
next
  case (Cons t ts)
  show ?case
  proof (cases "net_listen can ''tcp'' (t_public t) s")
    case None
    then show ?thesis using Cons.prems refused_all_closed by auto
  next
    case (Some x)
    obtain i s1 where x: "x = (i, s1)" by fastforce
    have "set [t_name t] \<inter> bound_names s = {}" using Cons.prems(3) by auto
    from listen_public_grows [OF Cons.prems(1) Some [unfolded x] _ this]
    have g: "grows s [(''tcp'', t_public t)] [t_name t \<mapsto> t_public t] (bind_public [t_name t] i s1)"
      by (simp add: fun_upd_def)
    have "start_tcp can ts (bind_public [t_name t] i s1) = (r, s')" using Cons.prems(4) Some x by simp
    moreover have "sockets_ok (bind_public [t_name t] i s1)" "bound_names (bind_public [t_name t] i s1) = insert (t_name t) (bound_names s)"
      using g by (auto simp: grows_def)
    ultimately have "outcome (bind_public [t_name t] i s1) r (tcp_sockets ts) (name_addrs ts) s'"
      using Cons.prems(2,3) by (intro Cons.IH) auto
    from outcome_trans [OF g this] show ?thesis
      unfolding name_addrs_Cons [OF Cons.prems(2)] by (simp only: tcp_sockets_def list.map append.simps)
  qed
qed

lemma start_udp_outcome:
  assumes "sockets_ok s" "distinct (map t_name ts)" "set (map t_name ts) \<inter> bound_names s = {}" "start_udp can ts s = (r, s')"
  shows "outcome s r (udp_sockets ts) (name_addrs ts) s'"
  using assms
proof (induction ts arbitrary: s)
  case Nil
  then show ?case by (auto simp: outcome_def udp_sockets_def name_addrs_simps grows_refl)
next
  case (Cons t ts)
  show ?case
  proof (cases "net_listen can ''udp'' (t_public t) s")
    case None
    then show ?thesis using Cons.prems refused_all_closed by auto
  next
    case (Some x)
    obtain i s1 where x: "x = (i, s1)" by fastforce
    let ?s = "s1\<lparr>es_udp := AList.update (t_name t) i (es_udp s1)\<rparr>"
    have "t_name t \<notin> bound_names s" using Cons.prems(3) by auto
    from listen_udp_grows [OF Cons.prems(1) Some [unfolded x] this]
    have g: "grows s [(''udp'', t_public t)] [t_name t \<mapsto> t_public t] ?s" .
    have "start_udp can ts ?s = (r, s')" using Cons.prems(4) Some x by simp
    moreover have "sockets_ok ?s" "bound_names ?s = insert (t_name t) (bound_names s)"
      using g by (auto simp: grows_def)
    ultimately have "outcome ?s r (udp_sockets ts) (name_addrs ts) s'"
      using Cons.prems(2,3) by (intro Cons.IH) auto
    from outcome_trans [OF g this] show ?thesis
      unfolding name_addrs_Cons [OF Cons.prems(2)] by (simp only: udp_sockets_def list.map append.simps)
  qed
qed

text \<open>The names that a list of groups binds.\<close>

fun group_addrs :: "(string \<times> http_group) list \<Rightarrow> string \<rightharpoonup> string" where
  "group_addrs [] = Map.empty"
| "group_addrs ((p, g) # gs) = (\<lambda>n. if n \<in> set (hg_names g) then Some p else None) ++ group_addrs gs"

fun apart :: "(string \<times> http_group) list \<Rightarrow> bool" where
  "apart [] = True"
| "apart ((p, g) # gs) = (hg_names g \<noteq> [] \<and> set (hg_names g) \<inter> dom (group_addrs gs) = {} \<and> apart gs)"

definition http_sockets :: "(string \<times> http_group) list \<Rightarrow> (string \<times> string) list" where
  "http_sockets gs = map (\<lambda>(p, _). (''tcp'', p)) gs"

lemma http_frame [simp]:
  "sockets_ok (s\<lparr>es_http := h\<rparr>) = sockets_ok s" "bound_names (s\<lparr>es_http := h\<rparr>) = bound_names s"
  "public_addr (s\<lparr>es_http := h\<rparr>) n = public_addr s n"
  by (simp_all add: sockets_ok_def known_ids_def bound_names_def public_addr_def socket_addr_def split: option.split)

lemma grows_http [simp]: "grows s xs m (s'\<lparr>es_http := h\<rparr>) = grows s xs m s'"
  by (simp add: grows_def)

lemma close_one:
  assumes "sockets_ok s" "net_listen can net addr s = Some (i, s1)"
  shows "es_open (close_listeners (close_sockets [i] s1)) = []"
proof (rule close_all)
  show "fst ` set (es_open (close_sockets [i] s1)) \<subseteq> known_ids (close_sockets [i] s1)"
    using assms listen_Some [OF assms(2)] by (auto simp: sockets_ok_def known_ids_def close_sockets_def)
qed

lemma start_http_outcome:
  assumes "sockets_ok s" "apart gs" "dom (group_addrs gs) \<inter> bound_names s = {}" "start_http can mat pair gs s fs = (r, s', fs')"
  shows "outcome s r (http_sockets gs) (group_addrs gs) s'"
  using assms
proof (induction gs arbitrary: s fs)
  case Nil
  then show ?case by (auto simp: outcome_def http_sockets_def grows_refl)
next
  case (Cons x gs)
  obtain p g where x: "x = (p, g)" by fastforce
  show ?case
  proof (cases "net_listen can ''tcp'' p s")
    case None
    then show ?thesis using Cons.prems refused_all_closed x by auto
  next
    case (Some y)
    obtain i s1 where y: "y = (i, s1)" by fastforce
    note l = Some [unfolded y]
    obtain gen fs1 where m: "http_material mat g fs = (gen, fs1)" by fastforce
    show ?thesis
    proof (cases "start_listener gen (load_x509_key_pair pair fs1) p g")
      case (Inl e)
      then have "r = Inl (HTTPCerts e)" "s' = close_listeners (close_sockets [i] s1)" using Cons.prems(4) x l m by auto
      then show ?thesis using close_one [OF Cons.prems(1) l] by (simp add: outcome_def)
    next
      case (Inr hl)
      let ?s = "(bind_public (hg_names g) i s1)\<lparr>es_http := es_http s1 @ [hl]\<rparr>"
      have n: "set (hg_names g) \<inter> bound_names s = {}" "hg_names g \<noteq> []" "set (hg_names g) \<inter> dom (group_addrs gs) = {}" "apart gs"
        using Cons.prems(2,3) x by (auto simp: dom_def split: if_splits)
      from listen_public_grows [OF Cons.prems(1) l n(2,1)]
      have gr: "grows s [(''tcp'', p)] (\<lambda>n. if n \<in> set (hg_names g) then Some p else None) ?s" by simp
      then have k: "sockets_ok ?s" "bound_names ?s = bound_names s \<union> set (hg_names g)" by (auto simp: grows_def dom_def split: if_splits)
      have "dom (group_addrs gs) \<inter> bound_names ?s = {}" using Cons.prems(3) n(3) k(2) x by (auto simp: dom_def)
      moreover have "start_http can mat pair gs ?s fs1 = (r, s', fs')" using Cons.prems(4) x l m Inr by simp
      ultimately have "outcome ?s r (http_sockets gs) (group_addrs gs) s'" using Cons.IH [OF k(1) n(4)] by blast
      from outcome_trans [OF gr this] show ?thesis by (simp add: x http_sockets_def)
    qed
  qed
qed

section \<open>The groups of HTTP tunnels\<close>

lemma group_names:
  "map_of (group_http_tunnels ts) p = Some g \<Longrightarrow> set (hg_names g) = t_name ` {t \<in> set ts. t_public t = p} \<and> hg_names g \<noteq> []"
proof (induction ts arbitrary: g rule: rev_induct)
  case (snoc t ts)
  have s: "group_http_tunnels (ts @ [t]) = group_add t (group_http_tunnels ts)" by (simp add: group_http_tunnels_def)
  show ?case
  proof (cases "t_public t = p")
    case False
    then have "map_of (group_http_tunnels ts) p = Some g" using snoc.prems by (simp add: s group_add_map)
    from snoc.IH [OF this] show ?thesis using False by auto
  next
    case True
    show ?thesis
    proof (cases "map_of (group_http_tunnels ts) p")
      case None
      then have "\<forall>t \<in> set ts. t_public t \<noteq> p" using groups_spec by blast
      moreover have "hg_names g = [t_name t]" using snoc.prems True None by (auto simp: s group_add_map Let_def List.insert_def)
      ultimately show ?thesis using True by auto
    next
      case (Some h)
      then have "hg_names g = List.insert (t_name t) (hg_names h)" using snoc.prems True by (auto simp: s group_add_map Let_def)
      then have "set (hg_names g) = insert (t_name t) (set (hg_names h))" "hg_names g \<noteq> []" by (auto simp: List.insert_def split: if_splits)
      then show ?thesis using snoc.IH [OF Some] True by auto
    qed
  qed
qed (simp add: group_http_tunnels_def)

lemma group_keys: "distinct (map fst (group_http_tunnels ts))"
proof (induction ts rule: rev_induct)
  case (snoc t ts)
  have "group_http_tunnels (ts @ [t]) = group_add t (group_http_tunnels ts)" by (simp add: group_http_tunnels_def)
  then show ?case using snoc by (simp add: group_add_def Let_def)
qed (simp add: group_http_tunnels_def)

lemma group_addrs_Some:
  "group_addrs gs n = Some p \<Longrightarrow> \<exists>g. (p, g) \<in> set gs \<and> n \<in> set (hg_names g)"
  by (induction gs rule: group_addrs.induct) (auto simp: map_add_def split: option.splits if_splits)

lemma group_addrs_mem:
  assumes "(p, g) \<in> set gs" "n \<in> set (hg_names g)" "\<And>q h. (q, h) \<in> set gs \<Longrightarrow> n \<in> set (hg_names h) \<Longrightarrow> q = p"
  shows "group_addrs gs n = Some p"
proof -
  have "group_addrs gs n \<noteq> None"
    using assms(1,2) by (induction gs rule: group_addrs.induct) (auto simp: map_add_def split: option.splits)
  then show ?thesis using group_addrs_Some [of gs n] assms(3) by auto
qed

lemma apart_groups:
  assumes "distinct (map fst gs)" "\<And>p g. (p, g) \<in> set gs \<Longrightarrow> set (hg_names g) = t_name ` {t \<in> set ts. t_public t = p} \<and> hg_names g \<noteq> []"
    "distinct (map t_name ts)"
  shows "apart gs"
  using assms(1,2)
proof (induction gs rule: apart.induct)
  case (2 p g gs)
  have "n \<notin> dom (group_addrs gs)" if n: "n \<in> set (hg_names g)" for n
  proof
    assume "n \<in> dom (group_addrs gs)"
    then obtain q h where h: "(q, h) \<in> set gs" "n \<in> set (hg_names h)" using group_addrs_Some by blast
    obtain t u where "t \<in> set ts" "t_public t = p" "t_name t = n" "u \<in> set ts" "t_public u = q" "t_name u = n"
      using n h 2(3) [of p g] 2(3) [of q h] by auto
    then have "p = q" using assms(3) by (metis distinct_map inj_on_eq_iff)
    then show False using h 2(2) by force
  qed
  moreover have "apart gs" using 2 by auto
  ultimately show ?case using 2(3) [of p g] by auto
qed simp

lemma http_groups_addrs:
  assumes "distinct gs" "set gs = set (group_http_tunnels ts)" "distinct (map t_name ts)"
  shows "apart gs \<and> group_addrs gs = name_addrs ts"
proof -
  have d: "distinct (map fst gs)" using assms(1,2) group_keys [of ts] by (simp add: distinct_map)
  have e: "(p, g) \<in> set gs \<longleftrightarrow> map_of (group_http_tunnels ts) p = Some g" for p g
    using assms(2) group_keys [of ts] by (metis map_of_eq_Some_iff)
  have n: "set (hg_names g) = t_name ` {t \<in> set ts. t_public t = p} \<and> hg_names g \<noteq> []" if "(p, g) \<in> set gs" for p g
    using group_names that e by blast
  have "group_addrs gs x = name_addrs ts x" for x
  proof (cases "x \<in> t_name ` set ts")
    case True
    then obtain t where t: "t \<in> set ts" "t_name t = x" by blast
    obtain g where g: "(t_public t, g) \<in> set gs" using e groups_spec [of ts "t_public t"] t(1) by (cases "map_of (group_http_tunnels ts) (t_public t)") auto
    have "group_addrs gs x = Some (t_public t)"
    proof (rule group_addrs_mem [OF g])
      show "x \<in> set (hg_names g)" using n [OF g] t by auto
      fix q h
      assume "(q, h) \<in> set gs" "x \<in> set (hg_names h)"
      then obtain u where "u \<in> set ts" "t_name u = x" "t_public u = q" using n [of q h] by auto
      then show "q = t_public t" using t assms(3) by (metis distinct_map inj_on_eq_iff)
    qed
    moreover have "name_addrs ts x = Some (t_public t)"
      using t assms(3) unfolding name_addrs_def by (auto intro!: map_of_is_SomeI simp: comp_def)
    ultimately show ?thesis by simp
  next
    case False
    then have "name_addrs ts x = None" using name_addrs_simps(3) [of ts] by auto
    moreover have "group_addrs gs x = None" using group_addrs_Some [of gs x] n False by (cases "group_addrs gs x") auto
    ultimately show ?thesis by simp
  qed
  then show ?thesis using apart_groups [OF d n assms(3)] by (simp add: fun_eq_iff)
qed

section \<open>All or nothing\<close>

definition wanted_sockets :: "config \<Rightarrow> (string \<times> http_group) list \<Rightarrow> (string \<times> string) list" where
  "wanted_sockets c gs =
     (''tcp'', listen c) # tcp_sockets (tcp_tunnels c) @ http_sockets gs @ udp_sockets (udp_tunnels c)"

definition started :: "config \<Rightarrow> (string \<times> http_group) list \<Rightarrow> edge_sockets \<Rightarrow> bool" where
  "started c gs s \<longleftrightarrow> sockets_ok s \<and> map snd (es_open s) = wanted_sockets c gs \<and> es_admin s = None \<and>
     (\<forall>t \<in> set (cfg_tunnels c). public_addr s (t_name t) = Some (t_public t))"

lemma no_sockets_ok: "sockets_ok no_sockets" "bound_names no_sockets = {}"
  by (simp_all add: no_sockets_def sockets_ok_def bound_names_def known_ids_def)

lemma filter_names:
  assumes "distinct (map t_name ts)"
  shows "distinct (map t_name (filter P ts))" and "(\<And>t. \<not> (P t \<and> Q t)) \<Longrightarrow> t_name ` set (filter P ts) \<inter> t_name ` set (filter Q ts) = {}"
proof -
  show "distinct (map t_name (filter P ts))" using assms by (rule distinct_map_filter)
  assume q: "\<And>t. \<not> (P t \<and> Q t)"
  show "t_name ` set (filter P ts) \<inter> t_name ` set (filter Q ts) = {}"
    using assms q by (auto simp: distinct_map inj_on_def)
qed

lemma name_addrs_Some: "distinct (map t_name ts) \<Longrightarrow> t \<in> set ts \<Longrightarrow> name_addrs ts (t_name t) = Some (t_public t)"
  unfolding name_addrs_def by (auto intro!: map_of_is_SomeI simp: comp_def)

lemma name_addrs_None: "n \<notin> t_name ` set ts \<Longrightarrow> name_addrs ts n = None"
  using name_addrs_simps(3) [of ts] by auto

lemma start_tcp_udp: "start_tcp can ts s = (Inr u, s') \<Longrightarrow> es_udp s' = es_udp s"
proof (induction ts arbitrary: s)
  case (Cons t ts)
  then show ?case
    using listen_Some [of can "''tcp''" "t_public t" s] by (auto simp: bind_public_def split: option.splits)
qed simp

lemma start_http_udp: "start_http can mat pair gs s fs = (Inr u, s', fs') \<Longrightarrow> es_udp s' = es_udp s"
proof (induction gs arbitrary: s fs)
  case (Cons x gs)
  obtain p g where x: "x = (p, g)" by fastforce
  show ?case
    using Cons listen_Some [of can "''tcp''" p s]
    by (auto simp: x bind_public_def split: option.splits prod.splits sum.splits)
qed simp

lemma started_names:
  assumes "distinct (map t_name (cfg_tunnels c))" "list_all known_type (cfg_tunnels c)" "t \<in> set (cfg_tunnels c)"
  shows "(name_addrs (tcp_tunnels c) ++ name_addrs (http_tunnels c) ++ name_addrs (udp_tunnels c)) (t_name t) = Some (t_public t)"
proof -
  have d: "distinct (map t_name (tcp_tunnels c))" "distinct (map t_name (http_tunnels c))" "distinct (map t_name (udp_tunnels c))"
    using filter_names(1) [OF assms(1)] by (simp_all add: tcp_tunnels_def http_tunnels_def udp_tunnels_def)
  have i: "u \<in> set (cfg_tunnels c) \<Longrightarrow> t_name u = t_name t \<Longrightarrow> u = t" for u using assms(1,3) by (simp add: distinct_map inj_on_def)
  have n: "t_name t \<in> t_name ` set (filter P (cfg_tunnels c)) \<longleftrightarrow> P t" for P
  proof
    assume "t_name t \<in> t_name ` set (filter P (cfg_tunnels c))"
    then obtain u where "u \<in> set (cfg_tunnels c)" "P u" "t_name u = t_name t" by auto
    then show "P t" using i [of u] by simp
  qed (use assms(3) in simp)
  have "t_type t = TypeTCP \<or> t_type t = TypeHTTP \<or> t_type t = TypeUDP" using assms(2,3) by (auto simp: list_all_iff known_type_def)
  then show ?thesis
  proof (elim disjE)
    assume y: "t_type t = TypeTCP"
    have "t \<in> set (tcp_tunnels c)" using assms(3) y by (simp add: tcp_tunnels_def)
    moreover have "t_name t \<notin> t_name ` set (http_tunnels c)" "t_name t \<notin> t_name ` set (udp_tunnels c)"
      unfolding http_tunnels_def udp_tunnels_def n using y by simp_all
    ultimately show ?thesis using name_addrs_Some [OF d(1)] name_addrs_None by (simp add: map_add_def)
  next
    assume y: "t_type t = TypeHTTP"
    have "t \<in> set (http_tunnels c)" using assms(3) y by (simp add: http_tunnels_def)
    moreover have "t_name t \<notin> t_name ` set (udp_tunnels c)" unfolding udp_tunnels_def n using y by simp
    ultimately show ?thesis using name_addrs_Some [OF d(2)] name_addrs_None by (simp add: map_add_def)
  next
    assume y: "t_type t = TypeUDP"
    have "t \<in> set (udp_tunnels c)" using assms(3) y by (simp add: udp_tunnels_def)
    then show ?thesis using name_addrs_Some [OF d(3)] by (simp add: map_add_def)
  qed
qed

lemma kinds_apart:
  assumes "distinct (map t_name (cfg_tunnels c))"
  shows "distinct (map t_name (tcp_tunnels c))" "distinct (map t_name (http_tunnels c))" "distinct (map t_name (udp_tunnels c))"
    "t_name ` set (tcp_tunnels c) \<inter> t_name ` set (http_tunnels c) = {}" "t_name ` set (tcp_tunnels c) \<inter> t_name ` set (udp_tunnels c) = {}"
    "t_name ` set (http_tunnels c) \<inter> t_name ` set (udp_tunnels c) = {}"
  using filter_names [OF assms] unfolding tcp_tunnels_def http_tunnels_def udp_tunnels_def by simp_all

text \<open>The last of the three stages, with what the first two have opened.\<close>

lemma start_udp_stage:
  assumes n: "distinct (map t_name (cfg_tunnels c))" "list_all known_type (cfg_tunnels c)"
    and s0: "es_open s0 = [(i, ''tcp'', listen c)]" "es_admin s0 = None" "bound_names s0 = {}"
    and g1: "grows s0 (tcp_sockets (tcp_tunnels c)) (name_addrs (tcp_tunnels c)) s2"
    and g2: "grows s2 (http_sockets gs) (name_addrs (http_tunnels c)) s3"
    and w: "start_udp can (udp_tunnels c) s3 = (r, s4)"
  shows "case r of Inl e \<Rightarrow> es_open s4 = [] | Inr _ \<Rightarrow> started c gs s4"
proof -
  note d = kinds_apart [OF n(1)] and g12 = grows_trans [OF g1 g2]
  have "bound_names s3 = t_name ` set (tcp_tunnels c) \<union> t_name ` set (http_tunnels c)"
    using g12 s0(3) by (auto simp: grows_def name_addrs_simps(3))
  then have "set (map t_name (udp_tunnels c)) \<inter> bound_names s3 = {}" using d(5,6) by auto
  moreover have "sockets_ok s3" using g2 by (simp add: grows_def)
  ultimately have o3: "outcome s3 r (udp_sockets (udp_tunnels c)) (name_addrs (udp_tunnels c)) s4"
    using start_udp_outcome [OF _ d(3) _ w] by blast
  show ?thesis
  proof (cases r)
    case (Inl z)
    then show ?thesis using o3 by (simp add: outcome_def)
  next
    case (Inr z)
    with o3 have g3: "grows s3 (udp_sockets (udp_tunnels c)) (name_addrs (udp_tunnels c)) s4" by (simp add: outcome_def)
    note g = grows_trans [OF g12 g3]
    have "public_addr s4 (t_name q) = Some (t_public q)" if "q \<in> set (cfg_tunnels c)" for q
      using g started_names [OF n that] by (simp add: grows_def)
    then have "started c gs s4" using g s0 by (simp add: started_def grows_def wanted_sockets_def)
    then show ?thesis using Inr by simp
  qed
qed

lemma start_ports_outcome:
  assumes "distinct (map t_name (cfg_tunnels c))" "list_all known_type (cfg_tunnels c)"
    "distinct gs" "set gs = set (group_http_tunnels (http_tunnels c))"
    "start_ports can mat pair gs c no_sockets fs = (r, s, fs')"
  shows "case r of Inl e \<Rightarrow> es_open s = [] | Inr _ \<Rightarrow> started c gs s"
proof (cases "net_listen can ''tcp'' (listen c) no_sockets")
  case None
  then show ?thesis using assms(5) by (auto simp: start_ports_def no_sockets_def)
next
  case (Some x)
  obtain i s1 where x: "x = (i, s1)" by fastforce
  let ?s0 = "s1\<lparr>es_tunnel := Some i\<rparr>"
  have s0: "es_open ?s0 = [(i, ''tcp'', listen c)]" "es_admin ?s0 = None" "es_udp ?s0 = []" "es_public ?s0 = []" "i = 0" "es_next ?s0 = 1"
    using Some x by (auto simp: net_listen_def no_sockets_def split: if_splits)
  then have ok: "sockets_ok ?s0" "bound_names ?s0 = {}" by (simp_all add: sockets_ok_def known_ids_def bound_names_def)
  note d = kinds_apart [OF assms(1)]
  obtain r1 s2 where t: "start_tcp can (tcp_tunnels c) ?s0 = (r1, s2)" by fastforce
  have o1: "outcome ?s0 r1 (tcp_sockets (tcp_tunnels c)) (name_addrs (tcp_tunnels c)) s2"
    using start_tcp_outcome [OF ok(1) d(1) _ t] ok(2) by simp
  show ?thesis
  proof (cases r1)
    case (Inl e)
    then show ?thesis using assms(5) Some x t o1 by (auto simp: start_ports_def outcome_def)
  next
    case r1: (Inr u)
    with o1 have g1: "grows ?s0 (tcp_sockets (tcp_tunnels c)) (name_addrs (tcp_tunnels c)) s2" by (simp add: outcome_def)
    note ga = http_groups_addrs [OF assms(3,4) d(2)]
    obtain r2 s3 fs1 where h: "start_http can mat pair gs s2 fs = (r2, s3, fs1)" by (metis prod_cases3)
    have b2: "bound_names s2 = t_name ` set (tcp_tunnels c)" using g1 ok(2) by (simp add: grows_def name_addrs_simps(3))
    have "dom (group_addrs gs) \<inter> bound_names s2 = {}" using ga b2 d(4) by (auto simp: name_addrs_simps(3))
    from start_http_outcome [OF _ _ this h] have o2: "outcome s2 r2 (http_sockets gs) (name_addrs (http_tunnels c)) s3"
      using g1 ga by (simp add: grows_def)
    show ?thesis
    proof (cases r2)
      case (Inl e)
      then show ?thesis using assms(5) Some x t h r1 o2 by (auto simp: start_ports_def outcome_def)
    next
      case (Inr v)
      with o2 have g2: "grows s2 (http_sockets gs) (name_addrs (http_tunnels c)) s3" by (simp add: outcome_def)
      have "es_udp s3 = []" using start_http_udp [of can mat pair gs s2 fs v s3 fs1] start_tcp_udp [of can _ ?s0 u s2] h t Inr r1 s0(3) by simp
      then have "s3\<lparr>es_udp := []\<rparr> = s3" by simp
      then have w: "start_udp can (udp_tunnels c) s3 = (r, s)" using assms(5) Some x t h Inr r1 by (auto simp: start_ports_def split: prod.splits)
      show ?thesis by (rule start_udp_stage [OF assms(1,2) s0(1,2) ok(2) g1 g2 w])
    qed
  qed
qed

lemma admin_socket:
  assumes "sockets_ok s" "admin_start can addr tls s = (True, s')"
  shows "map snd (es_open s') = map snd (es_open s) @ [(''tcp'', addr)]" "public_addr s' n = public_addr s n"
    "es_admin s' = Some (es_next s, tls)" "es_open (close_listeners (close_sockets [es_next s] s')) = []"
proof -
  have s': "s' = s\<lparr>es_open := es_open s @ [(es_next s, ''tcp'', addr)], es_next := es_next s + 1, es_admin := Some (es_next s, tls)\<rparr>"
    using assms(2) by (auto simp: net_listen_def split: if_splits)
  then have f: "es_open s' = es_open s @ [(es_next s, ''tcp'', addr)]" "es_public s' = es_public s" "es_udp s' = es_udp s"
    "es_tunnel s' = es_tunnel s"
    by simp_all
  show "map snd (es_open s') = map snd (es_open s) @ [(''tcp'', addr)]" "es_admin s' = Some (es_next s, tls)" by (simp_all add: s')
  have old: "socket_addr s' j = socket_addr s j" if "j \<in> known_ids s" for j
    using socket_addr_new [OF assms(1), of j] that assms(1) unfolding socket_addr_def f(1) by (auto simp: sockets_ok_def)
  have "j \<in> known_ids s" if "map_of (es_public s) n = Some j \<or> map_of (es_udp s) n = Some j" for j
    using that by (auto simp: known_ids_def ran_def)
  then show "public_addr s' n = public_addr s n" unfolding public_addr_def f(2,3) using old by (auto split: option.splits)
  show "es_open (close_listeners (close_sockets [es_next s] s')) = []"
    by (rule close_all) (use assms(1) in \<open>auto simp: sockets_ok_def close_sockets_def known_ids_def f\<close>)
qed

lemma start_admin_outcome:
  assumes "started c gs s" "start_admin can c bans store s = (r, s')"
  shows "case r of
      Inl e \<Rightarrow> es_open (close_listeners s') = []
    | Inr adm \<Rightarrow> map snd (es_open s') = wanted_sockets c gs @ (if admin_enabled c then [(''tcp'', admin_listen c)] else []) \<and>
        (\<forall>t \<in> set (cfg_tunnels c). public_addr s' (t_name t) = Some (t_public t)) \<and>
        (adm \<noteq> None \<longleftrightarrow> admin_enabled c) \<and>
        (\<forall>i tls. es_admin s' = Some (i, tls) \<longrightarrow> (tls \<longleftrightarrow> \<not> listen_host_is_loopback (admin_listen c))) \<and>
        es_open (close_listeners (case es_admin s' of None \<Rightarrow> s' | Some (i, _) \<Rightarrow> close_sockets [i] s')) = []"
proof -
  let ?tls = "\<not> listen_host_is_loopback (admin_listen c)"
  have ok: "sockets_ok s" "es_open (close_listeners s) = []" "es_admin s = None"
    using assms(1) close_all by (auto simp: started_def sockets_ok_def)
  consider "\<not> admin_enabled c" "r = Inr None" "s' = s"
    | e where "admin_enabled c" "r = Inl e" "s' = s"
    | adm where "admin_enabled c" "r = Inr (Some adm)" "admin_start can (admin_listen c) ?tls s = (True, s')"
    using assms(2) by (auto simp: start_admin_def split: if_splits sum.splits option.splits prod.splits)
  then show ?thesis
  proof cases
    case 3
    show ?thesis
      using assms(1) 3(1) admin_socket(1,3,4) [OF ok(1) 3(3)] admin_socket(2) [OF ok(1) 3(3)] unfolding 3(2) by (simp add: started_def)
  qed (use assms(1) ok in \<open>simp_all add: started_def\<close>)
qed

lemma edge_start_cases:
  assumes "validate_edge c0 = Inr c" "distinct gs" "set gs = set (group_http_tunnels (http_tunnels c))"
    "edge_start can mat pair gs c bans store no_sockets fs = (r, s, fs')"
  shows "case r of
      Inl e \<Rightarrow> es_open s = []
    | Inr adm \<Rightarrow> map snd (es_open s) = wanted_sockets c gs @ (if admin_enabled c then [(''tcp'', admin_listen c)] else []) \<and>
        (\<forall>t \<in> set (cfg_tunnels c). public_addr s (t_name t) = Some (t_public t)) \<and>
        (adm \<noteq> None \<longleftrightarrow> admin_enabled c) \<and>
        (\<forall>i tls. es_admin s = Some (i, tls) \<longrightarrow> (tls \<longleftrightarrow> \<not> listen_host_is_loopback (admin_listen c))) \<and>
        es_open (close_listeners (case es_admin s of None \<Rightarrow> s | Some (i, _) \<Rightarrow> close_sockets [i] s)) = []"
proof -
  have v: "distinct (map t_name (cfg_tunnels c))" "list_all known_type (cfg_tunnels c)"
    using assms(1) unfolding validate_edge_Inr edge_typed_def by (auto simp: list_all_iff)
  obtain m fs1 where m: "mat default_hosts fs = (m, fs1)" by fastforce
  show ?thesis
  proof (cases m)
    case (Inl e)
    then have "r = Inl (TLSMaterial e)" "s = no_sockets" using assms(4) m by (auto simp: edge_start_def)
    then show ?thesis by (simp add: no_sockets_def)
  next
    case (Inr cert)
    obtain r1 s1 fs2 where p: "start_ports can mat pair gs c no_sockets fs1 = (r1, s1, fs2)" by (metis prod_cases3)
    note o = start_ports_outcome [OF v assms(2,3) p]
    show ?thesis
    proof (cases r1)
      case e: (Inl e)
      then have "r = Inl e" "s = s1" using assms(4) m Inr p by (auto simp: edge_start_def)
      then show ?thesis using o e by simp
    next
      case u: (Inr u)
      then have st: "started c gs s1" using o by simp
      obtain r2 s2 where a: "start_admin can c bans store s1 = (r2, s2)" by fastforce
      note oa = start_admin_outcome [OF st a]
      show ?thesis
      proof (cases r2)
        case f: (Inl e)
        then have "r = Inl e" "s = close_listeners s2" using assms(4) m Inr p u a by (auto simp: edge_start_def)
        then show ?thesis using oa f by simp
      next
        case g: (Inr adm)
        then have q: "r = Inr adm" "s = s2" using assms(4) m Inr p u a by (auto simp: edge_start_def)
        show ?thesis using oa g unfolding q by simp
      qed
    qed
  qed
qed

text \<open>
C25: Edge starts completely or not at all. For a configuration that validation accepts, whatever sockets can be opened and in whatever order the HTTP addresses are taken: if \<open>Start\<close> fails, every socket it had opened is closed again; if it succeeds there is exactly one socket for the tunnel port, one per TCP tunnel, one per HTTP address, one per UDP tunnel and one for the Admin API if it is on, every tunnel is bound under its name to the address it was configured with, and the Admin API speaks TLS exactly when it does not listen on loopback.
\<close>

theorem edge_starts_or_closes:
  assumes "validate_edge c0 = Inr c" "distinct gs" "set gs = set (group_http_tunnels (http_tunnels c))"
    "edge_start can mat pair gs c bans store no_sockets fs = (r, s, fs')"
  shows "case r of
      Inl e \<Rightarrow> es_open s = []
    | Inr adm \<Rightarrow>
        map snd (es_open s) = (''tcp'', listen c) # map (\<lambda>t. (''tcp'', t_public t)) (tcp_tunnels c) @ map (\<lambda>(p, _). (''tcp'', p)) gs @
          map (\<lambda>t. (''udp'', t_public t)) (udp_tunnels c) @ (if admin_enabled c then [(''tcp'', admin_listen c)] else []) \<and>
        (\<forall>t \<in> set (cfg_tunnels c). public_addr s (t_name t) = Some (t_public t)) \<and>
        (adm \<noteq> None \<longleftrightarrow> admin_enabled c) \<and>
        (\<forall>i tls. es_admin s = Some (i, tls) \<longrightarrow> (tls \<longleftrightarrow> \<not> listen_host_is_loopback (admin_listen c)))"
  using edge_start_cases [OF assms]
  by (cases r) (simp_all add: wanted_sockets_def tcp_sockets_def http_sockets_def udp_sockets_def)

text \<open>
Shutting down leaves nothing behind. After a successful start and a \<open>Shutdown\<close> no socket is open, no public connection is tracked any more, the HTTP listeners hold none, there is no agent session, the one that was current is closed, and the metrics say that no agent is connected.
\<close>

theorem edge_stops_clean:
  assumes "validate_edge c0 = Inr c" "distinct gs" "set gs = set (group_http_tunnels (http_tunnels c))"
    "edge_start can mat pair gs c bans store no_sockets fs = (Inr adm, s, fs')" "edge_shutdown srv s = (srv', s')"
  shows "es_open s' = [] \<and> tcp_conns srv' = [] \<and> (\<forall>hl \<in> set (es_http s'). hl_conns hl = []) \<and>
     get_session srv' = None \<and> (\<forall>x. sess srv = Some x \<longrightarrow> x \<in> set (dead_sess srv')) \<and> \<not> agent_connected (reg srv')"
proof -
  let ?k = "case es_admin s of None \<Rightarrow> s | Some (i, _) \<Rightarrow> close_sockets [i] s"
  have c: "es_open (close_listeners ?k) = []" using edge_start_cases [OF assms(1-4)] by simp
  have h: "es_open (close_listeners (k\<lparr>es_http := h\<rparr>)) = es_open (close_listeners k)" "es_http (close_listeners k) = es_http k" for k h
    by (simp_all add: close_listeners_def close_sockets_def)
  have s': "s' = close_listeners (?k\<lparr>es_http := map hl_close_all (es_http ?k)\<rparr>)" using assms(5) by (auto simp: edge_shutdown_def Let_def)
  have "tcp_conns srv' = [] \<and> sess srv' = None \<and> (\<forall>x. sess srv = Some x \<longrightarrow> x \<in> set (dead_sess srv')) \<and> \<not> agent_connected (reg srv')"
    using assms(5) by (auto simp: edge_shutdown_def Let_def close_tcp_conns_def close_session_def set_agent_connected_def split: option.splits)
  moreover have "es_open s' = []" "\<forall>hl \<in> set (es_http s'). hl_conns hl = []"
    unfolding s' using c h by (auto simp: hl_close_all_def)
  ultimately show ?thesis by (simp add: get_session_def)
qed

section \<open>Examples\<close>

definition example_groups :: "(string \<times> http_group) list" where
  "example_groups = group_http_tunnels (http_tunnels (example_sites ''a'' ''b''))"

lemma example_groups: "validate_edge (example_sites ''a'' ''b'') = Inr (example_sites ''a'' ''b'')" "distinct example_groups"
  "set example_groups = set (group_http_tunnels (http_tunnels (example_sites ''a'' ''b'')))"
proof -
  show "validate_edge (example_sites ''a'' ''b'') = Inr (example_sites ''a'' ''b'')" by code_simp
  show "distinct example_groups" using group_keys unfolding example_groups_def by (simp add: distinct_map)
qed (simp add: example_groups_def)

definition example_edge_start :: "(string \<Rightarrow> string \<Rightarrow> bool) \<Rightarrow> (start_error + admin option) \<times> edge_sockets \<times> files" where
  "example_edge_start can =
     edge_start can (\<lambda>hosts fs. (Inr ''C'', fs)) (\<lambda>c k. None) example_groups (example_sites ''a'' ''b'')
       (ban_new [] \<lparr>target = Absent, temps = []\<rparr>) (new_store None [] \<lparr>target = Absent, temps = []\<rparr>) no_sockets (\<lambda>_. FAbsent)"

lemma example_groups_eval:
  "\<exists>g. example_groups = [('':81'', g)] \<and> \<not> hg_tls g"
proof -
  have "map (\<lambda>(p, g). (p, hg_tls g)) example_groups = [('':81'', False)]" by code_simp
  then show ?thesis by auto
qed

theorem edge_starts_or_closes_witness:
  "fst (snd (example_edge_start (\<lambda>net addr. addr \<noteq> '':81''))) = no_sockets\<lparr>es_open := [], es_next := 1, es_tunnel := Some 0\<rparr> \<and>
   map snd (es_open (fst (snd (example_edge_start (\<lambda>net addr. True))))) = [(''tcp'', '':80''), (''tcp'', '':81'')]"
proof -
  obtain g where g: "example_groups = [('':81'', g)]" "\<not> hg_tls g"
    using example_groups_eval by blast
  have c: "tcp_tunnels (example_sites ''a'' ''b'') = []" "udp_tunnels (example_sites ''a'' ''b'') = []" "listen (example_sites ''a'' ''b'') = '':80''"
    "\<not> admin_enabled (example_sites ''a'' ''b'')"
    by code_simp+
  note d = example_edge_start_def edge_start_def start_ports_def net_listen_def start_admin_def c g http_material_def start_listener_def bind_public_def
  have "fst (example_edge_start (\<lambda>net addr. True)) = Inr None"
    by (simp add: d no_sockets_def Let_def)
  then obtain s fs' where s: "example_edge_start (\<lambda>net addr. True) = (Inr None, s, fs')" by (metis prod.collapse)
  from edge_starts_or_closes [OF example_groups s [unfolded example_edge_start_def]]
  have "map snd (es_open s) = [(''tcp'', '':80''), (''tcp'', '':81'')]" by (simp add: c g)
  moreover have "fst (snd (example_edge_start (\<lambda>net addr. addr \<noteq> '':81''))) = no_sockets\<lparr>es_open := [], es_next := 1, es_tunnel := Some 0\<rparr>"
    by (simp add: d no_sockets_def close_listeners_def close_sockets_def)
  ultimately show ?thesis by (simp add: s)
qed

theorem edge_stops_clean_witness:
  "case example_edge_start (\<lambda>net addr. True) of (r, s, fs) \<Rightarrow> es_open s \<noteq> [] \<and> es_open (snd (edge_shutdown example_server s)) = []"
proof -
  obtain g where g: "example_groups = [('':81'', g)]" "\<not> hg_tls g"
    using example_groups_eval by blast
  have c: "tcp_tunnels (example_sites ''a'' ''b'') = []" "udp_tunnels (example_sites ''a'' ''b'') = []" "listen (example_sites ''a'' ''b'') = '':80''"
    "\<not> admin_enabled (example_sites ''a'' ''b'')"
    by code_simp+
  have "fst (example_edge_start (\<lambda>net addr. True)) = Inr None \<and> es_open (fst (snd (example_edge_start (\<lambda>net addr. True)))) \<noteq> []"
    by (simp add: example_edge_start_def edge_start_def start_ports_def net_listen_def start_admin_def c g http_material_def start_listener_def
        bind_public_def no_sockets_def Let_def)
  then obtain s fs' where s: "example_edge_start (\<lambda>net addr. True) = (Inr None, s, fs')" "es_open s \<noteq> []" by (metis prod.collapse fst_conv snd_conv)
  from edge_stops_clean [OF example_groups s(1) [unfolded example_edge_start_def], of example_server "fst (edge_shutdown example_server s)" "snd (edge_shutdown example_server s)"]
  show ?thesis using s by simp
qed

end
