(* ===== verification/Cli.thy ===== *)
theory Cli
  imports Admin ConfigLoad
begin

text \<open>
  The command line client of the Admin API, \<open>cmd/faketunnel/main.go\<close>: its arguments, where its token
  comes from, and the commands \<open>allowlist\<close>, \<open>denylist\<close> and \<open>status\<close>.

  The \<open>flag\<close> package is modelled as far as the client uses it. The JSON encoder and decoder and the
  HTTP client are arguments; \<open>send\<close> takes a request and the state of the server and gives the answer,
  a status with a body or an error. Output is the list of printed lines.
\<close>

section \<open>Arguments\<close>

record cli_flags =
  cf_admin :: string
  cf_token :: string
  cf_token_file :: string
  cf_actor :: string
  cf_insecure :: bool

datatype flag_error = BadSyntax string | HelpFlag | NotDefined string | NeedsArgument string | BadBool string | BadValue string

text \<open>\<open>strconv.ParseBool\<close>, as the boolean flag uses it.\<close>

definition parse_bool :: "string \<Rightarrow> bool option" where
  "parse_bool v =
     (if v \<in> set [''1'', ''t'', ''T'', ''true'', ''TRUE'', ''True''] then Some True
      else if v \<in> set [''0'', ''f'', ''F'', ''false'', ''FALSE'', ''False''] then Some False
      else None)"

definition set_flag :: "string \<Rightarrow> string \<Rightarrow> cli_flags \<Rightarrow> cli_flags option" where
  "set_flag name v fl =
     (if name = ''admin'' then Some (fl\<lparr>cf_admin := v\<rparr>)
      else if name = ''token'' then Some (fl\<lparr>cf_token := v\<rparr>)
      else if name = ''token-file'' then Some (fl\<lparr>cf_token_file := v\<rparr>)
      else if name = ''actor'' then Some (fl\<lparr>cf_actor := v\<rparr>)
      else None)"

text \<open>The name and the value of \<open>-name=value\<close>; the equals sign cannot come first.\<close>

definition split_flag :: "string \<Rightarrow> string \<times> string option" where
  "split_flag s =
     (case index_byte (drop 1 s) (CHR ''='') of
        None \<Rightarrow> (s, None)
      | Some i \<Rightarrow> (take (i + 1) s, Some (drop (i + 2) s)))"

text \<open>One step of \<open>FlagSet.Parse\<close>: \<open>Inl\<close> with an error, or the flags with what is left and whether
  parsing goes on.\<close>

definition parse_one :: "string \<Rightarrow> string list \<Rightarrow> cli_flags \<Rightarrow> flag_error + (bool \<times> cli_flags \<times> string list)" where
  "parse_one s as fl =
     (if length s < 2 \<or> s ! 0 \<noteq> CHR ''-'' then Inr (False, fl, s # as)
      else if s = ''--'' then Inr (False, fl, as)
      else let name0 = (if s ! 1 = CHR ''-'' then drop 2 s else drop 1 s) in
        if name0 = [] \<or> name0 ! 0 = CHR ''-'' \<or> name0 ! 0 = CHR ''='' then Inl (BadSyntax s)
        else case split_flag name0 of (name, val) \<Rightarrow>
          if name = ''insecure'' then
            (case val of
               None \<Rightarrow> Inr (True, fl\<lparr>cf_insecure := True\<rparr>, as)
             | Some v \<Rightarrow> (case parse_bool v of None \<Rightarrow> Inl (BadBool v) | Some b \<Rightarrow> Inr (True, fl\<lparr>cf_insecure := b\<rparr>, as)))
          else if set_flag name [] fl = None then Inl (if name = ''help'' \<or> name = ''h'' then HelpFlag else NotDefined name)
          else case val of
            Some v \<Rightarrow> Inr (True, the (set_flag name v fl), as)
          | None \<Rightarrow> (case as of [] \<Rightarrow> Inl (NeedsArgument name) | v # as' \<Rightarrow> Inr (True, the (set_flag name v fl), as')))"

lemma parse_one_shorter: "parse_one s as fl = Inr (True, fl', rest) \<Longrightarrow> length rest \<le> length as"
  by (auto simp: parse_one_def Let_def split: if_splits prod.splits option.splits list.splits)

text \<open>\<open>FlagSet.Parse\<close> with \<open>Args\<close>.\<close>

function flag_parse :: "string list \<Rightarrow> cli_flags \<Rightarrow> flag_error + (cli_flags \<times> string list)" where
  "flag_parse [] fl = Inr (fl, [])"
| "flag_parse (s # as) fl =
     (case parse_one s as fl of
        Inl e \<Rightarrow> Inl e
      | Inr (go, fl', rest) \<Rightarrow> if go then flag_parse rest fl' else Inr (fl', rest))"
  by pat_completeness auto
termination by (relation "measure (\<lambda>(as, fl). length as)") (auto dest!: sym [of "Inr _"] dest: parse_one_shorter simp: less_Suc_eq_le)

lemma parse_one_stops: "parse_one s as fl = Inr (False, fl', rest) \<Longrightarrow> length rest \<le> Suc (length as)"
  by (auto simp: parse_one_def Let_def split: if_splits prod.splits option.splits list.splits)

lemma flag_parse_shorter: "flag_parse as fl = Inr (fl', rest) \<Longrightarrow> length rest \<le> length as"
proof (induction as arbitrary: fl rule: length_induct)
  case (1 as)
  show ?case
  proof (cases as)
    case (Cons s as')
    obtain go fl1 r1 where p: "parse_one s as' fl = Inr (go, fl1, r1)"
      using 1(2) Cons by (auto split: sum.splits)
    show ?thesis
    proof (cases go)
      case True
      have r: "length r1 \<le> length as'" using parse_one_shorter [of s as' fl fl1 r1] p True by simp
      have "flag_parse r1 fl1 = Inr (fl', rest)" using 1(2) Cons p True by simp
      then have "length rest \<le> length r1" using 1(1) [rule_format, of r1 fl1] r Cons by simp
      then show ?thesis using r Cons by simp
    next
      case False
      then show ?thesis using 1(2) Cons p parse_one_stops [of s as' fl fl1 r1] by simp
    qed
  qed (use 1 in simp)
qed

text \<open>\<open>parseFlagSet\<close>: flags and other arguments in any order.\<close>

function parse_flag_set :: "string list \<Rightarrow> cli_flags \<Rightarrow> string list \<Rightarrow> flag_error + (cli_flags \<times> string list)" where
  "parse_flag_set as fl pos =
     (if as = [] then Inr (fl, pos)
      else case flag_parse as fl of
        Inl e \<Rightarrow> Inl e
      | Inr (fl', rest) \<Rightarrow> (case rest of [] \<Rightarrow> Inr (fl', pos) | a # as' \<Rightarrow> parse_flag_set as' fl' (pos @ [a])))"
  by pat_completeness auto
termination by (relation "measure (\<lambda>(as, fl, pos). length as)") (auto dest!: sym [of "Inr _"] dest: flag_parse_shorter simp: Suc_le_eq)

declare parse_flag_set.simps [simp del]

section \<open>The client\<close>

record cli =
  cli_base :: string
  cli_token :: string
  cli_actor :: string
  cli_skip_verify :: bool

datatype cli_error =
    FlagFailed flag_error | TokenFileUnreadable read_error | TokenRequiredCli | NeedsSubcommand string | Usage string | UnknownSub string string
  | Transport string | Refused string | BadAnswer

definition env_or :: "environ \<Rightarrow> string \<Rightarrow> string \<Rightarrow> string" where
  "env_or env k d = (let v = trim_space (env k) in if v \<noteq> [] then v else d)"

definition default_flags :: "environ \<Rightarrow> cli_flags" where
  "default_flags env =
     \<lparr>cf_admin = env_or env ''FAKETUNNEL_ADMIN'' ''http://127.0.0.1:9090'', cf_token = env ''FAKETUNNEL_TOKEN'',
      cf_token_file = [], cf_actor = [], cf_insecure = False\<rparr>"

definition client_token :: "environ \<Rightarrow> files \<Rightarrow> cli_flags \<Rightarrow> cli_error + string" where
  "client_token env fs fl =
     rbind (if cf_token_file fl = [] then Inr (trim_space (cf_token fl))
            else case read_file fs (cf_token_file fl) of Inl e \<Rightarrow> Inl (TokenFileUnreadable e) | Inr text_ \<Rightarrow> Inr (trim_space text_))
       (\<lambda>tok0. let tok = (if tok0 = [] then discover_admin_token env fs else tok0) in
          if tok = [] then Inl TokenRequiredCli else Inr tok)"

definition new_client :: "environ \<Rightarrow> files \<Rightarrow> string list \<Rightarrow> cli_error + (cli \<times> string list)" where
  "new_client env fs args =
     (case parse_flag_set args (default_flags env) [] of
        Inl e \<Rightarrow> Inl (FlagFailed e)
      | Inr (fl, pos) \<Rightarrow>
          rbind (client_token env fs fl) (\<lambda>tok.
            Inr (\<lparr>cli_base = trim_right_set {CHR ''/''} (trim_space (cf_admin fl)), cli_token = tok,
                  cli_actor = trim_space (cf_actor fl), cli_skip_verify = cf_insecure fl\<rparr>, pos)))"

record cli_request =
  cq_method :: string
  cq_url :: string
  cq_auth :: string
  cq_actor :: "string option"
  cq_body :: "string option"

definition cli_do ::
  "(cli_request \<Rightarrow> 's \<Rightarrow> (string + nat \<times> string \<times> string) \<times> 's) \<Rightarrow> cli \<Rightarrow> string \<Rightarrow> string \<Rightarrow> string option \<Rightarrow> 's
   \<Rightarrow> (cli_error + string) \<times> 's" where
  "cli_do send c method path payload s =
     (case send \<lparr>cq_method = method, cq_url = cli_base c @ path, cq_auth = ''Bearer '' @ cli_token c,
                 cq_actor = (if cli_actor c \<noteq> [] then Some (cli_actor c) else None), cq_body = payload\<rparr> s of
        (Inl e, s') \<Rightarrow> (Inl (Transport e), s')
      | (Inr (code, status_line, body0), s') \<Rightarrow>
          let body = take 1048576 body0 in
          if code \<ge> 300 then (Inl (Refused (if trim_space body = [] then status_line else trim_space body)), s')
          else (Inr body, s'))"

definition cidrs_json :: "string list \<Rightarrow> json" where
  "cidrs_json cs = JObj [(''cidrs'', JArr (map JStr cs))]"

text \<open>The decoder into \<open>allowlistDTO\<close> of the client, which has only the field \<open>cidrs\<close>.\<close>

fun cidrs_field :: "string list \<Rightarrow> (string \<times> json) list \<Rightarrow> string list option" where
  "cidrs_field cs [] = Some cs"
| "cidrs_field cs ((k, v) # fs) =
     (if equal_fold k ''cidrs''
      then (case v of JArr js \<Rightarrow> Option.bind (json_strings js) (\<lambda>c. cidrs_field c fs) | JNull \<Rightarrow> cidrs_field [] fs | _ \<Rightarrow> None)
      else cidrs_field cs fs)"

definition answer_cidrs :: "(string \<Rightarrow> json option) \<Rightarrow> string \<Rightarrow> string list option" where
  "answer_cidrs dec body =
     (case dec body of Some (JObj fs) \<Rightarrow> cidrs_field [] fs | Some JNull \<Rightarrow> Some [] | _ \<Rightarrow> None)"

definition print_cidrs :: "(string \<Rightarrow> json option) \<Rightarrow> string \<Rightarrow> string list" where
  "print_cidrs dec body = (case answer_cidrs dec body of None \<Rightarrow> [body] | Some cs \<Rightarrow> cs)"

definition then_print :: "('a \<Rightarrow> string list) \<Rightarrow> (cli_error + 'a) \<times> 's \<Rightarrow> (cli_error + string list) \<times> 's" where
  "then_print f x = (case x of (Inl e, s) \<Rightarrow> (Inl e, s) | (Inr b, s) \<Rightarrow> (Inr (f b), s))"

definition get_allowlist where
  "get_allowlist dec send c s =
     (case cli_do send c ''GET'' ''/v1/allowlist'' None s of
        (Inl e, s') \<Rightarrow> (Inl e, s')
      | (Inr body, s') \<Rightarrow> (case answer_cidrs dec body of None \<Rightarrow> (Inl BadAnswer, s') | Some cs \<Rightarrow> (Inr cs, s')))"

definition edit_allowlist where
  "edit_allowlist enc dec send method c cs s =
     then_print (print_cidrs dec) (cli_do send c method ''/v1/allowlist'' (Some (enc (cidrs_json cs))) s)"

definition add_self where
  "add_self dec send c s = then_print (print_cidrs dec) (cli_do send c ''POST'' ''/v1/allowlist/self'' (Some ''{}'') s)"

section \<open>The commands\<close>

definition run_allowlist where
  "run_allowlist enc dec send env fs args s =
     (case args of
        [] \<Rightarrow> (Inl (NeedsSubcommand ''allowlist''), s)
      | sub # args' \<Rightarrow>
          (case new_client env fs args' of
             Inl e \<Rightarrow> (Inl e, s)
           | Inr (c, rest) \<Rightarrow>
               if sub = ''list'' then get_allowlist dec send c s
               else if sub \<in> set [''add-self'', ''addself'', ''me''] then add_self dec send c s
               else if sub = ''add'' then (if rest = [] then (Inl (Usage ''add''), s) else edit_allowlist enc dec send ''POST'' c rest s)
               else if sub \<in> set [''rm'', ''remove'', ''delete''] then (if rest = [] then (Inl (Usage ''rm''), s) else edit_allowlist enc dec send ''DELETE'' c rest s)
               else if sub \<in> set [''set'', ''replace''] then (if rest = [] then (Inl (Usage ''set''), s) else edit_allowlist enc dec send ''PUT'' c rest s)
               else (Inl (UnknownSub ''allowlist'' sub), s)))"

text \<open>\<open>indent\<close> is \<open>json.Indent\<close>, None if the text is no JSON.\<close>

definition pretty :: "(string \<Rightarrow> string option) \<Rightarrow> string \<Rightarrow> string list" where
  "pretty indent body = (case indent body of None \<Rightarrow> [body] | Some p \<Rightarrow> [p])"

definition run_status where
  "run_status indent send env fs args s =
     (case new_client env fs args of
        Inl e \<Rightarrow> (Inl e, s)
      | Inr (c, rest) \<Rightarrow> then_print (pretty indent) (cli_do send c ''GET'' ''/v1/status'' None s))"

definition run_denylist where
  "run_denylist enc indent send env fs args s =
     (case args of
        [] \<Rightarrow> (Inl (NeedsSubcommand ''denylist''), s)
      | sub # args' \<Rightarrow>
          (case new_client env fs args' of
             Inl e \<Rightarrow> (Inl e, s)
           | Inr (c, rest) \<Rightarrow>
               if sub = ''list'' then then_print (pretty indent) (cli_do send c ''GET'' ''/v1/denylist'' None s)
               else if sub \<in> set [''rm'', ''remove'', ''delete'', ''unban''] then
                 (if rest = [] then (Inl (Usage ''rm''), s)
                  else then_print (\<lambda>b. [b]) (cli_do send c ''DELETE'' ''/v1/denylist'' (Some (enc (JObj [(''ips'', JArr (map JStr rest))]))) s))
               else (Inl (UnknownSub ''denylist'' sub), s)))"

text \<open>\<open>run\<close>: the exit code. \<open>init\<close> stands for the outcome of the init command.\<close>

definition cli_run where
  "cli_run enc dec indent send env fs init args s =
     (let code = (\<lambda>x. case x of (Inl e, s') \<Rightarrow> (1 :: nat, s') | (Inr out, s') \<Rightarrow> (0, s')) in
      case args of
        [] \<Rightarrow> (2, s)
      | cmd # rest \<Rightarrow>
          if cmd \<in> set [''version'', ''-version'', ''--version''] then (0, s)
          else if cmd = ''init'' then (if init rest then 0 else 1, s)
          else if cmd = ''allowlist'' then code (run_allowlist enc dec send env fs rest s)
          else if cmd \<in> set [''denylist'', ''ban''] then code (run_denylist enc indent send env fs rest s)
          else if cmd = ''status'' then code (run_status indent send env fs rest s)
          else if cmd \<in> set [''help'', ''-h'', ''--help''] then (0, s)
          else (2, s))"

section \<open>Flags and arguments in any order\<close>

text \<open>What a user writes: an argument, an option with its value after it or after an equals sign, or
  the switch.\<close>

datatype cli_item = Arg string | Opt string string | OptEq string string | Switch

definition cli_options :: "string list" where
  "cli_options = [''admin'', ''token'', ''token-file'', ''actor'']"

fun item_text :: "cli_item \<Rightarrow> string list" where
  "item_text (Arg s) = [s]"
| "item_text (Opt n v) = [''-'' @ n, v]"
| "item_text (OptEq n v) = [''--'' @ n @ ''='' @ v]"
| "item_text Switch = [''-insecure'']"

fun item_ok :: "cli_item \<Rightarrow> bool" where
  "item_ok (Arg s) \<longleftrightarrow> length s < 2 \<or> hd s \<noteq> CHR ''-''"
| "item_ok (Opt n v) \<longleftrightarrow> n \<in> set cli_options"
| "item_ok (OptEq n v) \<longleftrightarrow> n \<in> set cli_options"
| "item_ok Switch \<longleftrightarrow> True"

fun item_flags :: "cli_item \<Rightarrow> cli_flags \<Rightarrow> cli_flags" where
  "item_flags (Arg s) fl = fl"
| "item_flags (Opt n v) fl = the (set_flag n v fl)"
| "item_flags (OptEq n v) fl = the (set_flag n v fl)"
| "item_flags Switch fl = fl\<lparr>cf_insecure := True\<rparr>"

fun item_arg :: "cli_item \<Rightarrow> string list" where
  "item_arg (Arg s) = [s]"
| "item_arg _ = []"

lemma option_facts:
  assumes "n \<in> set cli_options"
  shows "n \<noteq> []" "n ! 0 \<noteq> CHR ''-''" "n ! 0 \<noteq> CHR ''=''" "n \<noteq> ''insecure''" "n \<noteq> ''-''" "set_flag n v fl \<noteq> None" "CHR ''='' \<notin> set n"
  using assms by (auto simp: cli_options_def set_flag_def)

lemma split_plain:
  assumes "n \<in> set cli_options"
  shows "split_flag n = (n, None)" "split_flag (n @ CHR ''='' # v) = (n, Some v)"
proof -
  note f = option_facts [OF assms]
  obtain x m where n: "n = x # m" using f(1) by (cases n) auto
  have "index_byte m (CHR ''='') = None" "index_byte (m @ CHR ''='' # v) (CHR ''='') = Some (length m)"
    using f(7) n by (auto simp: index_byte_None intro: index_byte_append)
  then show "split_flag n = (n, None)" "split_flag (n @ CHR ''='' # v) = (n, Some v)" by (simp_all add: split_flag_def n)
qed

lemma parse_opt:
  assumes "n \<in> set cli_options"
  shows "parse_one (CHR ''-'' # n) (v # rest) fl = Inr (True, the (set_flag n v fl), rest)"
proof -
  note f = option_facts [OF assms]
  have "\<not> length (CHR ''-'' # n) < 2" "CHR ''-'' # n \<noteq> ''--''" "(CHR ''-'' # n) ! 1 \<noteq> CHR ''-''" "drop 1 (CHR ''-'' # n) = n"
    using f(1,2,5) by (auto simp: Suc_le_eq)
  then show ?thesis unfolding parse_one_def Let_def using f split_plain(1) [OF assms] by simp
qed

lemma parse_opt_eq:
  assumes "n \<in> set cli_options"
  shows "parse_one (CHR ''-'' # CHR ''-'' # n @ CHR ''='' # v) rest fl = Inr (True, the (set_flag n v fl), rest)"
proof -
  note f = option_facts [OF assms]
  let ?m = "n @ CHR ''='' # v"
  have "?m \<noteq> []" "?m ! 0 \<noteq> CHR ''-''" "?m ! 0 \<noteq> CHR ''=''" using f(1-3) by (auto simp: nth_append)
  then show ?thesis unfolding parse_one_def Let_def using f(4,6) split_plain(2) [OF assms, of v] by simp
qed

lemma parse_switch: "parse_one ''-insecure'' rest fl = Inr (True, fl\<lparr>cf_insecure := True\<rparr>, rest)"
  by (simp add: parse_one_def split_flag_def)

lemma parse_item:
  assumes "item_ok x" "item_arg x = []"
  shows "\<exists>s as. item_text x = s # as \<and> parse_one s (as @ rest) fl = Inr (True, item_flags x fl, rest)"
  using assms by (cases x) (simp_all add: parse_opt parse_opt_eq parse_switch)

lemma parse_set_Nil: "parse_flag_set [] fl pos = Inr (fl, pos)"
  by (simp add: parse_flag_set.simps)

lemma parse_set_flag: "parse_one s as fl = Inr (True, fl', rest) \<Longrightarrow> parse_flag_set (s # as) fl pos = parse_flag_set rest fl' pos"
  by (subst (1 2) parse_flag_set.simps) simp

lemma parse_set_arg: "length s < 2 \<or> hd s \<noteq> CHR ''-'' \<Longrightarrow> parse_flag_set (s # as) fl pos = parse_flag_set as fl (pos @ [s])"
  by (subst parse_flag_set.simps) (cases s, auto simp: parse_one_def)

lemma parse_items:
  "list_all item_ok xs \<Longrightarrow>
   parse_flag_set (concat (map item_text xs)) fl pos = Inr (fold item_flags xs fl, pos @ concat (map item_arg xs))"
proof (induction xs arbitrary: fl pos)
  case Nil
  show ?case by (simp add: parse_set_Nil)
next
  case (Cons x xs)
  show ?case
  proof (cases "item_arg x = []")
    case True
    then obtain s as where "item_text x = s # as" "parse_one s (as @ concat (map item_text xs)) fl = Inr (True, item_flags x fl, concat (map item_text xs))"
      using parse_item Cons.prems by fastforce
    then show ?thesis using Cons True parse_set_flag by auto
  next
    case False
    then obtain s where "x = Arg s" by (cases x) auto
    then show ?thesis using Cons parse_set_arg by simp
  qed
qed

text \<open>
Options may stand anywhere on the command line. However a user mixes arguments with options, given as \<open>-name value\<close> or \<open>--name=value\<close>, and the switch: every option takes effect, the last one of a name wins, and the arguments are exactly those written, in their order, as long as none of two characters or more begins with a dash. A value may begin with a dash.
\<close>

theorem flags_anywhere:
  assumes "list_all item_ok xs"
  shows "parse_flag_set (concat (map item_text xs)) fl [] = Inr (fold item_flags xs fl, concat (map item_arg xs))"
  using parse_items [OF assms, of fl "[]"] by simp

theorem flags_anywhere_witness:
  "parse_flag_set [''10.0.0.0/8'', ''-token'', ''-x'', ''-insecure'', ''-'', ''--token=b=c'', ''::1''] fl [] =
     Inr (fl\<lparr>cf_token := ''-x'', cf_insecure := True, cf_token := ''b=c''\<rparr>, [''10.0.0.0/8'', ''-'', ''::1''])"
  using flags_anywhere [of "[Arg ''10.0.0.0/8'', Opt ''token'' ''-x'', Switch, Arg ''-'', OptEq ''token'' ''b=c'', Arg ''::1'']" fl]
  by (simp add: cli_options_def set_flag_def)

section \<open>The client against the server\<close>

text \<open>The transport: the server sees the method, the path of the URL, the headers and the body.
  \<open>render\<close> is the text of a reply, \<open>url_path\<close> the path of a URL.\<close>

definition client_request :: "(string \<Rightarrow> string) \<Rightarrow> string \<Rightarrow> cli_request \<Rightarrow> admin_req" where
  "client_request url_path remote q =
     \<lparr>aq_method = cq_method q, aq_path = url_path (cq_url q), aq_auth = cq_auth q,
      aq_actor = (case cq_actor q of None \<Rightarrow> [] | Some x \<Rightarrow> x), aq_remote = remote, aq_cidrs = [], aq_ips = [],
      aq_length = (case cq_body q of None \<Rightarrow> 0 | Some b \<Rightarrow> int (length b)),
      aq_body = Inr (case cq_body q of None \<Rightarrow> [] | Some b \<Rightarrow> b)\<rparr>"

definition admin_send where
  "admin_send dec seconds render url_path remote flt fb now st q a =
     (case admin_serve dec seconds flt fb now st (client_request url_path remote q) a of
        (rep, a') \<Rightarrow> (Inr (reply_code rep, ''status'', render rep), a'))"

lemma client_token_solid: "client_token env fs fl = Inr tok \<Longrightarrow> tok \<noteq> [] \<and> trim_space tok = tok"
proof -
  have f: "first_token fs ps = [] \<or> trim_space (first_token fs ps) = first_token fs ps" for ps
    by (induction ps) (auto split: sum.splits)
  have g: "trim_space (first_token fs ps) = first_token fs ps" for ps using f [of ps] by auto
  have "trim_space (discover_admin_token env fs) = discover_admin_token env fs"
    unfolding discover_admin_token_def Let_def by (simp add: g)
  then show "client_token env fs fl = Inr tok \<Longrightarrow> tok \<noteq> [] \<and> trim_space tok = tok"
    unfolding client_token_def by (auto simp: Let_def split: if_splits sum.splits)
qed

lemma new_client_token: "new_client env fs args = Inr (c, xs) \<Longrightarrow> cli_token c \<noteq> [] \<and> trim_space (cli_token c) = cli_token c"
  using client_token_solid by (auto simp: new_client_def split: sum.splits prod.splits)

lemma json_strings_map [simp]: "json_strings (map JStr cs) = Some cs"
  by (induction cs) auto

lemma read_client_dto:
  assumes "dec (enc (cidrs_json cs)) = Some (cidrs_json cs)" "trim_space (enc (cidrs_json cs)) \<noteq> []" "length (enc (cidrs_json cs)) \<le> maxBody"
    "aq_body r = Inr (enc (cidrs_json cs))"
  shows "read_dto dec r = Inr \<lparr>dto_cidrs = cs, dto_cidr = []\<rparr>"
proof -
  have "equal_fold ''cidrs'' ''cidrs''" by code_simp
  then show ?thesis using assms by (simp add: read_dto_def json_dto_def cidrs_json_def)
qed

text \<open>The edit a subcommand stands for.\<close>

definition sub_edit :: "string \<Rightarrow> fs_op option \<Rightarrow> string list \<Rightarrow> acl_store \<Rightarrow> (acl_error + unit) \<times> acl_store" where
  "sub_edit sub = (if sub = ''add'' then acl_add else if sub = ''rm'' then acl_remove else acl_replace)"

definition sub_method :: "string \<Rightarrow> string" where
  "sub_method sub = (if sub = ''add'' then ''POST'' else if sub = ''rm'' then ''DELETE'' else ''PUT'')"

lemma edit_served:
  assumes d: "read_dto dec r = Inr \<lparr>dto_cidrs = cs, dto_cidr = []\<rparr>" and "cs \<noteq> []" "sub \<in> {''add'', ''rm'', ''set''}"
    "aq_method r = sub_method sub" "aq_cidrs r = []" "aq_length r \<noteq> 0" "sub_edit sub flt cs (adm_store a) = (x, st)"
  shows "case handle_allowlist dec flt fb r a of (rep, a') \<Rightarrow>
     adm_store a' = st \<and> (reply_code rep = (if isl x then 400 else 200)) \<and>
     adm_bans a' = (if isl x \<or> sub = ''rm'' then adm_bans a else map_option (unban_cidrs fb cs) (adm_bans a))"
proof -
  consider "sub = ''add''" | "sub = ''rm''" | "sub = ''set''" using assms(3) by blast
  then show ?thesis
  proof cases
    case 1
    then show ?thesis
      using assms by (cases x) (simp_all add: handle_allowlist_def sub_method_def sub_edit_def allowlist_post_def edited_def unban_listed_def entries_reply_def Let_def)
  next
    case 2
    then show ?thesis
      using assms by (cases x) (simp_all add: handle_allowlist_def sub_method_def sub_edit_def allowlist_delete_def entries_reply_def Let_def)
  next
    case 3
    then show ?thesis
      using assms by (cases x) (simp_all add: handle_allowlist_def sub_method_def sub_edit_def allowlist_put_def edited_def unban_listed_def entries_reply_def Let_def)
  qed
qed

text \<open>
C22: the command line edits exactly the server's allowlist. When the client is given the server's token, \<open>allowlist add\<close>, \<open>rm\<close> and \<open>set\<close> with some arguments do to the server's list precisely what \<open>Add\<close>, \<open>Remove\<close> and \<open>Replace\<close> do with those arguments, the bans are lifted if the edit admits addresses and succeeded, and the command fails exactly if the server refused. After a successful \<open>add\<close> the server admits what it admitted before and what the arguments name, after a successful \<open>set\<close> what the arguments name.
\<close>

theorem cli_edits_allowlist:
  assumes "new_client env fs args = Inr (c, xs)" "xs \<noteq> []" "cli_token c = adm_token a" "sub \<in> {''add'', ''rm'', ''set''}"
    and "dec (enc (cidrs_json xs)) = Some (cidrs_json xs)" "trim_space (enc (cidrs_json xs)) \<noteq> []" "length (enc (cidrs_json xs)) \<le> maxBody"
    and "url_path (cli_base c @ ''/v1/allowlist'') = ''/v1/allowlist''" "acl_inv (adm_store a)"
    and "run_allowlist enc dec (admin_send dec seconds render url_path remote flt fb now st) env fs (sub # args) a = (res, a')"
    and "sub_edit sub flt xs (adm_store a) = (x, store)"
  shows "adm_store a' = store \<and> (isl res \<longleftrightarrow> isl x) \<and>
     adm_bans a' = (if isl x \<or> sub = ''rm'' then adm_bans a else map_option (unban_cidrs fb xs) (adm_bans a)) \<and>
     (\<not> isl res \<and> sub = ''add'' \<longrightarrow> (\<forall>i. allow i (acl_live (adm_store a')) \<longleftrightarrow> allow i (acl_live (adm_store a)) \<or> admits xs i)) \<and>
     (\<not> isl res \<and> sub = ''set'' \<longrightarrow> (\<forall>i. allow i (acl_live (adm_store a')) \<longleftrightarrow> admits xs i))"
proof -
  let ?send = "admin_send dec seconds render url_path remote flt fb now st"
  let ?body = "enc (cidrs_json xs)"
  let ?q = "\<lparr>cq_method = sub_method sub, cq_url = cli_base c @ ''/v1/allowlist'', cq_auth = ''Bearer '' @ cli_token c,
     cq_actor = (if cli_actor c \<noteq> [] then Some (cli_actor c) else None), cq_body = Some ?body\<rparr>"
  let ?r = "client_request url_path remote ?q"
  have f: "aq_method ?r = sub_method sub" "aq_path ?r = ''/v1/allowlist''" "aq_cidrs ?r = []" "aq_length ?r \<noteq> 0" "aq_body ?r = Inr ?body"
    "aq_auth ?r = ''Bearer '' @ adm_token a"
    using assms(3,6,8) by (auto simp: client_request_def)
  have tok: "has_token a ?r" using new_client_token [OF assms(1)] assms(3) f(6) unfolding has_token_def by auto
  obtain rep a1 where h: "handle_allowlist dec flt fb ?r a = (rep, a1)" by fastforce
  have e: "adm_store a1 = store" "reply_code rep = (if isl x then 400 else 200)"
    "adm_bans a1 = (if isl x \<or> sub = ''rm'' then adm_bans a else map_option (unban_cidrs fb xs) (adm_bans a))"
    using edit_served [OF read_client_dto [of dec enc xs, OF assms(5-7) f(5)] assms(2,4) f(1,3,4) assms(11), of fb] h by simp_all
  have s: "?send ?q a = (Inr (reply_code rep, ''status'', render rep), a1)"
    using f(2) tok h by (simp add: admin_send_def admin_serve_cases admin_mux_def)
  have run: "run_allowlist enc dec ?send env fs (sub # args) a = edit_allowlist enc dec ?send (sub_method sub) c xs a"
    using assms(1,2,4) by (auto simp: run_allowlist_def sub_method_def)
  let ?out = "take 1048576 (render rep)"
  have d: "cli_do ?send c (sub_method sub) ''/v1/allowlist'' (Some ?body) a =
     (if isl x then (Inl (Refused (if trim_space ?out = [] then ''status'' else trim_space ?out)), a1) else (Inr ?out, a1))"
    unfolding cli_do_def s by (simp add: e(2) Let_def)
  have r: "a' = a1" "isl res \<longleftrightarrow> isl x"
    using assms(10) unfolding run edit_allowlist_def then_print_def d by (auto split: if_splits)
  have "\<forall>i. allow i (acl_live store) \<longleftrightarrow> allow i (acl_live (adm_store a)) \<or> admits xs i" if "\<not> isl x" "sub = ''add''"
    using that assms(11) add_admits [OF assms(9), of flt xs store] by (cases x) (auto simp: sub_edit_def)
  moreover have "\<forall>i. allow i (acl_live store) \<longleftrightarrow> admits xs i" if "\<not> isl x" "sub = ''set''"
    using that assms(11) replace_admits [of flt xs "adm_store a" store] by (cases x) (auto simp: sub_edit_def)
  ultimately show ?thesis using e r by simp
qed

theorem cli_edits_allowlist_witness:
  "let dec = (\<lambda>_. Some (cidrs_json [''10.0.0.0/8''])); enc = (\<lambda>_. ''x'');
       (res, a') = run_allowlist enc dec (admin_send dec (\<lambda>_. []) (\<lambda>_. ''y'') (drop 21) ''10.0.0.9:1'' None None 7 (snapshot new_registry))
         (\<lambda>_. []) (\<lambda>_. FAbsent) [''add'', ''-token'', ''s'', ''10.0.0.0/8''] example_admin in
   \<not> isl res \<and> adm_store a' = snd (acl_add None [''10.0.0.0/8''] (adm_store example_admin))"
proof -
  let ?dec = "\<lambda>_. Some (cidrs_json [''10.0.0.0/8''])" and ?enc = "\<lambda>_. ''x''"
  let ?run = "run_allowlist ?enc ?dec (admin_send ?dec (\<lambda>_. []) (\<lambda>_. ''y'') (drop 21) ''10.0.0.9:1'' None None 7 (snapshot new_registry))
         (\<lambda>_. []) (\<lambda>_. FAbsent) [''add'', ''-token'', ''s'', ''10.0.0.0/8''] example_admin"
  let ?c = "\<lparr>cli_base = ''http://127.0.0.1:9090'', cli_token = ''s'', cli_actor = [], cli_skip_verify = False\<rparr>"
  have c: "new_client (\<lambda>_. []) (\<lambda>_. FAbsent) [''-token'', ''s'', ''10.0.0.0/8''] = Inr (?c, [''10.0.0.0/8''])" by code_simp
  have x: "trim_space ''x'' \<noteq> []" by code_simp
  obtain res a' where r: "?run = (res, a')" by fastforce
  obtain st where e: "sub_edit ''add'' None [''10.0.0.0/8''] (adm_store example_admin) = (Inr (), st)"
    by (simp add: sub_edit_def example_admin_def example_add)
  have i: "acl_inv (adm_store example_admin)" by (simp add: example_admin_def acl_inv_def new_store_def)
  from cli_edits_allowlist [OF c _ _ _ _ x _ _ i r e] have "adm_store a' = st" "\<not> isl res"
    by (simp_all add: maxBody_def example_admin_def)
  then show ?thesis using e by (simp add: r sub_edit_def)
qed

end
