(* ===== verification/InitGen.thy ===== *)
theory InitGen
  imports ConfigLoad
begin

text \<open>
  The init command, \<open>internal/config/initgen.go\<close>: from mappings to the configuration files of an Edge
  and its Agent, two tokens and an allowlist.

  \<open>quote\<close> is \<open>strconv.Quote\<close>, the text of a Go string literal. The two random byte strings are
  arguments, None when the generator fails.
\<close>

record init_options =
  io_dir :: string
  io_edge_host :: string
  io_listen :: string
  io_http :: "string list"
  io_tcp :: "string list"
  io_udp :: "string list"
  io_allow :: "string list"
  io_preset :: string
  io_force :: bool

record init_result =
  ir_dir :: string
  ir_edge_yaml :: string
  ir_agent_yaml :: string
  ir_token_file :: string
  ir_admin_token :: string
  ir_allowlist :: string
  ir_token :: string

datatype init_error =
    MkdirFailed | UnknownPreset string | NothingToPublish | NoRandom | BadMapping string string | AlreadyExists string | WriteFailed string

text \<open>A tunnel of the generated file: type, public address, local target.\<close>

record init_tunnel =
  it_type :: string
  it_public :: string
  it_local :: string

definition preset_maps :: "init_options \<Rightarrow> init_error + string list \<times> string list \<times> string list" where
  "preset_maps op =
     (let p = to_lower (trim_space (io_preset op)); maps = (io_http op, io_tcp op, io_udp op) in
      rbind (if p = [] \<or> p = ''none'' then Inr maps
             else if p = ''gitea'' then
               Inr (if io_http op = [] \<and> io_tcp op = [] \<and> io_udp op = [] then ([''8080:3000''], [''2222:2222''], []) else maps)
             else Inl (UnknownPreset (io_preset op)))
        (\<lambda>(h, t, u). if length h + length t + length u = 0 then Inl NothingToPublish else Inr (h, t, u)))"

fun map_tunnels :: "string \<Rightarrow> string list \<Rightarrow> init_error + init_tunnel list" where
  "map_tunnels typ [] = Inr []"
| "map_tunnels typ (s # ss) =
     (case parse_mapping s of
        None \<Rightarrow> Inl (BadMapping typ s)
      | Some (pub, loc) \<Rightarrow> rbind (map_tunnels typ ss) (\<lambda>ts. Inr (\<lparr>it_type = typ, it_public = pub, it_local = loc\<rparr> # ts)))"

definition init_tunnels :: "string list \<times> string list \<times> string list \<Rightarrow> init_error + init_tunnel list" where
  "init_tunnels m =
     (case m of (h, t, u) \<Rightarrow>
        rbind (map_tunnels TypeHTTP h) (\<lambda>a. rbind (map_tunnels TypeTCP t) (\<lambda>b. rbind (map_tunnels TypeUDP u) (\<lambda>c. Inr (a @ b @ c)))))"

definition init_listen :: "init_options \<Rightarrow> string" where
  "init_listen op = (let l = trim_space (io_listen op) in expand_addr (if l = [] then DefaultListen else l) False)"

definition tunnel_port :: "string \<Rightarrow> string" where
  "tunnel_port l = (if addr_port l = [] then DefaultTunnelPort else addr_port l)"

definition agent_edge :: "init_options \<Rightarrow> string" where
  "agent_edge op =
     (let h0 = trim_space (io_edge_host op); h = (if h0 = [] then ''127.0.0.1'' else h0) in
      if split_host_port h = None then join_host_port h (tunnel_port (init_listen op)) else h)"

section \<open>The files\<close>

definition newline :: string where
  "newline = [CHR 0x0A]"

definition edge_comment1 :: string where
  "edge_comment1 = map char_of ([35, 32, 102, 97, 107, 101, 84, 117, 110, 110, 101, 108, 32, 69, 100, 103, 101, 32, 226, 128, 148, 32, 
    231, 148, 177, 32, 102, 97, 107, 101, 116, 117, 110, 110, 101, 108, 32, 105, 110, 105, 116, 32, 231, 
    148, 159, 230, 136, 144, 227, 128, 130, 230, 156, 170, 229, 134, 153, 229, 135, 186, 231, 154, 132, 
    233, 161, 185, 228, 189, 191, 231, 148, 168, 233, 187, 152, 232, 174, 164, 229, 128, 188, 227, 128, 
    130, 10] :: nat list)"

definition edge_comment2 :: string where
  "edge_comment2 = map char_of ([35, 32, 108, 105, 115, 116, 101, 110, 32, 230, 152, 175, 32, 65, 103, 101, 110, 116, 32, 230, 157, 
    165, 232, 191, 158, 231, 154, 132, 233, 154, 167, 233, 129, 147, 229, 143, 163, 239, 188, 140, 229, 
    133, 172, 231, 189, 145, 229, 187, 186, 232, 174, 174, 230, 148, 185, 230, 136, 144, 228, 184, 141, 
    229, 184, 184, 232, 167, 129, 231, 171, 175, 229, 143, 163, 239, 188, 155, 233, 161, 187, 228, 184, 
    142, 32, 97, 103, 101, 110, 116, 46, 121, 97, 109, 108, 32, 231, 154, 132, 32, 101, 100, 103, 101, 
    32, 231, 171, 175, 229, 143, 163, 228, 184, 128, 232, 135, 180, 227, 128, 130, 10] :: nat list)"

definition agent_comment1 :: string where
  "agent_comment1 = map char_of ([35, 32, 102, 97, 107, 101, 84, 117, 110, 110, 101, 108, 32, 65, 103, 101, 110, 116, 32, 226, 128, 
    148, 32, 230, 139, 183, 229, 136, 176, 230, 186, 144, 231, 171, 153, 230, 156, 186, 229, 153, 168, 
    229, 141, 179, 229, 143, 175, 239, 188, 155, 228, 184, 141, 229, 191, 133, 229, 134, 141, 229, 136, 
    151, 32, 116, 117, 110, 110, 101, 108, 115, 227, 128, 130, 10] :: nat list)"

definition agent_comment2 :: string where
  "agent_comment2 = map char_of ([35, 32, 101, 100, 103, 101, 32, 231, 154, 132, 231, 171, 175, 229, 143, 163, 229, 191, 133, 233, 161, 
    187, 228, 184, 142, 32, 69, 100, 103, 101, 32, 231, 154, 132, 32, 108, 105, 115, 116, 101, 110, 32, 
    228, 184, 128, 232, 135, 180, 227, 128, 130, 10] :: nat list)"

definition yaml_scalar :: "(string \<Rightarrow> string) \<Rightarrow> string \<Rightarrow> string" where
  "yaml_scalar quote s = (if is_port s then s else quote s)"

definition render_tunnel :: "(string \<Rightarrow> string) \<Rightarrow> init_tunnel \<Rightarrow> string" where
  "render_tunnel quote t =
     ''  - type: '' @ it_type t @ newline @
     ''    public: '' @ yaml_scalar quote (it_public t) @ newline @
     ''    local: '' @ yaml_scalar quote (compact_local (it_local t)) @ newline"

definition render_edge_yaml :: "(string \<Rightarrow> string) \<Rightarrow> string \<Rightarrow> init_tunnel list \<Rightarrow> string" where
  "render_edge_yaml quote l ts =
     edge_comment1 @ edge_comment2 @ ''listen: '' @ quote l @ newline @ ''token_file: token'' @ newline @ ''tunnels:'' @ newline @
     concat (map (render_tunnel quote) ts)"

definition render_agent_yaml :: "(string \<Rightarrow> string) \<Rightarrow> string \<Rightarrow> string \<Rightarrow> string" where
  "render_agent_yaml quote e tok =
     agent_comment1 @ agent_comment2 @ ''edge: '' @ quote e @ newline @ ''token: '' @ quote tok @ newline"

fun comma_list :: "string list \<Rightarrow> string" where
  "comma_list [] = []"
| "comma_list [s] = s"
| "comma_list (s # t # ss) = s @ '', '' @ comma_list (t # ss)"

definition allowlist_json :: "(string \<Rightarrow> string) \<Rightarrow> string list \<Rightarrow> string" where
  "allowlist_json quote cs =
     ''{'' @ newline @ ''  '' @ quote ''cidrs'' @ '': ['' @ comma_list (map quote cs) @ '']'' @ newline @ ''}'' @ newline"

text \<open>Writing one file after the other; a fault is the number of the write that fails and what it
  leaves at its path.\<close>

fun write_all :: "(nat \<times> file_state) option \<Rightarrow> (string \<times> string) list \<Rightarrow> files \<Rightarrow> string option \<times> files" where
  "write_all flt [] fs = (None, fs)"
| "write_all flt ((p, s) # rest) fs =
     (case flt of
        Some (0, left_) \<Rightarrow> (Some p, fs(p := left_))
      | Some (Suc n, left_) \<Rightarrow> write_all (Some (n, left_)) rest (fs(p := FText s))
      | None \<Rightarrow> write_all None rest (fs(p := FText s)))"

definition init_paths :: "init_result \<Rightarrow> string list" where
  "init_paths r = [ir_edge_yaml r, ir_agent_yaml r, ir_token_file r, ir_admin_token r, ir_allowlist r]"

definition init_contents :: "(string \<Rightarrow> string) \<Rightarrow> init_options \<Rightarrow> init_tunnel list \<Rightarrow> string \<Rightarrow> string \<Rightarrow> string list" where
  "init_contents quote op ts tok adm =
     [render_edge_yaml quote (init_listen op) ts, render_agent_yaml quote (agent_edge op) tok, tok @ newline, adm @ newline,
      allowlist_json quote (if io_allow op = [] then [''127.0.0.1/32'', ''::1/128''] else io_allow op)]"

definition init_place :: "string \<Rightarrow> init_options \<Rightarrow> string \<Rightarrow> init_result" where
  "init_place cwd op tok =
     (let d = trim_space (io_dir op); dir = path_abs cwd (if d = [] then ''.'' else d) in
      \<lparr>ir_dir = dir, ir_edge_yaml = path_join [dir, ''edge.yaml''], ir_agent_yaml = path_join [dir, ''agent.yaml''],
       ir_token_file = path_join [dir, DefaultTokenFile], ir_admin_token = path_join [dir, DefaultAdminToken],
       ir_allowlist = path_join [dir, DefaultAllowlist], ir_token = tok\<rparr>)"

definition init_files ::
  "(string \<Rightarrow> string) \<Rightarrow> string \<Rightarrow> (nat \<times> file_state) option \<Rightarrow> init_options \<Rightarrow> string \<Rightarrow> string \<Rightarrow> init_tunnel list \<Rightarrow> files
   \<Rightarrow> (init_error + init_result) \<times> files" where
  "init_files quote cwd flt op tok adm ts fs =
     (let r = init_place cwd op tok in
      case (if io_force op then None else find (\<lambda>p. fs p \<noteq> FAbsent) (init_paths r)) of
        Some p \<Rightarrow> (Inl (AlreadyExists p), fs)
      | None \<Rightarrow>
          (case write_all flt (zip (init_paths r) (init_contents quote op ts tok adm)) fs of
             (Some p, fs') \<Rightarrow> (Inl (WriteFailed p), fs')
           | (None, fs') \<Rightarrow> (Inr r, fs')))"

text \<open>\<open>Init\<close>; \<open>mk\<close> is whether the directory could be made.\<close>

definition init ::
  "(string \<Rightarrow> string) \<Rightarrow> string \<Rightarrow> bool \<Rightarrow> bytes option \<Rightarrow> bytes option \<Rightarrow> (nat \<times> file_state) option \<Rightarrow> init_options \<Rightarrow> files
   \<Rightarrow> (init_error + init_result) \<times> files" where
  "init quote cwd mk rnd1 rnd2 flt op fs =
     (if \<not> mk then (Inl MkdirFailed, fs)
      else case preset_maps op of
        Inl e \<Rightarrow> (Inl e, fs)
      | Inr m \<Rightarrow>
          (case (random_token rnd1, random_token rnd2) of
             (Some tok, Some adm) \<Rightarrow>
               (case init_tunnels m of
                  Inl e \<Rightarrow> (Inl e, fs)
                | Inr ts \<Rightarrow> init_files quote cwd flt op tok adm ts fs)
           | _ \<Rightarrow> (Inl NoRandom, fs)))"

section \<open>The paths\<close>

definition plain_name :: "string \<Rightarrow> bool" where
  "plain_name n \<longleftrightarrow> n \<noteq> [] \<and> n \<noteq> ''.'' \<and> n \<noteq> ''..'' \<and> slash \<notin> set n"

lemma split_on_snoc: "c \<notin> set n \<Longrightarrow> split_on c (s @ c # n) = split_on c s @ [n]"
  by (induction s) (auto simp: split_on_none split: list.splits)

lemma clean_parts_snoc: "plain_name n \<Longrightarrow> clean_parts r out (ps @ [n]) = clean_parts r out ps @ [n]"
  by (induction r out ps rule: clean_parts.induct) (auto simp: plain_name_def split: list.splits)

lemma join_slash_snoc: "join_slash (xs @ [n]) = (if xs = [] then [] else join_slash xs @ [slash]) @ n"
  by (induction xs rule: join_slash.induct) auto

lemma path_join_name: "\<exists>pre. \<forall>n. plain_name n \<longrightarrow> path_join [dir, n] = pre @ n"
proof (cases "dir = []")
  case True
  have "path_join [dir, n] = n" if n: "plain_name n" for n
  proof -
    have "\<not> is_abs n" using n by (cases n) (auto simp: plain_name_def is_abs_def has_prefix_def slash_def)
    moreover have "split_on slash n = [n]" using n by (auto simp: plain_name_def split_on_none)
    ultimately show ?thesis using n True clean_parts_snoc [OF n, of False "[]" "[]"] by (simp add: path_join_def clean_path_def plain_name_def)
  qed
  then show ?thesis by (intro exI [of _ "[]"]) simp
next
  case False
  let ?xs = "clean_parts (is_abs dir) [] (split_on slash dir)"
  let ?pre = "(if is_abs dir then [slash] else []) @ (if ?xs = [] then [] else join_slash ?xs @ [slash])"
  have "path_join [dir, n] = ?pre @ n" if n: "plain_name n" for n
  proof -
    have "is_abs (dir @ slash # n) = is_abs dir" using False by (cases dir) (auto simp: is_abs_def has_prefix_def)
    moreover have "split_on slash (dir @ slash # n) = split_on slash dir @ [n]" using n by (intro split_on_snoc) (simp add: plain_name_def)
    moreover have "n \<noteq> []" using n by (simp add: plain_name_def)
    ultimately show ?thesis
      using False clean_parts_snoc [OF n] by (simp add: path_join_def clean_path_def join_slash_snoc Let_def)
  qed
  then show ?thesis by blast
qed

lemma init_names: "list_all plain_name [''edge.yaml'', ''agent.yaml'', DefaultTokenFile, DefaultAdminToken, DefaultAllowlist]"
  by (simp add: plain_name_def slash_def DefaultTokenFile_def DefaultAdminToken_def DefaultAllowlist_def)

lemma init_paths_distinct: "distinct (init_paths (init_place cwd op tok))"
proof -
  obtain dir where d: "init_paths (init_place cwd op tok) = map (\<lambda>n. path_join [dir, n]) [''edge.yaml'', ''agent.yaml'', DefaultTokenFile, DefaultAdminToken, DefaultAllowlist]"
    by (simp add: init_paths_def init_place_def Let_def)
  obtain pre where "\<forall>n. plain_name n \<longrightarrow> path_join [dir, n] = pre @ n" using path_join_name by blast
  then show ?thesis
    unfolding d using init_names by (simp add: DefaultTokenFile_def DefaultAdminToken_def DefaultAllowlist_def)
qed

section \<open>What is written\<close>

lemma write_all_frame: "write_all flt ws fs = (r, fs') \<Longrightarrow> q \<notin> fst ` set ws \<Longrightarrow> fs' q = fs q"
proof (induction ws arbitrary: flt fs)
  case (Cons w rest)
  obtain p s where w: "w = (p, s)" by fastforce
  from Cons show ?case
    using Cons.IH [of _ "fs(p := FText s)"]
    by (auto simp: w simp del: fun_upd_apply split: option.splits prod.splits nat.splits) (simp_all add: fun_upd_apply)
qed simp

lemma write_all_done: "write_all flt ws fs = (None, fs') \<Longrightarrow> distinct (map fst ws) \<Longrightarrow> (p, s) \<in> set ws \<Longrightarrow> fs' p = FText s"
proof (induction ws arbitrary: flt fs)
  case (Cons w rest)
  obtain p' s' where w: "w = (p', s')" by fastforce
  have "\<exists>flt'. write_all flt' rest (fs(p' := FText s')) = (None, fs')"
    using Cons.prems(1) by (auto simp: w simp del: fun_upd_apply split: option.splits prod.splits nat.splits)
  then obtain flt' where r: "write_all flt' rest (fs(p' := FText s')) = (None, fs')" ..
  have "p' \<notin> fst ` set rest" using Cons.prems(2) w by simp
  then have "fs' p' = FText s'" using write_all_frame [OF r] by simp
  moreover have "(p, s) \<in> set rest \<Longrightarrow> fs' p = FText s" using Cons.IH [OF r] Cons.prems(2) by simp
  ultimately show ?case using Cons.prems(3) w by auto
qed simp

lemma map_tunnels_length: "map_tunnels ty ss = Inr xs \<Longrightarrow> length xs = length ss"
  by (induction ss arbitrary: xs) (auto split: option.splits)

lemma init_tunnels_ne:
  assumes "preset_maps op = Inr m" "init_tunnels m = Inr ts"
  shows "ts \<noteq> []"
proof -
  obtain h t u where m: "m = (h, t, u)" by (metis prod_cases3)
  have "length h + length t + length u \<noteq> 0" using assms(1) m by (auto simp: preset_maps_def Let_def split: if_splits)
  moreover have "length ts = length h + length t + length u" using assms(2) map_tunnels_length by (auto simp: init_tunnels_def m)
  ultimately show ?thesis by auto
qed

lemma init_cases:
  assumes "init quote cwd mk rnd1 rnd2 flt op fs = (r, fs')"
  obtains (stop) "isl r" "fs' = fs"
  | (writes) m ts adm b where "preset_maps op = Inr m" "init_tunnels m = Inr ts" "rnd1 = Some b"
      "init_files quote cwd flt op (hex_encode b) adm ts fs = (r, fs')"
  using assms by (auto simp: init_def random_token_def split: if_splits sum.splits option.splits)

lemma init_place_paths: "init_paths (init_place cwd op tok) = init_paths (init_place cwd op [])"
  by (simp add: init_paths_def init_place_def Let_def)

lemma init_files_effect:
  assumes "init_files quote cwd flt op tok adm ts fs = (r, fs')"
  shows "q \<notin> set (init_paths (init_place cwd op [])) \<Longrightarrow> fs' q = fs q"
    and "\<not> io_force op \<Longrightarrow> \<exists>q \<in> set (init_paths (init_place cwd op [])). fs q \<noteq> FAbsent \<Longrightarrow> isl r \<and> fs' = fs"
    and "r = Inr res \<Longrightarrow> res = init_place cwd op tok \<and>
       (\<forall>(p, s) \<in> set (zip (init_paths res) (init_contents quote op ts tok adm)). fs' p = FText s)"
proof -
  let ?p = "init_place cwd op tok"
  let ?ws = "zip (init_paths ?p) (init_contents quote op ts tok adm)"
  have ws: "map fst ?ws = init_paths ?p" by (simp add: init_paths_def init_contents_def)
  have "distinct (map fst ?ws)" unfolding ws by (rule init_paths_distinct)
  note kept = write_all_done [OF _ this]
  obtain w fs1 where w: "write_all flt ?ws fs = (w, fs1)" by fastforce
  have fr: "fs1 q = fs q" if "q \<notin> set (init_paths ?p)" for q
    using write_all_frame [OF w] that ws by (metis list.set_map)
  show "q \<notin> set (init_paths (init_place cwd op [])) \<Longrightarrow> fs' q = fs q"
    using assms fr [of q] w unfolding init_place_paths [of cwd op tok, symmetric]
    by (auto simp: init_files_def Let_def split: if_splits option.splits)
  show "isl r \<and> fs' = fs" if "\<not> io_force op" "\<exists>q \<in> set (init_paths (init_place cwd op [])). fs q \<noteq> FAbsent"
  proof -
    have "find (\<lambda>p. fs p \<noteq> FAbsent) (init_paths ?p) \<noteq> None" using that(2) by (auto simp: find_None_iff init_place_paths [of cwd op tok])
    then show ?thesis using assms that(1) by (auto simp: init_files_def Let_def)
  qed
  show "res = ?p \<and> (\<forall>(p, s) \<in> set (zip (init_paths res) (init_contents quote op ts tok adm)). fs' p = FText s)" if "r = Inr res"
    using assms that w kept by (auto simp: init_files_def Let_def split: if_splits option.splits)
qed


lemma write_all_ok: "fst (write_all None ws fs) = None"
  by (induction ws arbitrary: fs) auto

lemma init_first_run:
  assumes "preset_maps op = Inr m" "init_tunnels m = Inr ts"
  shows "\<not> isl (fst (init quote cwd True (Some b1) (Some b2) None op (\<lambda>_. FAbsent)))"
proof -
  have f: "find (\<lambda>p. FAbsent \<noteq> FAbsent) ps = None" for ps :: "string list" by (simp add: find_None_iff)
  have w: "\<exists>fs'. write_all None ws fs = (None, fs')" for ws fs using write_all_ok [of ws fs] by (metis prod.collapse)
  have "\<not> isl (fst (init_files quote cwd None op tok adm ts (\<lambda>_. FAbsent)))" for tok adm
    using w [of "zip (init_paths (init_place cwd op tok)) (init_contents quote op ts tok adm)" "\<lambda>_. FAbsent"]
    unfolding init_files_def f Let_def if_cancel by auto
  then show ?thesis by (simp add: init_def assms random_token_def)
qed

text \<open>A first run of init in \<open>/d\<close> writes the agent's file with its token; a second one is refused.\<close>

definition example_init_options :: init_options where
  "example_init_options =
     \<lparr>io_dir = ''/d'', io_edge_host = '''', io_listen = '''', io_http = [''8080:3000''], io_tcp = [], io_udp = [], io_allow = [], io_preset = '''',
      io_force = False\<rparr>"


text \<open>An address in brackets without a port gets a second pair: the agent file of \<open>init -edge [::1]\<close> names no
  address that can be dialled.\<close>

lemma init_brackets_twice:
  "agent_edge (example_init_options\<lparr>io_edge_host := ''[::1]''\<rparr>) = ''[[::1]]:8443''"
  "split_host_port (agent_edge (example_init_options\<lparr>io_edge_host := ''[::1]''\<rparr>)) = None"
  by code_simp+

end
