(* ===== verification/EdgeLoops.thy ===== *)
theory EdgeLoops
  imports Gate Netutil AgentUdp
begin

text \<open>
  The loops of Edge: accepting Agents (\<open>serveTunnel\<close>), public TCP clients (\<open>servePublic\<close>) and
  UDP packets (\<open>serveUDP\<close>, \<open>getOrOpenUDPHub\<close>, \<open>closeUDPHubs\<close>), \<open>internal/edge/server.go\<close>
  and \<open>internal/edge/udp.go\<close>. A loop runs over the results of its Accept or Read calls.
\<close>

section \<open>Accepting\<close>

datatype 'c accept = Accepted 'c | AcceptFailed | AcceptClosed

definition millisecond :: int where
  "millisecond = 1000000"

definition accept_delay :: "int \<Rightarrow> int" where
  "accept_delay d =
     (let d1 = (if d = 0 then 5 * millisecond else d * 2)
      in if d1 > 1000 * millisecond then 1000 * millisecond else d1)"

text \<open>\<open>serveTunnel\<close>: with every result comes whether the context is done. The value is the
  connections handed to \<open>handleAgent\<close>, the sleeps, and whether the loop returned.\<close>

fun serve_tunnel :: "int \<Rightarrow> (bool \<times> 'c accept) list \<Rightarrow> 'c list \<times> int list \<times> bool" where
  "serve_tunnel d [] = ([], [], False)"
| "serve_tunnel d ((stop, Accepted c) # es) = (case serve_tunnel 0 es of (cs, ds, r) \<Rightarrow> (c # cs, ds, r))"
| "serve_tunnel d ((stop, AcceptFailed) # es) =
     (if stop then ([], [], True)
      else let d' = accept_delay d in case serve_tunnel d' es of (cs, ds, r) \<Rightarrow> (cs, d' # ds, r))"
| "serve_tunnel d ((stop, AcceptClosed) # es) = ([], [], True)"

text \<open>A client of a public port; a silent one neither sends a line nor hangs up. Reading its PROXY
  header has no deadline and never returns: None.\<close>

datatype client = Talks remote_addr conn | Silent remote_addr

fun proxied :: "bool \<Rightarrow> client \<Rightarrow> (conn + client) option" where
  "proxied enabled (Talks a c) =
     (case maybe_proxy enabled a c of (Inl e, c') \<Rightarrow> Some (Inl c') | (Inr a', c') \<Rightarrow> Some (Inr (Talks a' c')))"
| "proxied enabled (Silent a) = (if enabled then None else Some (Inr (Silent a)))"

datatype loop_end = Accepting | Stopped | Stalled

text \<open>\<open>servePublic\<close>: the clients handed to \<open>handlePublic\<close>, the connections closed for their
  header, and how the loop stands. After any error of Accept it returns.\<close>

fun serve_public :: "bool \<Rightarrow> client accept list \<Rightarrow> client list \<times> conn list \<times> loop_end" where
  "serve_public enabled [] = ([], [], Accepting)"
| "serve_public enabled (Accepted p # es) =
     (case proxied enabled p of
        None \<Rightarrow> ([], [], Stalled)
      | Some (Inl c) \<Rightarrow> (case serve_public enabled es of (hs, cs, r) \<Rightarrow> (hs, c # cs, r))
      | Some (Inr q) \<Rightarrow> (case serve_public enabled es of (hs, cs, r) \<Rightarrow> (q # hs, cs, r)))"
| "serve_public enabled (_ # es) = ([], [], Stopped)"

section \<open>UDP packets\<close>

type_synonym hubs = "(string \<times> hub) list"

datatype hub_open_error = NoAgentConnected | OpenHub tunnel_error

definition udp_meta :: "tunnel \<Rightarrow> open_meta" where
  "udp_meta t = \<lparr>om_name = t_name t, om_local = t_local t, om_client_addr = [], om_proto = ProtoUDP\<rparr>"

text \<open>\<open>getOrOpenUDPHub\<close>; \<open>opened\<close> is what opening a yamux stream of the session gives.\<close>

definition get_or_open_hub :: "nat \<Rightarrow> int \<Rightarrow> tunnel_error + conn \<Rightarrow> tunnel \<Rightarrow> server \<Rightarrow> hubs \<Rightarrow> (hub_open_error + hub) \<times> hubs" where
  "get_or_open_hub mx idle opened t s hs =
     (let live = (case map_of hs (t_name t) of Some h \<Rightarrow> if hub_closed h then None else Some h | None \<Rightarrow> None) in
      case live of
        Some h \<Rightarrow> (Inr h, hs)
      | None \<Rightarrow>
          if get_session s = None then (Inl NoAgentConnected, hs)
          else (case open_data opened (udp_meta t) of
                  (Inr _, Some c) \<Rightarrow> (let h = new_hub c mx idle (reg s) in (Inr h, AList.update (t_name t) h hs))
                | (Inl e, _) \<Rightarrow> (Inl (OpenHub e), hs)
                | (Inr _, None) \<Rightarrow> (Inl NoAgentConnected, hs)))"

definition close_udp_hubs :: "hubs \<Rightarrow> hubs \<times> hub list" where
  "close_udp_hubs hs = ([], map (close_hub \<circ> snd) hs)"

text \<open>One packet of \<open>serveUDP\<close>. Forwarding waits for the association to be ready, so a packet
  ends up dropped, sent, or waiting with its association; \<open>forward_ready\<close> is what comes after
  the wait.\<close>

datatype packet_outcome = Ignored | Denied | NoHub hub_open_error | NotForwarded hub_error | Waiting nat | Sent

definition forward_ready :: "nat \<Rightarrow> bytes \<Rightarrow> int \<Rightarrow> hub \<Rightarrow> packet_outcome \<times> hub" where
  "forward_ready n p now h =
     (case assoc_result n h of
        Inl e \<Rightarrow> (NotForwarded e, h)
      | Inr _ \<Rightarrow> (case forward_on n p now h of (Inl e, h') \<Rightarrow> (NotForwarded e, h') | (Inr _, h') \<Rightarrow> (Sent, h')))"

definition forward_start :: "udp_addr \<Rightarrow> bytes \<Rightarrow> int \<Rightarrow> hub \<Rightarrow> packet_outcome \<times> hub" where
  "forward_start a p now h =
     (case ensure_start a now h of
        (Inl e, h1) \<Rightarrow> (NotForwarded e, h1)
      | (Inr (n, _), h1) \<Rightarrow> if ua_ready (objs h1 ! n) then forward_ready n p now h1 else (Waiting n, h1))"

definition udp_packet ::
  "fs_op option \<Rightarrow> int \<Rightarrow> nat \<Rightarrow> int \<Rightarrow> tunnel_error + conn \<Rightarrow> tunnel \<Rightarrow> udp_addr option \<Rightarrow> bytes \<Rightarrow> server \<Rightarrow> hubs
   \<Rightarrow> packet_outcome \<times> server \<times> hubs" where
  "udp_packet flt now mx idle opened t src p s hs =
     (if p = [] \<or> length p > MaxUDPPayload then (Ignored, s, hs)
      else case src of
        None \<Rightarrow> (Ignored, s, hs)
      | Some a \<Rightarrow>
          (case public_allowed flt (u_ip a) now s of
             (False, s1) \<Rightarrow> (Denied, s1, hs)
           | (True, s1) \<Rightarrow>
               (case get_or_open_hub mx idle opened t s1 hs of
                  (Inl e, hs1) \<Rightarrow> (NoHub e, s1, hs1)
                | (Inr h, hs1) \<Rightarrow>
                    (case forward_start a p now h of (r, h') \<Rightarrow> (r, s1, AList.update (t_name t) h' hs1)))))"

text \<open>The whole loop: what \<open>ReadFrom\<close> returns, with whether the context is done.\<close>

datatype udp_read = Packet "udp_addr option" bytes | ReadTimeout | ReadFailed

fun serve_udp ::
  "nat \<Rightarrow> int \<Rightarrow> tunnel \<Rightarrow> (fs_op option \<times> int \<times> (tunnel_error + conn) \<times> bool \<times> udp_read) list \<Rightarrow> server \<Rightarrow> hubs
   \<Rightarrow> packet_outcome list \<times> bool \<times> server \<times> hubs" where
  "serve_udp mx idle t [] s hs = ([], False, s, hs)"
| "serve_udp mx idle t ((flt, now, opened, stop, Packet src p) # es) s hs =
     (case udp_packet flt now mx idle opened t src p s hs of
        (r, s1, hs1) \<Rightarrow> (case serve_udp mx idle t es s1 hs1 of (rs, fin, s2, hs2) \<Rightarrow> (r # rs, fin, s2, hs2)))"
| "serve_udp mx idle t ((flt, now, opened, stop, ReadTimeout) # es) s hs =
     (if stop then ([], True, s, hs) else serve_udp mx idle t es s hs)"
| "serve_udp mx idle t ((flt, now, opened, stop, ReadFailed) # es) s hs = ([], True, s, hs)"

section \<open>The accept loops\<close>

definition accepted :: "'c accept \<Rightarrow> 'c list" where
  "accepted a = (case a of Accepted c \<Rightarrow> [c] | _ \<Rightarrow> [])"

lemma accepted_simps [simp]: "accepted (Accepted c) = [c]" "accepted AcceptFailed = []" "accepted AcceptClosed = []"
  by (simp_all add: accepted_def)

lemma accept_delay_bounds: "d = 0 \<or> 5 * millisecond \<le> d \<Longrightarrow> 5 * millisecond \<le> accept_delay d \<and> accept_delay d \<le> 1000 * millisecond"
  by (auto simp: accept_delay_def millisecond_def Let_def)

definition failures :: "(bool \<times> 'c accept) list \<Rightarrow> nat" where
  "failures es = length (filter (\<lambda>(_, a). a = AcceptFailed) es)"

lemma failures_simps [simp]:
  "failures [] = 0" "failures ((b, Accepted c) # es) = failures es" "failures ((b, AcceptFailed) # es) = Suc (failures es)"
  by (simp_all add: failures_def)

lemma serve_tunnel_survives:
  assumes "\<forall>(stop, a) \<in> set es. \<not> stop \<and> a \<noteq> AcceptClosed" "d = 0 \<or> 5 * millisecond \<le> d"
  shows "\<exists>ds. serve_tunnel d es = (concat (map (\<lambda>e. accepted (snd e)) es), ds, False) \<and>
     length ds = failures es \<and> (\<forall>w \<in> set ds. 5 * millisecond \<le> w \<and> w \<le> 1000 * millisecond)"
  using assms
proof (induction es arbitrary: d)
  case (Cons x es)
  obtain a where x: "x = (False, a)" "a \<noteq> AcceptClosed" using Cons.prems(1) by (cases x) auto
  have es: "\<forall>(stop, a) \<in> set es. \<not> stop \<and> a \<noteq> AcceptClosed" using Cons.prems(1) by simp
  show ?case
  proof (cases a)
    case (Accepted c)
    obtain ds where "serve_tunnel 0 es = (concat (map (\<lambda>e. accepted (snd e)) es), ds, False)" "length ds = failures es"
      "\<forall>w \<in> set ds. 5 * millisecond \<le> w \<and> w \<le> 1000 * millisecond"
      using Cons.IH [OF es, of 0] by blast
    then show ?thesis by (simp add: x Accepted)
  next
    case AcceptFailed
    note b = accept_delay_bounds [OF Cons.prems(2)]
    obtain ds where "serve_tunnel (accept_delay d) es = (concat (map (\<lambda>e. accepted (snd e)) es), ds, False)" "length ds = failures es"
      "\<forall>w \<in> set ds. 5 * millisecond \<le> w \<and> w \<le> 1000 * millisecond"
      using Cons.IH [OF es, of "accept_delay d"] b by blast
    then show ?thesis using b by (simp add: x AcceptFailed Let_def)
  qed (use x in simp)
qed simp

lemma serve_public_ends:
  "serve_public enabled (es @ AcceptFailed # es') = serve_public enabled (es @ [AcceptFailed])"
  by (induction enabled es rule: serve_public.induct) (auto split: option.splits sum.splits prod.splits)

lemma serve_public_stalls:
  "serve_public True (es @ Accepted (Silent a) # es') = serve_public True (es @ [Accepted (Silent a)])"
  by (induction True es rule: serve_public.induct) (auto split: option.splits sum.splits prod.splits)

lemma proxied_off: "proxied False p = Some (Inr p)"
  by (cases p) (simp_all add: maybe_proxy_def)

lemma serve_public_plain:
  "serve_public False (map Accepted ps) = (ps, [], Accepting)"
  by (induction ps) (simp_all add: proxied_off)

text \<open>
The tunnel port does not give up. As long as the context runs and the listener is open, every connection that is accepted is handed to the handler, in the order of arrival, whatever errors come between; there is one pause per error, between five milliseconds and a second, and the loop has not returned.
\<close>

theorem tunnel_port_keeps_accepting:
  assumes "\<forall>(stop, a) \<in> set es. \<not> stop \<and> a \<noteq> AcceptClosed"
  shows "\<exists>ds. serve_tunnel 0 es = (concat (map (\<lambda>e. accepted (snd e)) es), ds, False) \<and>
     length ds = failures es \<and> (\<forall>w \<in> set ds. 5 * millisecond \<le> w \<and> w \<le> 1000 * millisecond)"
  using serve_tunnel_survives [OF assms, of 0] by simp

theorem tunnel_port_keeps_accepting_witness:
  "fst (serve_tunnel 0 [(False, Accepted ''a''), (False, AcceptFailed), (False, AcceptFailed), (False, Accepted ''b'')]) = [''a'', ''b'']"
  using tunnel_port_keeps_accepting [of "[(False, Accepted ''a''), (False, AcceptFailed), (False, AcceptFailed), (False, Accepted ''b'')]"] by auto

section \<open>The packets of a UDP port\<close>

lemma open_data_Inr: "open_data opened m = (Inr u, x) \<Longrightarrow> \<exists>c. x = Some c"
  by (auto simp: open_data_def split: sum.splits prod.splits if_splits)

lemma get_hub_cases:
  assumes "get_or_open_hub mx idle opened t s hs = (r, hs')"
  obtains (refused) e where "r = Inl e" "hs' = hs"
  | (old) h where "r = Inr h" "hs' = hs" "map_of hs (t_name t) = Some h" "\<not> hub_closed h"
  | (new) c where "r = Inr (new_hub c mx idle (reg s))" "hs' = AList.update (t_name t) (new_hub c mx idle (reg s)) hs"
      "open_data opened (udp_meta t) = (Inr (), Some c)" "get_session s \<noteq> None" "\<forall>h. map_of hs (t_name t) = Some h \<longrightarrow> hub_closed h"
  using assms open_data_Inr [of opened "udp_meta t"]
  by (auto simp: get_or_open_hub_def Let_def split: if_splits option.splits sum.splits prod.splits)

lemma forward_on_sent:
  assumes "forward_on n p now h = (Inr u, h')"
  shows "\<exists>d. parse_datagram d = Inr \<lparr>dg_id = ua_id (objs h ! n), dg_payload = p\<rparr> \<and>
     tx (hub_stream h') = tx (hub_stream h) @ frame_bytes TypeDatagram d"
proof -
  obtain d where d: "marshal_datagram \<lparr>dg_id = ua_id (objs h ! n), dg_payload = p\<rparr> = Inr d"
    and w: "hub_write TypeDatagram d (upd_obj n (\<lambda>a. a\<lparr>ua_last := now\<rparr>) h) = (Inr (), h')"
    using assms by (auto simp: forward_on_def Let_def split: sum.splits)
  then obtain u where "write_frame TypeDatagram d (hub_stream h) = (Inr u, hub_stream h')"
    by (auto simp: hub_write_def split: if_splits sum.splits prod.splits)
  then show ?thesis using datagram_rt [OF d] write_frame_Inr(2) by blast
qed

text \<open>A packet leaves the hub well formed and goes out under the id of its own client, through an
  association that was ready, or waits for one.\<close>

lemma ready_inv:
  assumes "forward_ready n p now h = (r, h')" "hub_inv h" "n < length (objs h)"
  shows "hub_inv h'"
  using assms forward_inv [OF assms(2,3), of p now] by (auto simp: forward_ready_def split: sum.splits prod.splits)

lemma ensure_index:
  assumes "hub_inv h" "ids_left h" "ensure_start a now h = (Inr (n, b), g)"
  shows "hub_inv g \<and> n < length (objs g) \<and> client_key n g = addr_key a \<and>
     (ua_ready (objs g ! n) \<longrightarrow> g = h \<and> map_of (by_addr h) (addr_key a) = Some n)"
  using assms(1,2)
proof (cases rule: ensure_start_cases [where c = a and now = now])
  case (found m)
  then have "g = h" "m = n" using assms(3) by auto
  then show ?thesis using hub_shapeD(6,7) [OF hub_invD(1) [OF assms(1)] found(2)] assms(1) found(2) by simp
next
  case (opened g' p)
  then have e: "g = g'" "n = length (objs h)" using assms(3) by auto
  have o: "objs g = objs (add_assoc a now h)" unfolding e using opened(2) by (metis hub.select_convs(1) hub.surjective hub.update_convs(7))
  have "ua_client (objs g ! n) = a" "\<not> ua_ready (objs g ! n)" "n < length (objs g)"
    unfolding o e(2) by (simp_all add: add_assoc_nth)
  then show ?thesis using opened(3) e by (simp add: client_key_def)
qed (use assms in auto)

lemma forward_start_inv:
  assumes "forward_start a p now h = (r, h')" "hub_inv h" "ids_left h"
  shows "hub_inv h' \<and> (r = Sent \<longrightarrow> (\<exists>n d. map_of (by_addr h) (addr_key a) = Some n \<and> is_live (objs h ! n) \<and>
       parse_datagram d = Inr \<lparr>dg_id = ua_id (objs h ! n), dg_payload = p\<rparr> \<and>
       tx (hub_stream h') = tx (hub_stream h) @ frame_bytes TypeDatagram d))"
proof -
  obtain e g where e: "ensure_start a now h = (e, g)" by fastforce
  show ?thesis
  proof (cases e)
    case (Inl x)
    then show ?thesis using assms e ensure_start_inv [OF assms(2,3), of a now] by (auto simp: forward_start_def)
  next
    case (Inr y)
    obtain n b where y: "y = (n, b)" by fastforce
    note i = ensure_index [OF assms(2,3) e [unfolded Inr y]]
    show ?thesis
    proof (cases "ua_ready (objs g ! n)")
      case True
      then have g: "g = h" and f: "forward_ready n p now g = (r, h')" using i assms(1) by (auto simp: forward_start_def e Inr y)
      have k: "map_of (by_addr h) (addr_key a) = Some n" using i True by simp
      have "is_live (objs h ! n) \<and> (\<exists>u. forward_on n p now h = (Inr u, h'))" if "r = Sent"
        using f that True g by (auto simp: forward_ready_def assoc_result_def is_live_def split: option.splits sum.splits prod.splits)
      then show ?thesis using ready_inv [OF f] i g k forward_on_sent [of n p now h] by blast
    next
      case False
      then show ?thesis using assms(1) i by (auto simp: forward_start_def e Inr y)
    qed
  qed
qed

text \<open>What holds of all hubs of an Edge.\<close>

definition hubs_ok :: "hubs \<Rightarrow> bool" where
  "hubs_ok hs \<longleftrightarrow> (\<forall>n h. map_of hs n = Some h \<longrightarrow> hub_inv h \<and> ids_left h)"

lemma packet_cases:
  assumes "udp_packet flt now mx idle opened t src p s hs = (r, s', hs')"
  obtains (drop) "hs' = hs" "r \<noteq> Sent"
    | (go) a s1 h hs1 h' where "src = Some a" "p \<noteq> []" "public_allowed flt (u_ip a) now s = (True, s1)"
        "get_or_open_hub mx idle opened t s1 hs = (Inr h, hs1)" "forward_start a p now h = (r, h')" "hs' = AList.update (t_name t) h' hs1"
proof (cases "p = [] \<or> length p > MaxUDPPayload \<or> src = None")
  case False
  then obtain a where a: "src = Some a" "p \<noteq> []" "\<not> length p > MaxUDPPayload" by blast
  obtain ok s1 where g: "public_allowed flt (u_ip a) now s = (ok, s1)" by fastforce
  obtain q hs1 where q: "get_or_open_hub mx idle opened t s1 hs = (q, hs1)" by fastforce
  show ?thesis
  proof (cases "ok \<and> \<not> isl q")
    case True
    then obtain h where h: "q = Inr h" by (cases q) auto
    obtain r' h' where "forward_start a p now h = (r', h')" by fastforce
    then show ?thesis using go [of a s1 h hs1 h'] assms a g q h True by (simp add: udp_packet_def)
  next
    case False
    have "hs1 = hs" if "isl q" using q that by (cases rule: get_hub_cases) auto
    then show ?thesis using drop assms a g q False by (cases ok; cases q) (auto simp: udp_packet_def)
  qed
next
  case True
  then have "hs' = hs" "r \<noteq> Sent" using assms by (cases "src = None"; auto simp: udp_packet_def split: if_splits)+
  then show ?thesis by (rule drop)
qed

text \<open>
C24: what a UDP packet of the internet can do. A packet of an address that is banned or not admitted, an empty one and one without an address change no hub at all, and neither does any packet while no Agent is connected and no hub is open. The hubs of other tunnels never change. A packet that is sent goes out whole, as one datagram frame, at the end of what was written before, on the hub of its tunnel and under the id of the ready association of its own client address. Every hub stays well formed.
\<close>

theorem udp_packet_gated:
  assumes "udp_packet flt now mx idle opened t src p s hs = (r, s', hs')" "hubs_ok hs"
  shows "(hs' \<noteq> hs \<or> r = Sent \<longrightarrow> (\<exists>a. src = Some a \<and> p \<noteq> [] \<and> is_allowed (u_ip a) now s)) \<and>
     (\<forall>n. n \<noteq> t_name t \<longrightarrow> map_of hs' n = map_of hs n) \<and>
     (\<forall>n h. map_of hs' n = Some h \<longrightarrow> hub_inv h) \<and>
     (get_session s = None \<and> (\<forall>h. map_of hs (t_name t) = Some h \<longrightarrow> hub_closed h) \<longrightarrow> hs' = hs) \<and>
     (r = Sent \<longrightarrow> (\<exists>a h h' n d. src = Some a \<and> map_of hs (t_name t) = Some h \<and> map_of hs' (t_name t) = Some h' \<and>
        map_of (by_addr h) (addr_key a) = Some n \<and> is_live (objs h ! n) \<and>
        parse_datagram d = Inr \<lparr>dg_id = ua_id (objs h ! n), dg_payload = p\<rparr> \<and>
        tx (hub_stream h') = tx (hub_stream h) @ frame_bytes TypeDatagram d))"
proof -
  show ?thesis
    using assms(1)
  proof (cases rule: packet_cases)
    case drop
    then show ?thesis using assms(2) by (auto simp: hubs_ok_def)
  next
    case (go a s1 h hs1 h')
    have al: "is_allowed (u_ip a) now s" using go(3) public_allowed_parts(1) [of flt "u_ip a" now s] by simp
    have ss: "get_session s1 = get_session s" using go(3) public_allowed_parts(8,9) [of flt "u_ip a" now s] by (simp add: get_session_def split: option.split)
    have h: "hub_inv h \<and> ids_left h \<and> (\<forall>n. n \<noteq> t_name t \<longrightarrow> map_of hs1 n = map_of hs n) \<and> map_of hs1 (t_name t) = Some h \<and>
        (\<not> (get_session s = None \<and> (\<forall>h. map_of hs (t_name t) = Some h \<longrightarrow> hub_closed h))) \<and>
        (map_of hs (t_name t) = Some h \<or> by_addr h = [])"
      using go(4)
    proof (cases rule: get_hub_cases)
      case (old h0)
      then show ?thesis using assms(2) by (auto simp: hubs_ok_def)
    next
      case (new c)
      then show ?thesis using ss new_hub_inv by (auto simp: ids_left_def new_hub_def)
    qed simp
    note f = forward_start_inv [OF go(5)] 
    show ?thesis using al go(1,2,6) h f assms(2) by (auto simp: hubs_ok_def)
  qed
qed

definition example_udp_tunnel :: tunnel where
  "example_udp_tunnel = \<lparr>t_name = ''dns'', t_type = TypeUDP, t_public = '':53'', t_tls = False, t_passthrough = False, t_http2 = False,
     t_local = ''127.0.0.1:53'', t_host = [], t_cert = [], t_key = []\<rparr>"

theorem udp_packet_gated_witness:
  "let run = udp_packet None 9 4 60 (Inl Unauthorized) example_udp_tunnel (Some example_client) [1] example_server [(''dns'', example_hub)]
   in fst run \<noteq> Sent \<and> snd (snd run) = [(''dns'', example_hub)]"
proof -
  obtain r s' hs' where u: "udp_packet None 9 4 60 (Inl Unauthorized) example_udp_tunnel (Some example_client) [1] example_server [(''dns'', example_hub)] = (r, s', hs')"
    by (metis prod_cases3)
  have "hubs_ok [(''dns'', example_hub)]"
    unfolding hubs_ok_def example_hub_def using new_hub_inv [of "mk_conn []" 4 60 new_registry] by (auto simp: ids_left_def new_hub_def)
  from udp_packet_gated [OF u this] show ?thesis by (auto simp: u is_allowed_iff example_allow)
qed

end
