(* ===== verification/AgentLoop.thy ===== *)
theory AgentLoop
  imports Certs ConfigCheck UdpHub Gate Dest
begin

text \<open>
  The Agent as a whole, \<open>New\<close>, \<open>connectOnce\<close>, \<open>acceptLoop\<close> and \<open>Run\<close> of
  \<open>internal/agent/client.go\<close>, and a public TCP connection from Edge's \<open>handlePublic\<close> to the dialled
  target.

  The peer of one attempt is what dialling found: its certificate chain, whether the rest of the TLS
  handshake works, and the connection. yamux appears as the error it reports, or the streams it
  accepts.
\<close>

section \<open>One connection\<close>

datatype agent_error = BadAgentConfig config_error | BadAgentTLS ca_error

definition agent_new :: "(string \<Rightarrow> bool) \<Rightarrow> files \<Rightarrow> config \<Rightarrow> agent_error + config \<times> tls_client" where
  "agent_new pool fs c0 =
     (case validate_agent c0 of
        Inl e \<Rightarrow> Inl (BadAgentConfig e)
      | Inr c \<Rightarrow>
          (case client_config pool fs (tls_ca c) (tls_server_name c) (skip_verify c) of
             Inl e \<Rightarrow> Inl (BadAgentTLS e)
           | Inr t \<Rightarrow> Inr (c, t)))"

record 'c edge_end =
  ee_chain :: "'c list"
  ee_shakes :: bool
  ee_conn :: conn

datatype connect_error =
    DialEdgeFailed | TLSRefused | NotAuthenticated tunnel_error | NoSession tunnel_error | NoControl tunnel_error
  | AcceptEnded tunnel_error | Cancelled

text \<open>\<open>acceptLoop\<close>: with each stream comes whether the context is done. The result is the streams
  handed on with their metadata, and the error that ended the loop, if it ended.\<close>

fun accept_loop :: "(bool \<times> (tunnel_error + conn)) list \<Rightarrow> (open_meta \<times> conn) list \<times> connect_error option" where
  "accept_loop [] = ([], None)"
| "accept_loop ((stop, a) # es) =
     (if stop then ([], Some Cancelled)
      else case accept_data a of
        (Inr m, Some s) \<Rightarrow> (case accept_loop es of (ms, r) \<Rightarrow> ((m, s) # ms, r))
      | (Inl e, _) \<Rightarrow> ([], Some (AcceptEnded e))
      | (Inr _, None) \<Rightarrow> ([], Some Cancelled))"

record attempt =
  at_established :: bool
  at_error :: connect_error
  at_conn :: "conn option"
  at_streams :: "(open_meta \<times> conn) list"

definition failed_attempt :: "connect_error \<Rightarrow> conn option \<Rightarrow> attempt" where
  "failed_attempt e c = \<lparr>at_established = False, at_error = e, at_conn = c, at_streams = []\<rparr>"

text \<open>\<open>connectOnce\<close>; it returns when the accept loop has ended or the context is done.\<close>

definition connect_once ::
  "(string option \<Rightarrow> string \<Rightarrow> 'c list \<Rightarrow> bool) \<Rightarrow> config \<Rightarrow> tls_client \<Rightarrow> 'c edge_end option \<Rightarrow> tunnel_error option \<Rightarrow> tunnel_error option
   \<Rightarrow> (bool \<times> (tunnel_error + conn)) list \<Rightarrow> attempt" where
  "connect_once x509 c base peer mux ctrl es =
     (case peer of
        None \<Rightarrow> failed_attempt DialEdgeFailed None
      | Some p \<Rightarrow>
          if \<not> (tls_accepts x509 (dial_config base (edge c)) (ee_chain p) \<and> ee_shakes p)
          then failed_attempt TLSRefused (Some (close_conn (ee_conn p)))
          else
            (case client_handshake (cfg_token c) (if agent_id c = [] then ''agent'' else agent_id c) (ee_conn p) of
               (Inl e, c1) \<Rightarrow> failed_attempt (NotAuthenticated e) (Some (close_conn c1))
             | (Inr _, c1) \<Rightarrow>
                 (case mux of
                    Some e \<Rightarrow> failed_attempt (NoSession e) (Some (close_conn c1))
                  | None \<Rightarrow>
                      (case ctrl of
                         Some e \<Rightarrow> failed_attempt (NoControl e) (Some (close_conn c1))
                       | None \<Rightarrow>
                           (case accept_loop es of (ms, r) \<Rightarrow>
                              \<lparr>at_established = True, at_error = (case r of None \<Rightarrow> Cancelled | Some e \<Rightarrow> e),
                               at_conn = Some (close_conn c1), at_streams = ms\<rparr>)))))"

section \<open>Reconnecting\<close>

text \<open>What happens in one round of \<open>Run\<close>: whether the session was established, whether the context
  is done after it or during the wait, and the jitter.\<close>

record agent_round =
  rd_established :: bool
  rd_done :: bool
  rd_jitter :: int
  rd_wait_done :: bool

text \<open>Whether \<open>Run\<close> returned, and the waits it scheduled.\<close>

fun agent_run :: "int \<Rightarrow> agent_round list \<Rightarrow> bool \<times> int list" where
  "agent_run b [] = (False, [])"
| "agent_run b (r # rs) =
     (if rd_done r then (True, [])
      else let b1 = next_backoff (rd_jitter r) (if rd_established r then 0 else b) in
        if rd_wait_done r then (True, [b1])
        else (case agent_run b1 rs of (fin, ws) \<Rightarrow> (fin, b1 # ws)))"

definition fair_jitter :: "agent_round \<Rightarrow> bool" where
  "fair_jitter r \<longleftrightarrow> 0 \<le> rd_jitter r \<and> rd_jitter r < 400000000"

definition pace_ok :: "agent_round \<Rightarrow> int \<Rightarrow> bool" where
  "pace_ok r w \<longleftrightarrow> minBackoff \<le> w \<and> w < maxBackoff + 400000000 \<and> (rd_established r \<longrightarrow> w < minBackoff + 400000000)"

lemma pace_next: "fair_jitter r \<Longrightarrow> pace_ok r (next_backoff (rd_jitter r) (if rd_established r then 0 else b))"
  by (auto simp: fair_jitter_def pace_ok_def next_backoff_def minBackoff_def maxBackoff_def Let_def)

text \<open>
C29: the Agent comes back until it is told to stop. \<open>Run\<close> returns exactly when the context is done, after an attempt or in a wait. Until then every attempt, failed or not, is followed by a wait and the next attempt; a wait is at least half a second and below 15.4 seconds, and below 0.9 seconds after a session that had been established.
\<close>

theorem agent_reconnects:
  assumes "agent_run b rs = (fin, ws)" "list_all fair_jitter rs"
  shows "(fin \<longleftrightarrow> (\<exists>r \<in> set rs. rd_done r \<or> rd_wait_done r)) \<and>
     (\<not> fin \<longrightarrow> length ws = length rs) \<and> length ws \<le> length rs \<and>
     (\<forall>k < length ws. pace_ok (rs ! k) (ws ! k))"
  using assms
proof (induction rs arbitrary: b ws)
  case (Cons r rs)
  let ?b = "next_backoff (rd_jitter r) (if rd_established r then 0 else b)"
  have p: "pace_ok r ?b" using Cons.prems(2) pace_next by simp
  show ?case
  proof (cases "rd_done r \<or> rd_wait_done r")
    case True
    then show ?thesis using Cons.prems(1) p by (auto simp: Let_def split: if_splits)
  next
    case False
    then obtain ws' where w: "agent_run ?b rs = (fin, ws')" "ws = ?b # ws'"
      using Cons.prems(1) by (auto simp: Let_def split: prod.splits)
    show ?thesis using Cons.IH [OF w(1)] Cons.prems(2) False p w(2) by (auto simp: nth_Cons' gr0_conv_Suc)
  qed
qed simp

definition example_round :: "bool \<Rightarrow> bool \<Rightarrow> agent_round" where
  "example_round est stop = \<lparr>rd_established = est, rd_done = stop, rd_jitter = 7, rd_wait_done = False\<rparr>"

theorem agent_reconnects_witness:
  "let (fin, ws) = agent_run 0 [example_round False False, example_round True False, example_round False True, example_round False False]
   in fin \<and> length ws \<le> 4 \<and> (\<forall>k < length ws. minBackoff \<le> ws ! k)"
proof -
  let ?rs = "[example_round False False, example_round True False, example_round False True, example_round False False]"
  obtain fin ws where a: "agent_run 0 ?rs = (fin, ws)" by fastforce
  have f: "list_all fair_jitter ?rs" by (simp add: fair_jitter_def example_round_def)
  have "\<exists>r \<in> set ?rs. rd_done r \<or> rd_wait_done r" by (simp add: example_round_def)
  moreover have "length ?rs = 4" by simp
  ultimately show ?thesis using agent_reconnects [OF a f] unfolding a prod.case Let_def pace_ok_def by metis
qed

section \<open>Whom the Agent talks to\<close>

text \<open>
C6: the token goes to no one else. Whatever answers the dial, if the Agent writes a single byte on a fresh connection, and so in particular if a session is established, then verification is switched off in its configuration or the peer's chain verified for the configured name against the configured roots. An established session went through the whole handshake, and whatever happens the connection is closed in the end.
\<close>

theorem agent_connects_safely:
  assumes "agent_new pool fs c0 = Inr (c, base)" "a = connect_once x509 c base peer mux ctrl es"
  shows "(\<forall>x. at_conn a = Some x \<longrightarrow> closed x) \<and>
     (at_established a \<longrightarrow> (\<exists>p c1. peer = Some p \<and> mux = None \<and> ctrl = None \<and>
        client_handshake (cfg_token c) (if agent_id c = [] then ''agent'' else agent_id c) (ee_conn p) = (Inr (), c1))) \<and>
     (\<forall>p. peer = Some p \<and> tx (ee_conn p) = [] \<and> (at_established a \<or> (\<exists>x. at_conn a = Some x \<and> tx x \<noteq> [])) \<longrightarrow>
        skip_verify c \<or> ee_chain p \<noteq> [] \<and>
          x509 (if tls_ca c = [] then None else Some (projr (read_file fs (tls_ca c))))
            (if tls_server_name c = [] then ''localhost'' else tls_server_name c) (ee_chain p))"
proof -
  have b: "base = \<lparr>tc_protos = [ALPN], tc_skip = skip_verify c, tc_name = tls_server_name c,
      tc_roots = (if tls_ca c = [] then None else Some (projr (read_file fs (tls_ca c)))), tc_verify = None\<rparr>"
    using assms(1) by (auto simp: agent_new_def client_config_def Let_def split: if_splits sum.splits)
  have t: "skip_verify c \<or> ch \<noteq> [] \<and> x509 (if tls_ca c = [] then None else Some (projr (read_file fs (tls_ca c))))
            (if tls_server_name c = [] then ''localhost'' else tls_server_name c) ch"
    if "tls_accepts x509 (dial_config base (edge c)) ch" for ch
    using that unfolding dial_config_cases by (auto simp: tls_accepts_def b split: if_splits)
  show ?thesis
    using t unfolding assms(2) by (auto simp: connect_once_def failed_attempt_def split: option.splits sum.splits prod.splits if_splits)
qed

definition example_agent :: config where
  "example_agent = empty_config\<lparr>edge := ''203.0.113.7:8443'', cfg_token := ''t'', tls_ca := ''ca.pem'', tls_server_name := ''localhost''\<rparr>"

theorem agent_connects_safely_witness:
  "\<exists>c base. agent_new (\<lambda>_. True) (\<lambda>_. FText ''P'') example_agent = Inr (c, base) \<and>
     \<not> at_established (connect_once (\<lambda>_ _ _. False) c base (Some \<lparr>ee_chain = [0 :: nat], ee_shakes = True, ee_conn = mk_conn []\<rparr>) None None [])"
proof -
  have v: "case agent_new (\<lambda>_. True) (\<lambda>_. FText ''P'') example_agent of Inr (c, base) \<Rightarrow> \<not> skip_verify c | Inl e \<Rightarrow> False"
    by code_simp
  then obtain c base where a: "agent_new (\<lambda>_. True) (\<lambda>_. FText ''P'') example_agent = Inr (c, base)" "\<not> skip_verify c"
    by (auto split: sum.splits)
  show ?thesis using agent_connects_safely [OF a(1) refl, of "\<lambda>_ _ _. False" "Some \<lparr>ee_chain = [0 :: nat], ee_shakes = True, ee_conn = mk_conn []\<rparr>" None None "[]"] a
    by auto
qed

section \<open>A public TCP connection, end to end\<close>

text \<open>\<open>handlePublic\<close> with its call of \<open>OpenData\<close>: the outcome, the server, and the stream if one
  was opened. \<open>addr\<close> is the text of the client's address.\<close>

definition tcp_meta :: "tunnel \<Rightarrow> string \<Rightarrow> open_meta" where
  "tcp_meta t addr = \<lparr>om_name = t_name t, om_local = t_local t, om_client_addr = addr, om_proto = ProtoTCP\<rparr>"

definition public_tcp ::
  "fs_op option \<Rightarrow> int \<Rightarrow> nat \<Rightarrow> ip \<Rightarrow> tunnel \<Rightarrow> string \<Rightarrow> tunnel_error + conn \<Rightarrow> server \<Rightarrow> public_outcome \<times> server \<times> conn option" where
  "public_tcp flt now x i t addr opened s =
     (case open_data opened (tcp_meta t addr) of
        (res, st) \<Rightarrow>
          (case handle_public flt now x i (\<not> isl res) s of
             (r, s') \<Rightarrow> (r, s', if r = Relaying \<or> r = OpenFailed then st else None)))"

lemma read_ack_frame:
  assumes "rx c = frame_bytes TypeOpenStreamAck (ok_byte ok # string_bytes msg) @ d" "length msg \<le> 65000"
  shows "read_frame c = (Inr \<lparr>fr_type = TypeOpenStreamAck, fr_flags = 0, fr_payload = ok_byte ok # string_bytes msg\<rparr>, c\<lparr>rx := d\<rparr>)"
  using assms by (intro read_frame_bytes) (simp_all add: MaxPayloadSize_def)

lemma open_data_answered:
  assumes "marshal_open_meta m = Inr p" "length p \<le> MaxPayloadSize" "length msg \<le> 65000"
  shows "\<exists>st. open_data (Inr (mk_conn (frame_bytes TypeOpenStreamAck (ok_byte ok # string_bytes msg) @ d))) m =
       (if ok then Inr () else Inl (Rejected (if msg = [] then ''agent rejected stream'' else ''agent rejected stream: '' @ msg)), Some st) \<and>
     tx st = frame_bytes TypeOpenStream p \<and> rx st = d \<and> closed st = (\<not> ok)"
proof -
  let ?c = "mk_conn (frame_bytes TypeOpenStreamAck (ok_byte ok # string_bytes msg) @ d)"
  obtain c1 where w: "write_frame TypeOpenStream p ?c = (Inr (), c1)" "tx c1 = frame_bytes TypeOpenStream p" "rx c1 = rx ?c" "\<not> closed c1"
    using write_frame_ok [OF assms(2), of ?c TypeOpenStream] by auto
  have r: "read_frame c1 = (Inr \<lparr>fr_type = TypeOpenStreamAck, fr_flags = 0, fr_payload = ok_byte ok # string_bytes msg\<rparr>, c1\<lparr>rx := d\<rparr>)"
    using w(3) assms(3) by (intro read_ack_frame) simp_all
  have "parse_open_ack (ok_byte ok # string_bytes msg) = Inr \<lparr>oa_ok = ok, oa_message = msg\<rparr>"
    using assms(3) by (intro parse_open_ack_bytes) simp
  then show ?thesis
    by (intro exI [of _ "if ok then c1\<lparr>rx := d\<rparr> else close_conn (c1\<lparr>rx := d\<rparr>)"]) (simp add: open_data_def assms(1) w r)
qed

text \<open>What the Agent answers on a stream whose metadata it has read.\<close>

definition agent_answer :: "config \<Rightarrow> (string \<Rightarrow> ip list option) \<Rightarrow> (dest_error \<Rightarrow> string) \<Rightarrow> (string \<Rightarrow> bool) \<Rightarrow> open_meta \<Rightarrow> bool \<times> string" where
  "agent_answer c lookup text dial m =
     (case resolve_local c m of
        Inl msg \<Rightarrow> (False, msg)
      | Inr dst \<Rightarrow>
          (case validate_local lookup dst (private_only c) of
             Some e \<Rightarrow> (False, text e)
           | None \<Rightarrow> if dial dst then (True, ''ok'') else (False, ''dial failed'')))"

lemma handle_stream_answers:
  assumes "agent_answer c lookup text dial m = (ok, msg)" "length msg \<le> 65000" "tx_room s = None"
  shows "\<exists>r s'. handle_stream c lookup text dial m s = (r, s') \<and> rx s' = rx s \<and>
     tx s' = tx s @ frame_bytes TypeOpenStreamAck (ok_byte ok # string_bytes msg) \<and>
     (ok \<longleftrightarrow> (\<exists>dst. r = Forwarding dst)) \<and> (\<forall>dst. r = Forwarding dst \<longrightarrow> resolve_local c m = Inr dst) \<and>
     (\<not> ok \<longrightarrow> closed s')"
proof -
  have w: "can_write (length msg + 11) s" using assms(3) by (simp add: can_write_def)
  obtain s1 where a: "ack_data ok msg s = (Inr (), s1)" "rx s1 = rx s" "tx s1 = tx s @ frame_bytes TypeOpenStreamAck (ok_byte ok # string_bytes msg)"
    using ack_data_ok [OF assms(2) w, of ok] by blast
  show ?thesis
    using assms(1) a by (auto simp: agent_answer_def handle_stream_def split: sum.splits option.splits if_splits)
qed

lemma handle_public_admitted:
  assumes "is_allowed i now s" "get_session s \<noteq> None" "sem_used s < sem_cap s" "0 \<le> active_sessions (reg s)"
  shows "\<exists>s'. handle_public flt now x i ok s = (if ok then Relaying else OpenFailed, s') \<and> (\<not> ok \<longrightarrow> sem_used s' = sem_used s) \<and>
     active_sessions (reg s') = active_sessions (reg s) + (if ok then 1 else 0)"
proof -
  let ?s = "track_tcp \<lparr>pc_id = x, pc_ip = i, pc_open = True\<rparr> s"
  obtain s1 where g: "public_allowed flt i now ?s = (True, s1)" and s1: "sem_used s1 = sem_used s" "sem_cap s1 = sem_cap s" "reg s1 = reg s"
      "get_session s1 = get_session s"
    using public_allowed_parts [of flt i now ?s] assms(1)
    by (cases "public_allowed flt i now ?s") (auto simp: track_tcp_def is_allowed_iff get_session_def split: option.splits)
  let ?s2 = "s1\<lparr>sem_used := sem_used s1 + 1\<rparr>"
  have "get_session ?s2 = get_session s1" by (simp add: get_session_def split: option.split)
  then have hp: "handle_public flt now x i ok s =
      (if ok then (Relaying, ?s2\<lparr>reg := add_sessions 1 (reg ?s2)\<rparr>) else (OpenFailed, untrack_tcp x (?s2\<lparr>sem_used := sem_used ?s2 - 1\<rparr>)))"
    using assms(2,3) g s1 by (auto simp: handle_public_def Let_def split: option.splits)
  show ?thesis using s1 assms(4) by (simp add: hp untrack_tcp_def active_add)
qed

text \<open>Both ends of one stream: what Edge writes is what the Agent reads, and the answer the other way.\<close>

lemma stream_exchange:
  assumes "marshal_open_meta m = Inr p" "length p \<le> MaxPayloadSize"
    and "agent_answer c lookup text dial m = (ok, msg)" "length msg \<le> 65000"
  obtains st ag0 ag r where "accept_data (Inr (mk_conn (tx st @ d1))) = (Inr m, Some ag0)"
    "handle_stream c lookup text dial m ag0 = (r, ag)"
    "open_data (Inr (mk_conn (tx ag @ d2))) m =
       (if ok then Inr () else Inl (Rejected (if msg = [] then ''agent rejected stream'' else ''agent rejected stream: '' @ msg)), Some st)"
    "rx ag = d1" "rx st = d2" "closed st = (\<not> ok)" "ok \<longleftrightarrow> (\<exists>dst. r = Forwarding dst)"
    "\<And>dst. r = Forwarding dst \<Longrightarrow> resolve_local c m = Inr dst" "\<not> ok \<Longrightarrow> closed ag"
proof -
  let ?F = "frame_bytes TypeOpenStream p" and ?A = "frame_bytes TypeOpenStreamAck (ok_byte ok # string_bytes msg)"
  obtain st where o: "open_data (Inr (mk_conn (?A @ d2))) m =
       (if ok then Inr () else Inl (Rejected (if msg = [] then ''agent rejected stream'' else ''agent rejected stream: '' @ msg)), Some st)"
     "tx st = ?F" "rx st = d2" "closed st = (\<not> ok)"
    using open_data_answered [OF assms(1,2,4), of ok d2] by blast
  let ?g = "(mk_conn (?F @ d1))\<lparr>rx := d1\<rparr>"
  have a: "accept_data (Inr (mk_conn (tx st @ d1))) = (Inr m, Some ?g)"
    unfolding o(2) by (rule accept_data_bytes [OF assms(1,2)]) simp
  obtain r ag where "handle_stream c lookup text dial m ?g = (r, ag)" "rx ag = d1" "tx ag = ?A" "ok \<longleftrightarrow> (\<exists>dst. r = Forwarding dst)"
      "\<forall>dst. r = Forwarding dst \<longrightarrow> resolve_local c m = Inr dst" "\<not> ok \<longrightarrow> closed ag"
    using handle_stream_answers [OF assms(3,4), of ?g] by auto
  then show thesis using that [of st ?g r ag] a o by simp
qed

text \<open>
C7: a public TCP connection works end to end, or is refused end to end. Take a client that the gate admits while a session with a connected Agent has a free slot. Edge opens a stream for the tunnel and the Agent reads the tunnel's metadata from it. If the Agent can use its target, it dials the target that its configuration gives for that tunnel, Edge starts the relay with one more session counted, both streams are open, and on both sides the data that follows the opening is untouched: what one end sends is what the other end will read. If it cannot, for whatever reason, Edge gets the Agent's own message, both streams are closed, and the slot and the gauge are as before.
\<close>

theorem tcp_end_to_end:
  assumes "is_allowed i now s" "get_session s \<noteq> None" "sem_used s < sem_cap s" "0 \<le> active_sessions (reg s)"
    and "marshal_open_meta (tcp_meta t addr) = Inr p" "length p \<le> MaxPayloadSize"
    and "agent_answer c lookup text dial (tcp_meta t addr) = (ok, msg)" "length msg \<le> 65000"
  shows "\<exists>st ag0 ag r s'. accept_data (Inr (mk_conn (tx st @ d1))) = (Inr (tcp_meta t addr), Some ag0) \<and>
     handle_stream c lookup text dial (tcp_meta t addr) ag0 = (r, ag) \<and>
     public_tcp flt now x i t addr (Inr (mk_conn (tx ag @ d2))) s = (if ok then Relaying else OpenFailed, s', Some st) \<and>
     rx ag = d1 \<and> rx st = d2 \<and> closed st = (\<not> ok) \<and> (ok \<longleftrightarrow> (\<exists>dst. r = Forwarding dst)) \<and>
     (\<forall>dst. r = Forwarding dst \<longrightarrow> resolve_local c (tcp_meta t addr) = Inr dst) \<and>
     (\<not> ok \<longrightarrow> closed ag \<and> sem_used s' = sem_used s) \<and>
     active_sessions (reg s') = active_sessions (reg s) + (if ok then 1 else 0)"
proof -
  let ?m = "tcp_meta t addr"
  obtain st ag0 ag r where e: "accept_data (Inr (mk_conn (tx st @ d1))) = (Inr ?m, Some ag0)" "handle_stream c lookup text dial ?m ag0 = (r, ag)"
    "rx ag = d1" "rx st = d2" "closed st = (\<not> ok)" "ok \<longleftrightarrow> (\<exists>dst. r = Forwarding dst)"
    "\<forall>dst. r = Forwarding dst \<longrightarrow> resolve_local c ?m = Inr dst" "\<not> ok \<longrightarrow> closed ag"
    and o: "open_data (Inr (mk_conn (tx ag @ d2))) ?m =
       (if ok then Inr () else Inl (Rejected (if msg = [] then ''agent rejected stream'' else ''agent rejected stream: '' @ msg)), Some st)"
    using stream_exchange [OF assms(5-8)] by metis
  obtain s' where "handle_public flt now x i ok s = (if ok then Relaying else OpenFailed, s')"
    and f: "\<not> ok \<longrightarrow> sem_used s' = sem_used s" "active_sessions (reg s') = active_sessions (reg s) + (if ok then 1 else 0)"
    using handle_public_admitted [OF assms(1-4)] by blast
  then have "public_tcp flt now x i t addr (Inr (mk_conn (tx ag @ d2))) s = (if ok then Relaying else OpenFailed, s', Some st)"
    using o unfolding public_tcp_def by (cases ok) simp_all
  then show ?thesis using e f by blast
qed

definition example_edge_server :: server where
  "example_edge_server = example_server\<lparr>sess := Some 7, srv_acl := \<lparr>entries = [''10.0.0.0/8''], nets = [example_net]\<rparr>\<rparr>"

definition example_tcp_tunnel :: tunnel where
  "example_tcp_tunnel = \<lparr>t_name = ''web'', t_type = TypeTCP, t_public = '':80'', t_tls = False, t_passthrough = False, t_http2 = False,
     t_local = ''10.0.0.7:80'', t_host = [], t_cert = [], t_key = []\<rparr>"

theorem tcp_end_to_end_witness:
  "\<exists>st ag0 ag s'. accept_data (Inr (mk_conn (tx st @ [1, 2]))) = (Inr (tcp_meta example_tcp_tunnel ''c''), Some ag0) \<and>
     handle_stream example_config (\<lambda>_. None) (\<lambda>_. ''bad'') (\<lambda>_. True) (tcp_meta example_tcp_tunnel ''c'') ag0 = (Forwarding ''10.0.0.7:80'', ag) \<and>
     public_tcp None 5 1 [10, 0, 0, 9] example_tcp_tunnel ''c'' (Inr (mk_conn (tx ag @ [3]))) example_edge_server = (Relaying, s', Some st) \<and>
     rx ag = [1, 2] \<and> rx st = [3]"
proof -
  let ?m = "tcp_meta example_tcp_tunnel ''c''"
  have a: "is_allowed [10, 0, 0, 9] 5 example_edge_server" by code_simp
  have s: "get_session example_edge_server \<noteq> None" "sem_used example_edge_server < sem_cap example_edge_server"
    "0 \<le> active_sessions (reg example_edge_server)"
    by (simp_all add: example_edge_server_def example_server_def get_session_def new_registry_def)
  have m: "marshal_open_meta ?m = Inr (ProtoTCP # string_bytes ''web'' @ string_bytes ''10.0.0.7:80'' @ string_bytes ''c'')"
    "length (ProtoTCP # string_bytes ''web'' @ string_bytes ''10.0.0.7:80'' @ string_bytes ''c'') \<le> MaxPayloadSize"
    by (simp_all add: tcp_meta_def example_tcp_tunnel_def marshal_defs MaxPayloadSize_def)
  have v: "validate_local (\<lambda>_. None) ''10.0.0.7:80'' True = None" "trim_space ''10.0.0.7:80'' \<noteq> []" by code_simp+
  have l: "resolve_local example_config ?m = Inr ''10.0.0.7:80''" "private_only example_config"
    using v(2) by (simp_all add: resolve_local_def restrict_tunnels_def example_config_def empty_config_def private_only_def tcp_meta_def example_tcp_tunnel_def)
  have w: "agent_answer example_config (\<lambda>_. None) (\<lambda>_. ''bad'') (\<lambda>_. True) ?m = (True, ''ok'')"
    using v l by (simp add: agent_answer_def)
  from tcp_end_to_end [OF a s m w, of "[1, 2]" None 1 "[3]"] l(1) show ?thesis by auto
qed

end
