(* ===== verification/ConnStack.thy ===== *)
theory ConnStack
  imports Netutil Session
begin

text \<open>
  Connections wrapped in connections: \<open>CloseReset\<close> of \<open>internal/netutil/ip.go\<close> and the wrappers of
  \<open>internal/tunnel/session.go\<close> and \<open>internal/proxy/prefix.go\<close>.

  A Go interface check for a method is a case on the constructor: \<open>NetConn\<close> is a method of a TLS
  connection and of \<open>fastCloseConn\<close>, and of neither a socket nor the two wrappers that embed the
  interface \<open>net.Conn\<close>. What is done to the sockets is a list of operations.
\<close>

datatype net_conn =
    TcpConn nat | OtherConn nat | TlsConn net_conn | ProxiedConn remote_addr net_conn | PrefixedConn bytes net_conn | FastClose net_conn

datatype sock_op = Linger0 nat | CloseSock nat | TlsGoodbye nat | ExpireDeadline nat | KeepAlive nat

fun base_id :: "net_conn \<Rightarrow> nat" where
  "base_id (TcpConn n) = n"
| "base_id (OtherConn n) = n"
| "base_id (TlsConn c) = base_id c"
| "base_id (ProxiedConn a c) = base_id c"
| "base_id (PrefixedConn b c) = base_id c"
| "base_id (FastClose c) = base_id c"

text \<open>\<open>Close\<close>: a TLS connection says goodbye first, \<open>fastCloseConn\<close> expires the deadlines.\<close>

fun close_ops :: "net_conn \<Rightarrow> sock_op list" where
  "close_ops (TcpConn n) = [CloseSock n]"
| "close_ops (OtherConn n) = [CloseSock n]"
| "close_ops (TlsConn c) = TlsGoodbye (base_id c) # close_ops c"
| "close_ops (ProxiedConn a c) = close_ops c"
| "close_ops (PrefixedConn b c) = close_ops c"
| "close_ops (FastClose c) = ExpireDeadline (base_id c) # close_ops c"

fun inner_conn :: "net_conn \<Rightarrow> net_conn option" where
  "inner_conn (TlsConn c) = Some c"
| "inner_conn (FastClose c) = (case inner_conn c of Some d \<Rightarrow> Some d | None \<Rightarrow> Some c)"
| "inner_conn _ = None"

lemma inner_smaller: "inner_conn c = Some d \<Longrightarrow> size d < size c"
  by (induction c arbitrary: d rule: inner_conn.induct) (auto split: option.splits intro: less_SucI)

definition wrap_prefix :: "net_conn \<Rightarrow> bytes \<Rightarrow> net_conn" where
  "wrap_prefix c b = (if b = [] then c else PrefixedConn b c)"

section \<open>Resetting a connection\<close>

text \<open>One step of the loop of \<open>CloseReset\<close>.\<close>

definition unwrap :: "net_conn \<Rightarrow> net_conn option" where
  "unwrap c = (case c of ProxiedConn a d \<Rightarrow> Some d | _ \<Rightarrow> inner_conn c)"

lemma unwrap_smaller: "unwrap c = Some d \<Longrightarrow> size d < size c"
  using inner_smaller by (cases c) (force simp: unwrap_def split: option.splits)+

function reset_loop :: "net_conn \<Rightarrow> net_conn \<Rightarrow> sock_op list" where
  "reset_loop c cur =
     (case cur of
        TcpConn n \<Rightarrow> [Linger0 n, CloseSock n]
      | _ \<Rightarrow> (case unwrap cur of Some d \<Rightarrow> reset_loop c d | None \<Rightarrow> close_ops c))"
  by pat_completeness auto
termination by (relation "measure (\<lambda>(c, cur). size cur)") (auto dest!: unwrap_smaller)

declare reset_loop.simps [simp del]

definition close_reset :: "net_conn \<Rightarrow> sock_op list" where
  "close_reset c = reset_loop c c"

text \<open>What \<open>CloseReset\<close> sees under the wrappers it knows.\<close>

fun peel :: "net_conn \<Rightarrow> net_conn" where
  "peel (TlsConn c) = peel c"
| "peel (ProxiedConn a c) = peel c"
| "peel (FastClose c) = peel c"
| "peel c = c"

lemma peel_inner: "inner_conn c = Some d \<Longrightarrow> peel c = peel d"
  by (induction c arbitrary: d rule: inner_conn.induct) (auto split: option.splits)

lemma peel_unwrap: "unwrap c = Some d \<Longrightarrow> peel c = peel d"
  using peel_inner by (cases c) (auto simp: unwrap_def split: option.splits)

lemma unwrap_None: "unwrap c = None \<longleftrightarrow> peel c = c"
proof -
  have "inner_conn (FastClose d) \<noteq> None" for d by (simp split: option.split)
  moreover have "size (peel d) \<le> size d" for d by (induction d rule: peel.induct) auto
  then have "peel d \<noteq> TlsConn d" "peel d \<noteq> FastClose d" "peel d \<noteq> ProxiedConn a d" for d a
    by (metis net_conn.size(9,10,12) not_less_eq_eq order_refl add.right_neutral add_Suc_right)+
  ultimately show ?thesis by (cases c) (auto simp: unwrap_def)
qed

lemma reset_loop_peel: "reset_loop c cur = (case peel cur of TcpConn n \<Rightarrow> [Linger0 n, CloseSock n] | _ \<Rightarrow> close_ops c)"
proof (induction c cur rule: reset_loop.induct)
  case (1 c cur)
  show ?case
  proof (cases "unwrap cur")
    case None
    then have p: "peel cur = cur" by (simp add: unwrap_None)
    show ?thesis using None p by (subst reset_loop.simps) (auto split: net_conn.split)
  next
    case (Some d)
    then have n: "\<nexists>n. cur = TcpConn n" by (auto simp: unwrap_def)
    have "reset_loop c cur = reset_loop c d" using n Some by (subst reset_loop.simps) (auto split: net_conn.split)
    also have "\<dots> = (case peel d of TcpConn n \<Rightarrow> [Linger0 n, CloseSock n] | _ \<Rightarrow> close_ops c)"
      using 1 n Some by (cases cur) auto
    finally show ?thesis using peel_unwrap [OF Some] by simp
  qed
qed

lemma close_reset_peel: "close_reset c = (case peel c of TcpConn n \<Rightarrow> [Linger0 n, CloseSock n] | _ \<Rightarrow> close_ops c)"
  by (simp add: close_reset_def reset_loop_peel)

section \<open>TCP keep-alive\<close>

text \<open>\<open>enableTCPKeepAlive\<close>; \<open>k\<close> is the number of wrappers it still looks through.\<close>

fun keepalive_loop :: "nat \<Rightarrow> net_conn \<Rightarrow> sock_op list" where
  "keepalive_loop 0 cur = []"
| "keepalive_loop (Suc k) cur =
     (case cur of
        TcpConn n \<Rightarrow> [KeepAlive n]
      | _ \<Rightarrow> (case inner_conn cur of None \<Rightarrow> [] | Some d \<Rightarrow> keepalive_loop k d))"

definition enable_tcp_keepalive :: "net_conn \<Rightarrow> sock_op list" where
  "enable_tcp_keepalive c = keepalive_loop 8 c"

definition prepare_mux_conn :: "net_conn \<Rightarrow> net_conn \<times> sock_op list" where
  "prepare_mux_conn c = (FastClose c, enable_tcp_keepalive c)"

section \<open>Closing a session\<close>

text \<open>\<open>fastCloseConn\<close>: its error once it is closed, and what is below it. \<open>err\<close> is the result of
  closing the connection below.\<close>

record fast_conn =
  fc_done :: "string option option"
  fc_conn :: net_conn

definition fast_close :: "string option \<Rightarrow> fast_conn \<Rightarrow> string option \<times> sock_op list \<times> fast_conn" where
  "fast_close err f =
     (case fc_done f of
        Some e \<Rightarrow> (e, [], f)
      | None \<Rightarrow> (err, ExpireDeadline (base_id (fc_conn f)) # close_ops (fc_conn f), f\<lparr>fc_done := Some err\<rparr>))"

definition close_wait :: int where
  "close_wait = 2000000000"

text \<open>\<open>Session.Close\<close>: closing the multiplexer takes \<open>took\<close> nanoseconds (None: for ever) and ends with
  \<open>err\<close>. The value is the result and the time after which it is there.\<close>

definition session_close :: "int option \<Rightarrow> string option \<Rightarrow> string option \<times> int" where
  "session_close took err =
     (case took of
        Some d \<Rightarrow> if d < close_wait then (err, d) else (None, close_wait)
      | None \<Rightarrow> (None, close_wait))"

section \<open>What is done to the socket\<close>

lemma base_peel: "base_id (peel c) = base_id c"
  by (induction c rule: peel.induct) auto

lemma close_ops_end: "close_ops c \<noteq> [] \<and> last (close_ops c) = CloseSock (base_id c) \<and>
   filter (\<lambda>x. \<exists>n. x = CloseSock n) (close_ops c) = [CloseSock (base_id c)]"
  by (induction c) auto

text \<open>
A connection is given up for good. However it is wrapped, \<open>CloseReset\<close> closes its socket exactly once and as the last thing it does. If below TLS, PROXY and fast-close wrappers there is a TCP socket, that socket is switched to reset and closed and nothing is written to the client, no TLS goodbye either; a connection with anything else below, such as replayed bytes, is closed the ordinary way.
\<close>

theorem reset_reaches_socket:
  "(peel c = TcpConn n \<longrightarrow> close_reset c = [Linger0 n, CloseSock n]) \<and>
   ((\<nexists>n. peel c = TcpConn n) \<longrightarrow> close_reset c = close_ops c) \<and>
   last (close_reset c) = CloseSock (base_id c) \<and>
   filter (\<lambda>x. \<exists>n. x = CloseSock n) (close_reset c) = [CloseSock (base_id c)]"
  using close_ops_end [of c] base_peel [of c] by (auto simp: close_reset_peel split: net_conn.split)

theorem reset_reaches_socket_witness:
  "close_reset (FastClose (TlsConn (ProxiedConn (SockAddr [10, 0, 0, 1] 7 []) (TcpConn 3)))) = [Linger0 3, CloseSock 3]"
  using reset_reaches_socket [of "FastClose (TlsConn (ProxiedConn (SockAddr [10, 0, 0, 1] 7 []) (TcpConn 3)))" 3] by simp

lemma prefix_not_reset:
  "b \<noteq> [] \<Longrightarrow> close_reset (TlsConn (wrap_prefix (TcpConn n) b)) = [TlsGoodbye n, CloseSock n]"
  by (simp add: close_reset_peel wrap_prefix_def)

text \<open>
The end of an Agent session. The connection below the multiplexer is set to keep-alive, on the socket under the TLS connection. Closing it expires the deadlines before the TLS goodbye; closing it again does nothing and gives the same result. Closing the session returns within two seconds, with the result of the multiplexer if that was faster.
\<close>

theorem session_torn_down:
  assumes "prepare_mux_conn (TlsConn (TcpConn n)) = (FastClose c, ops)" "f = \<lparr>fc_done = None, fc_conn = c\<rparr>" "fast_close e f = (r, done, f')"
  shows "ops = [KeepAlive n] \<and> r = e \<and> done = close_ops (FastClose c) \<and> done = [ExpireDeadline n, TlsGoodbye n, CloseSock n] \<and>
     fast_close e' f' = (e, [], f') \<and>
     snd (session_close took e) \<le> close_wait \<and> (\<forall>d. took = Some d \<and> d < close_wait \<longrightarrow> session_close took e = (e, d))"
  using assms by (auto simp: prepare_mux_conn_def enable_tcp_keepalive_def fast_close_def session_close_def
      eval_nat_numeral split: option.split)

theorem session_torn_down_witness:
  "session_close (Some 5) (Some ''eof'') = (Some ''eof'', 5) \<and> snd (session_close None (Some ''eof'')) \<le> close_wait"
  using session_torn_down [of 4 "TlsConn (TcpConn 4)" "[KeepAlive 4]" "\<lparr>fc_done = None, fc_conn = TlsConn (TcpConn 4)\<rparr>"
      "Some ''eof''" "Some ''eof''" "close_ops (FastClose (TlsConn (TcpConn 4)))"
      "\<lparr>fc_done = Some (Some ''eof''), fc_conn = TlsConn (TcpConn 4)\<rparr>" None "Some 5"]
  by (simp add: prepare_mux_conn_def enable_tcp_keepalive_def fast_close_def session_close_def close_wait_def eval_nat_numeral)

end
