(* ===== verification/HttpServe.thy ===== *)
theory HttpServe
  imports EdgeStart EdgeLoops
begin

text \<open>
  Serving an HTTP port, \<open>internal/edge/http.go\<close>: the accept loop with its tracked connections
  (\<open>serveHTTP\<close>, \<open>trackConn\<close>, \<open>evictDisallowed\<close>, \<open>closeAll\<close>), and one HTTP/1 connection
  (\<open>serveHTTP1\<close> with its \<open>singleConnListener\<close>), driven by the server of \<open>net/http\<close>.

  A state changes by events in any order: what a client does, what the loops get, and what Edge does
  to the listener. An event that cannot happen in a state leaves it as it is.
\<close>

section \<open>The accept loop\<close>

text \<open>A port: the listener, the connections whose socket is open, the handlers that run, the
  connections refused for their PROXY header, and how the loop stands. Connections are numbered.\<close>

record http_port =
  hp_hl :: http_listener
  hp_next :: nat
  hp_open :: "nat list"
  hp_running :: "(nat \<times> client) list"
  hp_refused :: "conn list"
  hp_loop :: loop_end

datatype port_event = PAccept "client accept" | PDone nat | PEvict "ip \<Rightarrow> bool" | PCloseAll

fun client_ip :: "client \<Rightarrow> ip" where
  "client_ip (Talks a c) = ip_from_conn a"
| "client_ip (Silent a) = ip_from_conn a"

definition port_conn :: "nat \<Rightarrow> client \<Rightarrow> pub_conn" where
  "port_conn n q = \<lparr>pc_id = n, pc_ip = client_ip q, pc_open = True\<rparr>"

definition serve_http :: "bool \<Rightarrow> client accept \<Rightarrow> http_port \<Rightarrow> http_port" where
  "serve_http proxy a p =
     (if hp_loop p \<noteq> Accepting then p
      else case a of
        Accepted q \<Rightarrow>
          (case proxied proxy q of
             None \<Rightarrow> p\<lparr>hp_loop := Stalled\<rparr>
           | Some (Inl c) \<Rightarrow> p\<lparr>hp_refused := c # hp_refused p\<rparr>
           | Some (Inr q') \<Rightarrow>
               p\<lparr>hp_hl := hl_track (port_conn (hp_next p) q') True (hp_hl p), hp_next := hp_next p + 1,
                 hp_open := hp_next p # hp_open p, hp_running := (hp_next p, q') # hp_running p\<rparr>)
      | _ \<Rightarrow> p\<lparr>hp_loop := Stopped\<rparr>)"

text \<open>The end of a handler: the deferred \<open>Close\<close> of \<open>handleHTTPConn\<close>, then \<open>trackConn(conn, false)\<close>.\<close>

definition conn_done :: "nat \<Rightarrow> http_port \<Rightarrow> http_port" where
  "conn_done n p =
     (case map_of (hp_running p) n of
        None \<Rightarrow> p
      | Some q \<Rightarrow> p\<lparr>hp_open := filter (\<lambda>k. k \<noteq> n) (hp_open p), hp_running := filter (\<lambda>(k, _). k \<noteq> n) (hp_running p),
                    hp_hl := hl_track (port_conn n q) False (hp_hl p)\<rparr>)"

definition evict_port :: "(ip \<Rightarrow> bool) \<Rightarrow> http_port \<Rightarrow> http_port" where
  "evict_port allowed p =
     (let gone = map pc_id (filter (\<lambda>c. \<not> allowed (pc_ip c)) (hl_conns (hp_hl p)))
      in p\<lparr>hp_hl := hl_evict allowed (hp_hl p), hp_open := filter (\<lambda>k. k \<notin> set gone) (hp_open p)\<rparr>)"

definition close_all_port :: "http_port \<Rightarrow> http_port" where
  "close_all_port p =
     (let gone = map pc_id (hl_conns (hp_hl p))
      in p\<lparr>hp_hl := hl_close_all (hp_hl p), hp_open := filter (\<lambda>k. k \<notin> set gone) (hp_open p)\<rparr>)"

fun port_step :: "bool \<Rightarrow> port_event \<Rightarrow> http_port \<Rightarrow> http_port" where
  "port_step proxy (PAccept a) p = serve_http proxy a p"
| "port_step proxy (PDone n) p = conn_done n p"
| "port_step proxy (PEvict allowed) p = evict_port allowed p"
| "port_step proxy PCloseAll p = close_all_port p"

definition new_port :: "http_listener \<Rightarrow> http_port" where
  "new_port hl = \<lparr>hp_hl = hl, hp_next = 0, hp_open = [], hp_running = [], hp_refused = [], hp_loop = Accepting\<rparr>"

text \<open>What holds at all times: numbers are fresh, only sockets with a handler are open, and every open
  one is tracked under the address of its client.\<close>

definition port_inv :: "http_port \<Rightarrow> bool" where
  "port_inv p \<longleftrightarrow>
     distinct (map fst (hp_running p)) \<and> (\<forall>(n, q) \<in> set (hp_running p). n < hp_next p) \<and>
     (\<forall>n \<in> set (hp_open p). \<exists>q. (n, q) \<in> set (hp_running p) \<and> port_conn n q \<in> set (hl_conns (hp_hl p))) \<and>
     (\<forall>c \<in> set (hl_conns (hp_hl p)). \<exists>q. (pc_id c, q) \<in> set (hp_running p) \<and> pc_ip c = client_ip q \<and>
        (pc_open c \<longleftrightarrow> pc_id c \<in> set (hp_open p)))"

lemma port_invI:
  assumes "distinct (map fst (hp_running p))" "\<And>n q. (n, q) \<in> set (hp_running p) \<Longrightarrow> n < hp_next p"
    "\<And>n. n \<in> set (hp_open p) \<Longrightarrow> \<exists>q. (n, q) \<in> set (hp_running p) \<and> port_conn n q \<in> set (hl_conns (hp_hl p))"
    "\<And>c. c \<in> set (hl_conns (hp_hl p)) \<Longrightarrow> \<exists>q. (pc_id c, q) \<in> set (hp_running p) \<and> pc_ip c = client_ip q \<and>
        (pc_open c \<longleftrightarrow> pc_id c \<in> set (hp_open p))"
  shows "port_inv p"
  using assms unfolding port_inv_def by blast

lemma port_invD:
  assumes "port_inv p"
  shows "distinct (map fst (hp_running p))" "(n, q) \<in> set (hp_running p) \<Longrightarrow> n < hp_next p"
    "n \<in> set (hp_open p) \<Longrightarrow> \<exists>q. (n, q) \<in> set (hp_running p) \<and> port_conn n q \<in> set (hl_conns (hp_hl p))"
    "c \<in> set (hl_conns (hp_hl p)) \<Longrightarrow> \<exists>q. (pc_id c, q) \<in> set (hp_running p) \<and> pc_ip c = client_ip q \<and>
        (pc_open c \<longleftrightarrow> pc_id c \<in> set (hp_open p))"
  using assms unfolding port_inv_def by blast+

lemma port_conn_simps [simp]: "pc_id (port_conn n q) = n" "pc_ip (port_conn n q) = client_ip q" "pc_open (port_conn n q)"
  by (simp_all add: port_conn_def)

lemma hl_track_conns [simp]:
  "hl_conns (hl_track c add hl) = (if add then [c] else []) @ filter (\<lambda>d. pc_id d \<noteq> pc_id c) (hl_conns hl)"
  by (simp add: hl_track_def Let_def)

lemma hl_evict_conns [simp]:
  "hl_conns (hl_evict allowed hl) = map (\<lambda>c. if allowed (pc_ip c) then c else c\<lparr>pc_open := False\<rparr>) (hl_conns hl)"
  by (simp add: hl_evict_def)

lemma hl_close_all_conns [simp]: "hl_conns (hl_close_all hl) = []"
  by (simp add: hl_close_all_def)

lemma serve_http_inv:
  assumes "port_inv p"
  shows "port_inv (serve_http proxy a p)"
proof -
  note d = port_invD [OF assms]
  have "port_inv (p\<lparr>hp_hl := hl_track (port_conn (hp_next p) q) True (hp_hl p), hp_next := hp_next p + 1,
      hp_open := hp_next p # hp_open p, hp_running := (hp_next p, q) # hp_running p\<rparr>)" (is "port_inv ?p") for q
  proof (rule port_invI)
    show "distinct (map fst (hp_running ?p))" using d(1) d(2) by fastforce
    show "n < hp_next ?p" if "(n, r) \<in> set (hp_running ?p)" for n r using that d(2) by fastforce
    show "\<exists>r. (n, r) \<in> set (hp_running ?p) \<and> port_conn n r \<in> set (hl_conns (hp_hl ?p))" if "n \<in> set (hp_open ?p)" for n
    proof (cases "n = hp_next p")
      case False
      then have "n \<in> set (hp_open p)" using that by simp
      then show ?thesis using d(3) False by fastforce
    qed auto
    show "\<exists>r. (pc_id c, r) \<in> set (hp_running ?p) \<and> pc_ip c = client_ip r \<and> (pc_open c \<longleftrightarrow> pc_id c \<in> set (hp_open ?p))"
      if "c \<in> set (hl_conns (hp_hl ?p))" for c
    proof (cases "c = port_conn (hp_next p) q")
      case False
      then have "c \<in> set (hl_conns (hp_hl p))" "pc_id c \<noteq> hp_next p" using that by auto
      then show ?thesis using d(4) by fastforce
    qed auto
  qed
  moreover have "port_inv (p\<lparr>hp_loop := l\<rparr>)" "port_inv (p\<lparr>hp_refused := r\<rparr>)" for l r
    using assms by (simp_all add: port_inv_def)
  ultimately show ?thesis using assms unfolding serve_http_def
    by (auto split: accept.split option.split sum.split)
qed

lemma conn_done_inv:
  assumes "port_inv p"
  shows "port_inv (conn_done n p)"
proof (cases "map_of (hp_running p) n")
  case (Some q)
  note d = port_invD [OF assms]
  have "port_inv (p\<lparr>hp_open := filter (\<lambda>k. k \<noteq> n) (hp_open p), hp_running := filter (\<lambda>(k, _). k \<noteq> n) (hp_running p),
      hp_hl := hl_track (port_conn n q) False (hp_hl p)\<rparr>)" (is "port_inv ?p")
  proof (rule port_invI)
    show "distinct (map fst (hp_running ?p))" using d(1) distinct_map_filter by force
    show "m < hp_next ?p" if "(m, r) \<in> set (hp_running ?p)" for m r using that d(2) by auto
    show "\<exists>r. (m, r) \<in> set (hp_running ?p) \<and> port_conn m r \<in> set (hl_conns (hp_hl ?p))" if "m \<in> set (hp_open ?p)" for m
      using that d(3) [of m] by auto
    show "\<exists>r. (pc_id c, r) \<in> set (hp_running ?p) \<and> pc_ip c = client_ip r \<and> (pc_open c \<longleftrightarrow> pc_id c \<in> set (hp_open ?p))"
      if "c \<in> set (hl_conns (hp_hl ?p))" for c
      using that d(4) [of c] by auto
  qed
  then show ?thesis by (simp add: conn_done_def Some)
qed (simp add: conn_done_def assms)

lemma tracked_unique:
  assumes "port_inv p" "c \<in> set (hl_conns (hp_hl p))" "(pc_id c, q) \<in> set (hp_running p)"
  shows "pc_ip c = client_ip q"
  using port_invD(1,4) [OF assms(1)] assms(2,3) eq_key_imp_eq_value by metis

lemma evict_port_simps [simp]:
  "hp_running (evict_port allowed p) = hp_running p" "hp_next (evict_port allowed p) = hp_next p"
  "hp_hl (evict_port allowed p) = hl_evict allowed (hp_hl p)"
  by (simp_all add: evict_port_def Let_def)

lemma evict_port_open:
  "n \<in> set (hp_open (evict_port allowed p)) \<longleftrightarrow>
   n \<in> set (hp_open p) \<and> (\<forall>c \<in> set (hl_conns (hp_hl p)). pc_id c = n \<longrightarrow> allowed (pc_ip c))"
  by (auto simp: evict_port_def Let_def)

lemma evict_tracked:
  assumes "port_inv p" "b \<in> set (hl_conns (hp_hl p))"
  shows "pc_id b \<in> set (hp_open (evict_port allowed p)) \<longleftrightarrow> pc_id b \<in> set (hp_open p) \<and> allowed (pc_ip b)"
proof -
  obtain q where "(pc_id b, q) \<in> set (hp_running p)" using port_invD(4) [OF assms] by blast
  then have "pc_ip c = pc_ip b" if "c \<in> set (hl_conns (hp_hl p))" "pc_id c = pc_id b" for c
    using tracked_unique [OF assms(1)] that assms(2) by simp
  then show ?thesis unfolding evict_port_open using assms(2) by metis
qed

lemma evict_port_inv:
  assumes "port_inv p"
  shows "port_inv (evict_port allowed p)"
proof (rule port_invI)
  note d = port_invD [OF assms]
  let ?p = "evict_port allowed p"
  show "distinct (map fst (hp_running ?p))" using d(1) by simp
  show "n < hp_next ?p" if "(n, q) \<in> set (hp_running ?p)" for n q using that d(2) by simp
  show "\<exists>q. (n, q) \<in> set (hp_running ?p) \<and> port_conn n q \<in> set (hl_conns (hp_hl ?p))" if n: "n \<in> set (hp_open ?p)" for n
  proof -
    obtain q where q: "(n, q) \<in> set (hp_running p)" "port_conn n q \<in> set (hl_conns (hp_hl p))"
      using n d(3) unfolding evict_port_open by blast
    then have "allowed (client_ip q)" using n unfolding evict_port_open by (metis port_conn_simps(1,2))
    then have "port_conn n q \<in> set (hl_conns (hp_hl ?p))" using imageI [OF q(2), of "\<lambda>c. if allowed (pc_ip c) then c else c\<lparr>pc_open := False\<rparr>"] by simp
    then show ?thesis using q(1) by simp blast
  qed
  show "\<exists>q. (pc_id c, q) \<in> set (hp_running ?p) \<and> pc_ip c = client_ip q \<and> (pc_open c \<longleftrightarrow> pc_id c \<in> set (hp_open ?p))"
    if c: "c \<in> set (hl_conns (hp_hl ?p))" for c
  proof -
    obtain b where b: "b \<in> set (hl_conns (hp_hl p))" "c = (if allowed (pc_ip b) then b else b\<lparr>pc_open := False\<rparr>)"
      using c by (auto split del: if_split)
    obtain q where q: "(pc_id b, q) \<in> set (hp_running p)" "pc_ip b = client_ip q" "pc_open b \<longleftrightarrow> pc_id b \<in> set (hp_open p)"
      using d(4) [OF b(1)] by blast
    have "pc_id c = pc_id b" "pc_ip c = pc_ip b" "pc_open c \<longleftrightarrow> pc_open b \<and> allowed (pc_ip b)" using b(2) by simp_all
    then show ?thesis using q evict_tracked [OF assms b(1), of allowed] by (intro exI [of _ q]) simp
  qed
qed

lemma close_all_port_inv: "port_inv p \<Longrightarrow> port_inv (close_all_port p)"
proof (rule port_invI)
  assume "port_inv p"
  note d = port_invD [OF this]
  let ?p = "close_all_port p"
  show "distinct (map fst (hp_running ?p))" using d(1) by (simp add: close_all_port_def Let_def)
  show "n < hp_next ?p" if "(n, q) \<in> set (hp_running ?p)" for n q using that d(2) by (simp add: close_all_port_def Let_def)
  show "\<exists>q. (n, q) \<in> set (hp_running ?p) \<and> port_conn n q \<in> set (hl_conns (hp_hl ?p))" if "n \<in> set (hp_open ?p)" for n
  proof -
    have "n \<in> set (hp_open p)" "n \<notin> pc_id ` set (hl_conns (hp_hl p))" using that by (auto simp: close_all_port_def Let_def)
    then show ?thesis using d(3) [of n] by (metis image_eqI port_conn_simps(1))
  qed
qed (simp add: close_all_port_def Let_def)

interpretation port: machine "port_step proxy" "\<lambda>e. True" port_inv
  by unfold_locales (metis port_event.exhaust port_step.simps serve_http_inv conn_done_inv evict_port_inv close_all_port_inv)

lemma new_port_inv: "hl_conns hl = [] \<Longrightarrow> port_inv (new_port hl)"
  by (simp add: port_inv_def new_port_def)

lemma evict_port_exact:
  assumes "port_inv p"
  shows "set (hp_open (evict_port allowed p)) = {n \<in> set (hp_open p). \<exists>q. map_of (hp_running p) n = Some q \<and> allowed (client_ip q)}"
proof -
  have "(\<forall>c \<in> set (hl_conns (hp_hl p)). pc_id c = n \<longrightarrow> allowed (pc_ip c)) \<longleftrightarrow> (\<exists>q. map_of (hp_running p) n = Some q \<and> allowed (client_ip q))"
    if n: "n \<in> set (hp_open p)" for n
  proof -
    obtain q where q: "(n, q) \<in> set (hp_running p)" "port_conn n q \<in> set (hl_conns (hp_hl p))" using port_invD(3) [OF assms n] by blast
    have m: "map_of (hp_running p) n = Some q" using q(1) port_invD(1) [OF assms] by simp
    show ?thesis using q m tracked_unique [OF assms, of _ q] by (metis option.inject port_conn_simps(1,2))
  qed
  then show ?thesis by (auto simp: evict_port_open)
qed

lemma close_all_port_open:
  assumes "port_inv p"
  shows "hp_open (close_all_port p) = []"
proof -
  have "\<forall>n \<in> set (hp_open p). n \<in> pc_id ` set (hl_conns (hp_hl p))"
    using port_invD(3) [OF assms] by (metis image_eqI port_conn_simps(1))
  then show ?thesis by (auto simp: close_all_port_def Let_def filter_empty_conv)
qed


definition example_caller :: "ip \<Rightarrow> client" where
  "example_caller i = Talks (SockAddr i 4000 []) (mk_conn [])"

definition plain_listener :: http_listener where
  "plain_listener = \<lparr>hl_public = '':80'', hl_tls = False, hl_tunnels = [], hl_by_name = [], hl_certs = [], hl_fallback = None, hl_conns = []\<rparr>"


text \<open>\<open>Shutdown\<close> calls \<open>closeAll\<close> before it closes the listener: a client accepted in between is
  not closed, and the drain waits for it.\<close>

lemma accepted_after_close_all:
  assumes "hp_loop p = Accepting"
  shows "hp_next p \<in> set (hp_open (run_events (port_step False) [PCloseAll, PAccept (Accepted q), PAccept AcceptClosed] p))"
  using assms by (simp add: serve_http_def proxied_off close_all_port_def Let_def)

section \<open>One HTTP/1 connection\<close>

text \<open>\<open>singleConnListener\<close>: \<open>sl_given\<close> is its \<open>once\<close>, \<open>sl_done\<close> whether the channel is closed;
  \<open>sl_open\<close> is the connection.\<close>

record single_listener =
  sl_given :: bool
  sl_done :: bool
  sl_open :: bool

datatype accept_result = GotConn | Blocks | ErrClosed

definition single_accept :: "single_listener \<Rightarrow> accept_result \<times> single_listener" where
  "single_accept l =
     (if \<not> sl_given l then (GotConn, l\<lparr>sl_given := True\<rparr>)
      else if sl_done l then (ErrClosed, l) else (Blocks, l))"

definition single_close :: "single_listener \<Rightarrow> single_listener" where
  "single_close l = l\<lparr>sl_done := True, sl_open := False\<rparr>"

datatype conn_state = StateNew | StateActive | StateIdle | StateHijacked | StateClosed

text \<open>The hook \<open>ConnState\<close> of \<open>serveHTTP1\<close>.\<close>

definition conn_state_hook :: "conn_state \<Rightarrow> single_listener \<Rightarrow> single_listener" where
  "conn_state_hook st l = (if st = StateClosed \<or> st = StateHijacked then l\<lparr>sl_done := True\<rparr> else l)"

text \<open>The server: its listener, the state of its connection, whether \<open>Serve\<close> is running, whether the
  listener tracks it, what the handler made of the requests so far, and the bytes that an upgraded
  request has brought to the client.\<close>

record h1_server =
  h1_ln :: single_listener
  h1_state :: "conn_state option"
  h1_serving :: bool
  h1_tracked :: bool
  h1_outs :: "http1_outcome list"
  h1_copied :: bytes

definition h1_open :: "h1_server \<Rightarrow> bool" where
  "h1_open h = sl_open (h1_ln h)"

definition set_conn_state :: "conn_state \<Rightarrow> h1_server \<Rightarrow> h1_server" where
  "set_conn_state st h = h\<lparr>h1_state := Some st, h1_ln := conn_state_hook st (h1_ln h)\<rparr>"

definition h1_close :: "h1_server \<Rightarrow> h1_server" where
  "h1_close h = set_conn_state StateClosed (h\<lparr>h1_ln := (h1_ln h)\<lparr>sl_open := False\<rparr>\<rparr>)"

text \<open>\<open>serveHTTP1\<close>: the server is tracked and serves. When \<open>Serve\<close> returns it has closed the
  listener; \<open>handleHTTPConn\<close> then closes the connection, again.\<close>

definition serve_http1 :: h1_server where
  "serve_http1 = \<lparr>h1_ln = \<lparr>sl_given = False, sl_done = False, sl_open = True\<rparr>, h1_state = None, h1_serving = True,
     h1_tracked = True, h1_outs = [], h1_copied = []\<rparr>"

definition serve_returns :: "h1_server \<Rightarrow> h1_server" where
  "serve_returns h = h\<lparr>h1_ln := single_close (h1_ln h), h1_serving := False, h1_tracked := False\<rparr>"

text \<open>\<open>HAccept\<close> is the accept loop of \<open>Serve\<close> taking a turn; \<open>HRequest\<close> a request read while Edge is in the
  given state, \<open>HFinish\<close> the end of its response, with keep-alive or not; \<open>HUpgrade\<close> the hijacking by the
  reverse proxy when the target answers 101, \<open>HCopy\<close> what it then copies, \<open>HHangup\<close> the end of that;
  \<open>HBroken\<close> a failed read or a timeout, \<open>HSrvClose\<close> the \<open>srv.Close()\<close> of \<open>closeAll\<close>.\<close>

datatype h1_event =
    HAccept | HRequest http_req server | HFinish bool | HUpgrade | HCopy bytes | HHangup | HBroken | HSrvClose

fun h1_step :: "config \<Rightarrow> http_listener \<Rightarrow> string option \<Rightarrow> h1_event \<Rightarrow> h1_server \<Rightarrow> h1_server" where
  "h1_step cfg hl tls HAccept h =
     (if \<not> h1_serving h then h
      else case single_accept (h1_ln h) of
        (GotConn, l) \<Rightarrow> set_conn_state StateNew (h\<lparr>h1_ln := l\<rparr>)
      | (Blocks, l) \<Rightarrow> h
      | (ErrClosed, l) \<Rightarrow> serve_returns h)"
| "h1_step cfg hl tls (HRequest r s) h =
     (if (h1_state h = Some StateNew \<or> h1_state h = Some StateIdle) \<and> h1_open h
      then set_conn_state StateActive (h\<lparr>h1_outs := h1_outs h @ [fst (http1_handler cfg hl tls r s)]\<rparr>)
      else h)"
| "h1_step cfg hl tls (HFinish keep) h =
     (if h1_state h \<noteq> Some StateActive then h
      else if keep \<and> h1_open h then set_conn_state StateIdle h else h1_close h)"
| "h1_step cfg hl tls HUpgrade h =
     (if h1_state h = Some StateActive \<and> (\<exists>t r m. last (h1_outs h) = H1Proxy t r m) then set_conn_state StateHijacked h else h)"
| "h1_step cfg hl tls (HCopy b) h =
     (if h1_state h = Some StateHijacked \<and> h1_open h then h\<lparr>h1_copied := h1_copied h @ b\<rparr> else h)"
| "h1_step cfg hl tls HHangup h =
     (if h1_state h = Some StateHijacked then h\<lparr>h1_ln := (h1_ln h)\<lparr>sl_open := False\<rparr>\<rparr> else h)"
| "h1_step cfg hl tls HBroken h =
     (if h1_state h = Some StateNew \<or> h1_state h = Some StateIdle then h1_close h else h)"
| "h1_step cfg hl tls HSrvClose h = (if h1_tracked h then h\<lparr>h1_ln := single_close (h1_ln h)\<rparr> else h)"

text \<open>What holds at all times. A connection that has ended has released the second \<open>Accept\<close>, and when
  \<open>Serve\<close> has returned nothing is left.\<close>

definition h1_inv :: "h1_server \<Rightarrow> bool" where
  "h1_inv h \<longleftrightarrow>
     h1_tracked h = h1_serving h \<and> sl_given (h1_ln h) = (h1_state h \<noteq> None) \<and> (h1_serving h \<or> \<not> h1_open h) \<and>
     (case h1_state h of
        None \<Rightarrow> h1_serving h \<and> sl_done (h1_ln h) = (\<not> h1_open h)
      | Some st \<Rightarrow>
          if st = StateClosed then sl_done (h1_ln h) \<and> \<not> h1_open h
          else if st = StateHijacked then sl_done (h1_ln h)
          else sl_done (h1_ln h) = (\<not> h1_open h))"

lemmas h1_defs = h1_open_def set_conn_state_def conn_state_hook_def h1_close_def serve_returns_def single_close_def single_accept_def

lemma h1_step_inv:
  assumes "h1_inv h"
  shows "h1_inv (h1_step cfg hl tls e h)"
proof -
  obtain g d p st sv tr os b where h: "h = \<lparr>h1_ln = \<lparr>sl_given = g, sl_done = d, sl_open = p\<rparr>, h1_state = st, h1_serving = sv,
      h1_tracked = tr, h1_outs = os, h1_copied = b\<rparr>"
    by (metis h1_server.cases single_listener.cases)
  show ?thesis
    using assms unfolding h
    by (cases e; cases p; cases sv) (auto simp: h1_inv_def h1_defs split: option.splits if_splits)
qed

interpretation h1: machine "h1_step cfg hl tls" "\<lambda>e. True" h1_inv
  by unfold_locales (rule h1_step_inv)

lemma serve_http1_inv: "h1_inv serve_http1"
  by (simp add: h1_inv_def serve_http1_def h1_open_def)

text \<open>Events that end nothing.\<close>

fun peaceful :: "h1_event \<Rightarrow> bool" where
  "peaceful (HFinish keep) = keep"
| "peaceful HUpgrade = False"
| "peaceful HBroken = False"
| "peaceful HSrvClose = False"
| "peaceful _ = True"

definition h1_alive :: "h1_server \<Rightarrow> bool" where
  "h1_alive h \<longleftrightarrow> h1_serving h \<and> h1_open h \<and> h1_state h \<noteq> Some StateClosed \<and> h1_state h \<noteq> Some StateHijacked"

lemma h1_alive_step:
  assumes "peaceful e" "h1_inv h" "h1_alive h"
  shows "h1_alive (h1_step cfg hl tls e h)"
  using assms by (cases e) (auto simp: h1_alive_def h1_inv_def h1_defs split: option.splits if_splits)

lemma h1_requests:
  assumes "h1_alive h" "h1_state h = Some StateNew \<or> h1_state h = Some StateIdle" "rs \<noteq> []"
  shows "\<exists>h'. run_events (h1_step cfg hl tls) (concat (map (\<lambda>(r, s). [HRequest r s, HFinish True]) rs)) h = h' \<and>
     h1_outs h' = h1_outs h @ map (\<lambda>(r, s). fst (http1_handler cfg hl tls r s)) rs \<and> h1_alive h' \<and> h1_state h' = Some StateIdle"
  using assms
proof (induction rs arbitrary: h)
  case (Cons x rs)
  obtain r s where x: "x = (r, s)" by fastforce
  let ?h = "h1_step cfg hl tls (HFinish True) (h1_step cfg hl tls (HRequest r s) h)"
  have h: "h1_outs ?h = h1_outs h @ [fst (http1_handler cfg hl tls r s)]" "h1_alive ?h" "h1_state ?h = Some StateIdle"
    using Cons.prems by (auto simp: h1_alive_def h1_defs)
  show ?case
  proof (cases "rs = []")
    case False
    then show ?thesis using Cons.IH [of ?h] h x by auto
  qed (use h x in simp)
qed simp

text \<open>
C34: one HTTP/1 connection. As long as neither side ends it and no request is upgraded, the connection stays open and \<open>Serve\<close> does not return, whatever else happens in whatever order; any number of requests on it are answered one after the other, each by the handler on its own Host. Once the connection has ended, the next turn of the accept loop makes \<open>Serve\<close> return, and when it has returned the connection is closed and the server no longer tracked.
\<close>

theorem http1_connection_served:
  assumes "list_all peaceful es" "rs \<noteq> []"
  shows "h1_serving (run_events (h1_step cfg hl tls) es serve_http1) \<and> h1_open (run_events (h1_step cfg hl tls) es serve_http1) \<and>
     (let h = run_events (h1_step cfg hl tls) (HAccept # concat (map (\<lambda>(r, s). [HRequest r s, HFinish True]) rs)) serve_http1 in
        h1_outs h = map (\<lambda>(r, s). fst (http1_handler cfg hl tls r s)) rs \<and> h1_open h) \<and>
     (let h = run_events (h1_step cfg hl tls) fs serve_http1 in
        (h1_state h = Some StateClosed \<longrightarrow> \<not> h1_serving (h1_step cfg hl tls HAccept h)) \<and>
        (\<not> h1_serving h \<longrightarrow> \<not> h1_open h \<and> \<not> h1_tracked h))"
proof -
  have a0: "h1_alive serve_http1" by (simp add: h1_alive_def serve_http1_def h1_open_def)
  have a: "h1_alive (run_events (h1_step cfg hl tls) es serve_http1)"
    by (rule h1.run_stable [where Q = peaceful])
      (use assms(1) serve_http1_inv a0 h1_alive_step in \<open>auto simp: list_all_iff\<close>)
  have i: "h1_inv (run_events (h1_step cfg hl tls) fs serve_http1)"
    using h1.run_inv [OF _ serve_http1_inv] by (simp add: list_all_iff)
  have n: "h1_alive (h1_step cfg hl tls HAccept serve_http1)" "h1_state (h1_step cfg hl tls HAccept serve_http1) = Some StateNew"
    "h1_outs (h1_step cfg hl tls HAccept serve_http1) = []"
    by (simp_all add: h1_alive_def serve_http1_def h1_defs)
  show ?thesis
    using a i h1_requests [OF n(1) _ assms(2), of cfg hl tls] n
    by (auto simp: h1_alive_def h1_inv_def h1_defs Let_def split: option.splits if_splits)
qed

definition chat_tunnel :: tunnel where
  "chat_tunnel = \<lparr>t_name = ''chat'', t_type = TypeHTTP, t_public = '':80'', t_tls = False, t_passthrough = False, t_http2 = False,
     t_local = ''127.0.0.1:9000'', t_host = [], t_cert = [], t_key = []\<rparr>"

definition chat_listener :: http_listener where
  "chat_listener = plain_listener\<lparr>hl_tunnels := [([], chat_tunnel)], hl_by_name := [(''chat'', chat_tunnel)]\<rparr>"

definition chat_request :: http_req where
  "chat_request = \<lparr>rq_host = [], rq_path = ''/chat'', rq_remote = ''10.0.0.1:4000'', rq_scheme = [], rq_url_host = [], rq_headers = []\<rparr>"

definition chat_server :: server where
  "chat_server = example_server\<lparr>sess := Some 1\<rparr>"

lemma chat_proxied:
  "\<exists>r m. fst (http1_handler (example_config\<lparr>health_path := ''/healthz''\<rparr>) chat_listener None chat_request chat_server) = H1Proxy chat_tunnel r m"
  by (simp add: http1_handler_def health_path_or_default_def trim_space_solid solid_def ascii_space_def chat_request_def
      lookup_http_tunnel_def chat_listener_def plain_listener_def chat_tunnel_def chat_server_def example_server_def get_session_def Let_def)

theorem http1_connection_served_witness:
  "h1_open (run_events (h1_step (example_config\<lparr>health_path := ''/healthz''\<rparr>) chat_listener None)
     [HAccept, HAccept, HRequest chat_request chat_server, HFinish True, HAccept] serve_http1)"
  using http1_connection_served [of "[HAccept, HAccept, HRequest chat_request chat_server, HFinish True, HAccept]"
      "[(chat_request, chat_server)]" "example_config\<lparr>health_path := ''/healthz''\<rparr>" chat_listener None "[]"]
  by simp

lemma cut_off:
  assumes "h1_state h = Some StateHijacked \<and> sl_given (h1_ln h) \<and> \<not> h1_open h"
  shows "(h1_state (h1_step cfg hl tls e h) = Some StateHijacked \<and> sl_given (h1_ln (h1_step cfg hl tls e h)) \<and>
     \<not> h1_open (h1_step cfg hl tls e h)) \<and> h1_copied (h1_step cfg hl tls e h) = h1_copied h"
  using assms by (cases e) (auto simp: h1_defs)

lemma cut_off_run:
  assumes "h1_state h = Some StateHijacked \<and> sl_given (h1_ln h) \<and> \<not> h1_open h"
  shows "h1_copied (run_events (h1_step cfg hl tls) es h) = h1_copied h"
  using assms
proof (induction es arbitrary: h)
  case (Cons e es)
  note c = cut_off [OF Cons.prems, of cfg hl tls e]
  then show ?case using Cons.IH [of "h1_step cfg hl tls e h"] by simp
qed simp

text \<open>
An upgraded connection does not live. When the reverse proxy takes over the connection of a request that the target upgrades, as for a WebSocket, the hook of \<open>serveHTTP1\<close> releases the second \<open>Accept\<close>; it is no longer blocked, and its next turn makes \<open>Serve\<close> return, which closes the connection under the proxy. From then on nothing is brought to the client, whatever the target sends.
\<close>

theorem upgrade_cut_off:
  assumes "h = run_events (h1_step cfg hl tls) es serve_http1" "h1_state h = Some StateHijacked"
  shows "fst (single_accept (h1_ln h)) = ErrClosed \<and> \<not> h1_open (h1_step cfg hl tls HAccept h) \<and>
     h1_copied (run_events (h1_step cfg hl tls) (HAccept # fs) h) = h1_copied h"
proof -
  have i: "h1_inv h" using h1.run_inv [OF _ serve_http1_inv] by (simp add: assms(1) list_all_iff)
  have a: "fst (single_accept (h1_ln h)) = ErrClosed" using i assms(2) by (simp add: h1_inv_def single_accept_def)
  have s: "h1_state (h1_step cfg hl tls HAccept h) = Some StateHijacked \<and> sl_given (h1_ln (h1_step cfg hl tls HAccept h)) \<and>
      \<not> h1_open (h1_step cfg hl tls HAccept h)" "h1_copied (h1_step cfg hl tls HAccept h) = h1_copied h"
    using i assms(2) by (auto simp: h1_inv_def h1_defs split: if_splits)
  show ?thesis using a s cut_off_run [OF s(1), of cfg hl tls fs] by simp
qed

theorem upgrade_cut_off_witness:
  "h1_copied (run_events (h1_step (example_config\<lparr>health_path := ''/healthz''\<rparr>) chat_listener None)
     [HAccept, HRequest chat_request chat_server, HUpgrade, HAccept, HCopy [1, 2, 3]] serve_http1) = []"
proof -
  let ?c = "example_config\<lparr>health_path := ''/healthz''\<rparr>"
  define h where "h = run_events (h1_step ?c chat_listener None) [HAccept, HRequest chat_request chat_server, HUpgrade] serve_http1"
  obtain r m where p: "fst (http1_handler ?c chat_listener None chat_request chat_server) = H1Proxy chat_tunnel r m"
    using chat_proxied by blast
  have u: "h1_state h = Some StateHijacked" "h1_copied h = []" by (simp_all add: h_def serve_http1_def h1_defs p)
  have e: "run_events (h1_step ?c chat_listener None) [HAccept, HRequest chat_request chat_server, HUpgrade, HAccept, HCopy [1, 2, 3]] serve_http1 =
      run_events (h1_step ?c chat_listener None) (HAccept # [HCopy [1, 2, 3]]) h"
    by (simp only: h_def run_events.simps)
  have "h1_copied (run_events (h1_step ?c chat_listener None) (HAccept # [HCopy [1, 2, 3]]) h) = h1_copied h"
    using upgrade_cut_off [OF h_def u(1), of "[HCopy [1, 2, 3]]"] by blast
  then show ?thesis by (simp only: e u(2))
qed

end
