(* ===== verification/EdgeWhole.thy ===== *)
theory EdgeWhole
  imports EdgeStart EdgeLoops
begin

text \<open>
  Eviction over the whole of Edge, \<open>evictDisallowed\<close> with its three passes
  (\<open>internal/edge/server.go\<close>), and how it interleaves with clients that arrive: a connection is
  tracked before its address is checked, lists change at any moment, and the change hooks run
  some time later.
\<close>

section \<open>The three passes\<close>

record edge_state =
  ed_srv :: server
  ed_store :: acl_store
  ed_http :: "http_listener list"
  ed_hubs :: hubs
  ed_now :: int
  ed_checked :: "nat list"
  ed_pending :: nat

definition ed_allowed :: "edge_state \<Rightarrow> ip \<Rightarrow> bool" where
  "ed_allowed e i = is_allowed i (ed_now e) (ed_srv e)"

definition evict_tcp_conns :: "edge_state \<Rightarrow> edge_state" where
  "evict_tcp_conns e = e\<lparr>ed_srv := evict_disallowed (ed_now e) (ed_srv e)\<rparr>"

definition evict_http_conns :: "edge_state \<Rightarrow> edge_state" where
  "evict_http_conns e = e\<lparr>ed_http := map (hl_evict (ed_allowed e)) (ed_http e)\<rparr>"

definition evict_udp_assocs :: "edge_state \<Rightarrow> edge_state" where
  "evict_udp_assocs e = e\<lparr>ed_hubs := map (\<lambda>(n, h). (n, evict_assocs (ed_allowed e) h)) (ed_hubs e)\<rparr>"

definition evict_all :: "edge_state \<Rightarrow> edge_state" where
  "evict_all e = evict_udp_assocs (evict_http_conns (evict_tcp_conns e))"

text \<open>All tracked connections, and all associations.\<close>

definition ed_conns :: "edge_state \<Rightarrow> pub_conn list" where
  "ed_conns e = tcp_conns (ed_srv e) @ concat (map hl_conns (ed_http e))"

lemma allowed_evict_tcp [simp]: "ed_allowed (evict_tcp_conns e) = ed_allowed e"
  by (rule ext) (simp add: ed_allowed_def evict_tcp_conns_def is_allowed_def)

lemma allowed_evict_http [simp]: "ed_allowed (evict_http_conns e) = ed_allowed e"
  by (rule ext) (simp add: ed_allowed_def evict_http_conns_def)

lemma allowed_evict_udp [simp]: "ed_allowed (evict_udp_assocs e) = ed_allowed e"
  by (rule ext) (simp add: ed_allowed_def evict_udp_assocs_def)

lemma allowed_evict_all [simp]: "ed_allowed (evict_all e) = ed_allowed e"
  by (simp add: evict_all_def)

definition shut_unless :: "(ip \<Rightarrow> bool) \<Rightarrow> pub_conn \<Rightarrow> pub_conn" where
  "shut_unless allowed c = (if allowed (pc_ip c) then c else c\<lparr>pc_open := False\<rparr>)"

lemma shut_unless_simps [simp]:
  "pc_id (shut_unless f c) = pc_id c" "pc_ip (shut_unless f c) = pc_ip c" "pc_open (shut_unless f c) \<longleftrightarrow> pc_open c \<and> f (pc_ip c)"
  by (simp_all add: shut_unless_def)

lemma evict_tcp_map: "tcp_conns (evict_disallowed (ed_now e) (ed_srv e)) = map (shut_unless (ed_allowed e)) (tcp_conns (ed_srv e))"
  by (simp add: evict_disallowed_def shut_unless_def ed_allowed_def cong: if_cong)

lemma hl_evict_map: "hl_conns (hl_evict f hl) = map (shut_unless f) (hl_conns hl)"
  by (simp add: hl_evict_def shut_unless_def)

lemma evict_all_conns: "ed_conns (evict_all e) = map (shut_unless (ed_allowed e)) (ed_conns e)"
proof -
  have "tcp_conns (ed_srv (evict_all e)) = map (shut_unless (ed_allowed e)) (tcp_conns (ed_srv e))"
    by (simp add: evict_all_def evict_udp_assocs_def evict_http_conns_def evict_tcp_conns_def evict_tcp_map)
  moreover have "ed_http (evict_all e) = map (hl_evict (ed_allowed e)) (ed_http e)"
    using allowed_evict_tcp [of e] by (simp add: evict_all_def evict_udp_assocs_def evict_http_conns_def) (simp add: evict_tcp_conns_def)
  ultimately show ?thesis by (simp add: ed_conns_def map_concat comp_def hl_evict_map)
qed

lemma evict_all_hubs: "ed_hubs (evict_all e) = map (\<lambda>(n, h). (n, evict_assocs (ed_allowed e) h)) (ed_hubs e)"
proof -
  have "ed_hubs (evict_http_conns (evict_tcp_conns e)) = ed_hubs e" by (simp add: evict_http_conns_def evict_tcp_conns_def)
  then show ?thesis by (simp add: evict_all_def evict_udp_assocs_def)
qed

lemma evict_view:
  "hub_inv h \<Longrightarrow> view (evict_assocs f h) i =
     (case view h i of None \<Rightarrow> None | Some a \<Rightarrow> if f (u_ip (ua_client a)) then Some a else None)"
  by (simp add: evict_ids drop_where_view split: option.split)

text \<open>
One eviction pass reaches everything. After \<open>evictDisallowed\<close> a tracked TCP or HTTP connection is open exactly if it was open and its address is allowed, and a UDP association of any hub is still in its table exactly if the address of its client is allowed, as it was; nothing is added, and no connection, hub or tunnel is forgotten.
\<close>

theorem evict_everywhere:
  assumes "\<forall>n h. map_of (ed_hubs e) n = Some h \<longrightarrow> hub_inv h"
  shows "map (\<lambda>c. (pc_id c, pc_ip c, pc_open c)) (ed_conns (evict_all e)) =
       map (\<lambda>c. (pc_id c, pc_ip c, pc_open c \<and> ed_allowed e (pc_ip c))) (ed_conns e) \<and>
     (\<forall>n. (map_of (ed_hubs (evict_all e)) n = None) = (map_of (ed_hubs e) n = None)) \<and>
     (\<forall>n h g i. map_of (ed_hubs e) n = Some h \<and> map_of (ed_hubs (evict_all e)) n = Some g \<longrightarrow>
        hub_inv g \<and> view g i = (case view h i of None \<Rightarrow> None
          | Some a \<Rightarrow> if ed_allowed e (u_ip (ua_client a)) then Some a else None))"
proof -
  have m: "map_of (ed_hubs (evict_all e)) n = map_option (evict_assocs (ed_allowed e)) (map_of (ed_hubs e) n)" for n
    by (simp add: evict_all_hubs map_of_map)
  have "hub_inv (evict_assocs f h)" if "hub_inv h" for f h using remove_all_inv that by (simp add: evict_ids)
  then show ?thesis using assms by (auto simp: evict_all_conns m evict_view)
qed

section \<open>Changes that call no hook admit nobody less\<close>

lemma blocked_later: "blocked i later b \<Longrightarrow> now \<le> later \<Longrightarrow> blocked i now b"
  by (auto simp: blocked_def blocked_locked_def rec_active_def Let_def split: option.splits if_splits)

lemma is_allowed_later: "is_allowed i now s \<Longrightarrow> now \<le> later \<Longrightarrow> is_allowed i later s"
  using blocked_later by (auto simp: is_allowed_iff)

lemma ban_step_hooked:
  assumes "blocked i later (ban_step e b)" "\<not> blocked i later b" "hooks b \<noteq> []"
  shows "calls (ban_step e b) \<noteq> calls b"
proof -
  let ?k = "ip_key i"
  have k: "?k \<noteq> []" using assms(1) by (simp add: blocked_def Let_def split: if_splits)
  have v: "rec_blocked later (snd (addr_step (limit b) (ttl b) ?k e (Ban.view ?k b)))" "\<not> rec_blocked later (snd (Ban.view ?k b))"
    using assms(1,2) k by (simp_all add: blocked_view view_step)
  obtain p r where pr: "Ban.view ?k b = (p, r)" by fastforce
  show ?thesis
  proof (cases e)
    case (BanInvalid f j rs now)
    have j: "ip_key j = ?k" "\<not> p" "\<not> rec_blocked now r" using v pr by (auto simp: BanInvalid split: if_splits)
    have "\<not> is_pardoned j b" "\<not> blocked j now b" using j pr k by (simp_all add: pardoned_view blocked_view)
    moreover have "blocked j later (observe_invalid f j rs now b)" using assms(1) j(1) by (simp add: BanInvalid blocked_def)
    ultimately show ?thesis using ban_hooks_and_faults [of j b now f rs later undefined] assms(3) by (simp add: BanInvalid)
  next
    case (BanProbe f j rs)
    have j: "ip_key j = ?k" "\<not> p" "\<not> (case r of Some x \<Rightarrow> permanent x | None \<Rightarrow> False)"
      using v pr by (auto simp: BanProbe split: if_splits)
    have "\<not> is_pardoned j b" using j pr k by (simp add: pardoned_view)
    moreover have "ban_kind_of j 0 b \<noteq> KindPermanent"
      using j pr k by (auto simp: ban_kind_of_def rec_kind_def Ban.view_def Let_def split: option.splits)
    ultimately show ?thesis using ban_hooks_and_faults [of j b 0 f rs later undefined] assms(3) j(1) k by (simp add: BanProbe)
  qed (use v pr in \<open>auto simp: rec_blocked_def rec_active_def split: if_splits option.splits\<close>)
qed

lemma ban_step_allows:
  assumes "calls (ban_step x (srv_bans s)) = calls (srv_bans s)" "hooks (srv_bans s) \<noteq> []" "is_allowed i now s"
    "srv_bans s' = ban_step x (srv_bans s)" "srv_acl s' = srv_acl s"
  shows "is_allowed i now s'"
  using ban_step_hooked [of i now x "srv_bans s"] assms by (auto simp: is_allowed_iff)

lemma commit_list_hooked:
  assumes "commit_list None cs st = (r, st')" "acl_hooks st \<noteq> []"
  shows "acl_live st' = acl_live st \<or> acl_calls st' \<noteq> acl_calls st"
  using assms by (auto simp: commit_list_def acl_persist_def save_file_def atomic_save_cases acl_notify_def Let_def
      split: sum.splits prod.splits if_splits)

fun no_fault :: "acl_event \<Rightarrow> bool" where
  "no_fault (AclReplace f cs) = (f = None)"
| "no_fault (AclAdd f cs) = (f = None)"
| "no_fault (AclRemove f cs) = (f = None)"

lemma acl_step_hooked:
  assumes "no_fault x" "acl_hooks st \<noteq> []" "acl_calls (acl_step x st) = acl_calls st"
  shows "acl_live (acl_step x st) = acl_live st"
proof (cases x)
  case (AclReplace f cs)
  then show ?thesis using assms commit_list_hooked [of cs st] by (auto simp: acl_step_def acl_replace_def prod_eq_iff)
next
  case (AclAdd f cs)
  then show ?thesis using assms commit_list_hooked [of "entries (acl_live st) @ _" st]
    by (auto simp: acl_step_def acl_add_def Let_def prod_eq_iff split: sum.splits if_splits)
next
  case (AclRemove f cs)
  then show ?thesis using assms commit_list_hooked [of _ st]
    by (auto simp: acl_step_def acl_remove_def prod_eq_iff split: sum.splits if_splits prod.splits)
qed

section \<open>Clients arrive while lists change\<close>

text \<open>\<open>ed_checked\<close> are the connections that \<open>publicAllowed\<close> has let through, \<open>ed_pending\<close> counts the
  changes whose hooks have not run yet. A client is tracked when it is accepted, and checked later by
  its handler, which resets it if it is refused.\<close>

datatype edge_event =
    TcpArrives nat ip | HttpArrives nat nat ip | Checked nat "fs_op option" | Leaves nat
  | ListEdit acl_event | BanEdit ban_event | HookRuns | TimePasses nat

definition on_conns :: "(pub_conn list \<Rightarrow> pub_conn list) \<Rightarrow> edge_state \<Rightarrow> edge_state" where
  "on_conns f e =
     e\<lparr>ed_srv := (ed_srv e)\<lparr>tcp_conns := f (tcp_conns (ed_srv e))\<rparr>,
       ed_http := map (\<lambda>hl. hl\<lparr>hl_conns := f (hl_conns hl)\<rparr>) (ed_http e)\<rparr>"

definition reset_conn :: "nat \<Rightarrow> edge_state \<Rightarrow> edge_state" where
  "reset_conn n = on_conns (map (\<lambda>c. if pc_id c = n then c\<lparr>pc_open := False\<rparr> else c))"

definition forget_conn :: "nat \<Rightarrow> edge_state \<Rightarrow> edge_state" where
  "forget_conn n = on_conns (filter (\<lambda>c. pc_id c \<noteq> n))"

definition owe_hook :: "string list \<Rightarrow> string list \<Rightarrow> edge_state \<Rightarrow> edge_state" where
  "owe_hook old new e = (if new = old then e else e\<lparr>ed_pending := ed_pending e + 1\<rparr>)"

definition check_conn :: "nat \<Rightarrow> fs_op option \<Rightarrow> edge_state \<Rightarrow> edge_state" where
  "check_conn n flt e =
     (case find (\<lambda>c. pc_id c = n) (ed_conns e) of
        None \<Rightarrow> e
      | Some c \<Rightarrow>
          (case public_allowed flt (pc_ip c) (ed_now e) (ed_srv e) of
             (ok, s) \<Rightarrow>
               let e1 = owe_hook (calls (srv_bans (ed_srv e))) (calls (srv_bans s)) (e\<lparr>ed_srv := s\<rparr>)
               in if ok then e1\<lparr>ed_checked := n # ed_checked e1\<rparr> else reset_conn n e1))"

definition new_conn :: "nat \<Rightarrow> ip \<Rightarrow> pub_conn" where
  "new_conn n i = \<lparr>pc_id = n, pc_ip = i, pc_open = True\<rparr>"

definition fresh_id :: "nat \<Rightarrow> edge_state \<Rightarrow> bool" where
  "fresh_id n e \<longleftrightarrow> n \<notin> set (ed_checked e) \<and> list_all (\<lambda>c. pc_id c \<noteq> n) (ed_conns e)"

fun edge_step :: "edge_event \<Rightarrow> edge_state \<Rightarrow> edge_state" where
  "edge_step (TcpArrives n i) e =
     (if fresh_id n e then e\<lparr>ed_srv := track_tcp (new_conn n i) (ed_srv e)\<rparr> else e)"
| "edge_step (HttpArrives k n i) e =
     (if fresh_id n e \<and> k < length (ed_http e)
      then e\<lparr>ed_http := (ed_http e)[k := hl_track (new_conn n i) True (ed_http e ! k)]\<rparr> else e)"
| "edge_step (Checked n flt) e = check_conn n flt e"
| "edge_step (Leaves n) e = forget_conn n e"
| "edge_step (ListEdit x) e =
     (let st = acl_step x (ed_store e) in
      owe_hook (acl_calls (ed_store e)) (acl_calls st)
        (e\<lparr>ed_store := st, ed_srv := (ed_srv e)\<lparr>srv_acl := acl_live st\<rparr>\<rparr>))"
| "edge_step (BanEdit x) e =
     (let b = ban_step x (srv_bans (ed_srv e)) in
      owe_hook (calls (srv_bans (ed_srv e))) (calls b) (e\<lparr>ed_srv := (ed_srv e)\<lparr>srv_bans := b\<rparr>\<rparr>))"
| "edge_step HookRuns e =
     (if ed_pending e = 0 then e else (evict_all e)\<lparr>ed_pending := ed_pending e - 1\<rparr>)"
| "edge_step (TimePasses d) e = e\<lparr>ed_now := ed_now e + int d\<rparr>"

fun edit_saved :: "edge_event \<Rightarrow> bool" where
  "edit_saved (ListEdit x) = no_fault x"
| "edit_saved _ = True"

text \<open>The invariant: addresses go with numbers, and once no hook is owed every open connection that
  was let through is allowed.\<close>

definition settled :: "edge_state \<Rightarrow> bool" where
  "settled e \<longleftrightarrow> (\<forall>c \<in> set (ed_conns e). pc_open c \<and> pc_id c \<in> set (ed_checked e) \<longrightarrow> ed_allowed e (pc_ip c))"

definition edge_inv :: "edge_state \<Rightarrow> bool" where
  "edge_inv e \<longleftrightarrow>
     hooks (srv_bans (ed_srv e)) \<noteq> [] \<and> acl_hooks (ed_store e) \<noteq> [] \<and> srv_acl (ed_srv e) = acl_live (ed_store e) \<and>
     (\<forall>c \<in> set (ed_conns e). \<forall>d \<in> set (ed_conns e). pc_id c = pc_id d \<longrightarrow> pc_ip c = pc_ip d) \<and>
     (ed_pending e = 0 \<longrightarrow> settled e)"

definition shrinks :: "edge_state \<Rightarrow> edge_state \<Rightarrow> bool" where
  "shrinks e e' \<longleftrightarrow> (\<forall>c \<in> set (ed_conns e'). \<exists>b \<in> set (ed_conns e). pc_id b = pc_id c \<and> pc_ip b = pc_ip c \<and> (pc_open c \<longrightarrow> pc_open b))"

definition same_ips :: "edge_state \<Rightarrow> bool" where
  "same_ips e \<longleftrightarrow> (\<forall>c \<in> set (ed_conns e). \<forall>d \<in> set (ed_conns e). pc_id c = pc_id d \<longrightarrow> pc_ip c = pc_ip d)"

lemma shrinks_ips: "shrinks e e' \<Longrightarrow> same_ips e \<Longrightarrow> same_ips e'"
  unfolding shrinks_def same_ips_def by metis

lemma shrinks_settled:
  "shrinks e e' \<Longrightarrow> settled e \<Longrightarrow> set (ed_checked e') \<subseteq> set (ed_checked e) \<Longrightarrow> (\<And>i. ed_allowed e i \<Longrightarrow> ed_allowed e' i) \<Longrightarrow> settled e'"
  unfolding shrinks_def settled_def by (metis subsetD)

lemma shrinks_subset: "set (ed_conns e') \<subseteq> set (ed_conns e) \<Longrightarrow> shrinks e e'"
  unfolding shrinks_def by blast

lemma shrinks_map: "ed_conns e' = map f (ed_conns e) \<Longrightarrow> (\<And>c. pc_id (f c) = pc_id c \<and> pc_ip (f c) = pc_ip c \<and> (pc_open (f c) \<longrightarrow> pc_open c)) \<Longrightarrow> shrinks e e'"
  unfolding shrinks_def by auto

lemma on_conns_map: "ed_conns (on_conns (map f) e) = map f (ed_conns e)"
  by (simp add: ed_conns_def on_conns_def map_concat comp_def)

lemma on_conns_filter: "ed_conns (on_conns (filter P) e) = filter P (ed_conns e)"
  by (simp add: ed_conns_def on_conns_def filter_concat comp_def)

lemma on_conns_frame [simp]:
  "ed_store (on_conns f e) = ed_store e" "ed_now (on_conns f e) = ed_now e" "ed_checked (on_conns f e) = ed_checked e"
  "ed_pending (on_conns f e) = ed_pending e" "srv_bans (ed_srv (on_conns f e)) = srv_bans (ed_srv e)"
  "srv_acl (ed_srv (on_conns f e)) = srv_acl (ed_srv e)" "ed_allowed (on_conns f e) = ed_allowed e"
  by (simp_all add: on_conns_def ed_allowed_def [abs_def] is_allowed_def)

lemma owe_hook_frame [simp]:
  "ed_srv (owe_hook a b e) = ed_srv e" "ed_store (owe_hook a b e) = ed_store e" "ed_now (owe_hook a b e) = ed_now e"
  "ed_http (owe_hook a b e) = ed_http e" "ed_checked (owe_hook a b e) = ed_checked e" "ed_conns (owe_hook a b e) = ed_conns e" "ed_allowed (owe_hook a b e) = ed_allowed e"
  "ed_pending (owe_hook a b e) = 0 \<longleftrightarrow> b = a \<and> ed_pending e = 0"
  by (simp_all add: owe_hook_def ed_conns_def ed_allowed_def [abs_def])

lemma edge_inv_iff:
  "edge_inv e \<longleftrightarrow> hooks (srv_bans (ed_srv e)) \<noteq> [] \<and> acl_hooks (ed_store e) \<noteq> [] \<and> srv_acl (ed_srv e) = acl_live (ed_store e) \<and>
     same_ips e \<and> (ed_pending e = 0 \<longrightarrow> settled e)"
  by (simp add: edge_inv_def same_ips_def)

text \<open>What the check of one connection does.\<close>

lemma public_allowed_conns:
  "\<exists>f. tcp_conns (snd (public_allowed flt i now s)) = map f (tcp_conns s) \<and>
     (\<forall>c. pc_id (f c) = pc_id c \<and> pc_ip (f c) = pc_ip c \<and> (pc_open (f c) \<longrightarrow> pc_open c))"
proof -
  have "\<exists>f. tcp_conns (with_bans now g s') = map f (tcp_conns s') \<and>
      (\<forall>c. pc_id (f c) = pc_id c \<and> pc_ip (f c) = pc_ip c \<and> (pc_open (f c) \<longrightarrow> pc_open c))" for g s'
  proof (cases "calls (g (srv_bans s')) = calls (srv_bans s')")
    case True
    then show ?thesis by (intro exI [of _ "\<lambda>c. c"]) (simp add: with_bans_def Let_def)
  next
    case False
    then show ?thesis
      by (intro exI [of _ "\<lambda>c. if is_allowed (pc_ip c) now (s'\<lparr>srv_bans := g (srv_bans s')\<rparr>) then c else c\<lparr>pc_open := False\<rparr>"])
        (simp add: with_bans_def evict_disallowed_def Let_def)
  qed
  from this [of _ "count_deny now s"] this [of _ s] show ?thesis
    by (auto simp: public_allowed_def Let_def intro: exI [of _ "\<lambda>c. c"])
qed

lemma public_bans_step: "public_bans flt i now s = srv_bans s \<or> (\<exists>x. public_bans flt i now s = ban_step x (srv_bans s))"
proof -
  have "observe_valid i b = ban_step (BanValid i) b" "observe_invalid flt i r now b = ban_step (BanInvalid flt i r now) b" for b r
    by simp_all
  then show ?thesis unfolding public_bans_def by (metis (full_types))
qed

lemma public_allowed_keeps:
  assumes "public_allowed flt i now s = (ok, s')" "calls (srv_bans s') = calls (srv_bans s)" "hooks (srv_bans s) \<noteq> []" "is_allowed j t s"
  shows "is_allowed j t s'"
proof -
  have b: "srv_bans s' = public_bans flt i now s" "srv_acl s' = srv_acl s"
    using public_allowed_parts(2,3) [of flt i now s] assms(1) by simp_all
  from public_bans_step [of flt i now s] show ?thesis
  proof
    assume "public_bans flt i now s = srv_bans s"
    then show ?thesis using b assms(4) by (simp add: is_allowed_iff)
  next
    assume "\<exists>x. public_bans flt i now s = ban_step x (srv_bans s)"
    then obtain x where "srv_bans s' = ban_step x (srv_bans s)" using b by auto
    then show ?thesis using ban_step_allows [of x s j t s'] assms b by simp
  qed
qed

lemma fold_pardon_hooks [simp]: "hooks (fold pardon_key ks b) = hooks b"
  by (induction ks arbitrary: b) (simp_all add: pardon_key_def)

lemma ban_step_hooks [simp]: "hooks (ban_step x b) = hooks b"
  by (cases x) (auto simp: observe_invalid_def ban_permanent_def observe_valid_def unban_state unban_cidrs_def persist_locked_def ban_notify_def Let_def
      split: option.splits if_splits prod.splits sum.splits)

text \<open>The state after \<open>publicAllowed\<close>, before the connection is let through or reset.\<close>

lemma gate_step:
  assumes "edge_inv e" "public_allowed flt i (ed_now e) (ed_srv e) = (ok, s)"
    "e1 = owe_hook (calls (srv_bans (ed_srv e))) (calls (srv_bans s)) (e\<lparr>ed_srv := s\<rparr>)"
  shows "shrinks e e1" "edge_inv e1" "ok = ed_allowed e i" "ed_pending e1 = 0 \<Longrightarrow> ed_allowed e j \<Longrightarrow> ed_allowed e1 j"
proof -
  obtain f where f: "tcp_conns s = map f (tcp_conns (ed_srv e))"
    "\<And>c. pc_id (f c) = pc_id c \<and> pc_ip (f c) = pc_ip c \<and> (pc_open (f c) \<longrightarrow> pc_open c)"
    using public_allowed_conns [of flt i "ed_now e" "ed_srv e"] assms(2) by auto
  show sh: "shrinks e e1" using f(2) by (auto simp: shrinks_def assms(3) ed_conns_def f(1))
  note v = assms(1) [unfolded edge_inv_iff]
  have b: "srv_bans s = public_bans flt i (ed_now e) (ed_srv e)" "srv_acl s = srv_acl (ed_srv e)"
    "ok = is_allowed i (ed_now e) (ed_srv e)"
    using public_allowed_parts(1-3) [of flt i "ed_now e" "ed_srv e"] assms(2) by simp_all
  show "ok = ed_allowed e i" using b(3) by (simp add: ed_allowed_def)
  have h: "hooks (srv_bans s) = hooks (srv_bans (ed_srv e))"
    using public_bans_step [of flt i "ed_now e" "ed_srv e"] b(1) by auto
  show al: "ed_allowed e1 j" if "ed_pending e1 = 0" "ed_allowed e j" for j
    using public_allowed_keeps [OF assms(2), of j "ed_now e"] v that by (simp add: ed_allowed_def assms(3))
  have "settled e1" if "ed_pending e1 = 0"
    using that v shrinks_settled [OF sh] al by (auto simp: assms(3))
  then show "edge_inv e1" using v shrinks_ips [OF sh] h b(2) by (simp add: edge_inv_iff) (simp add: assms(3))
qed

lemma checked_frame [simp]:
  "ed_conns (e\<lparr>ed_checked := k\<rparr>) = ed_conns e" "ed_allowed (e\<lparr>ed_checked := k\<rparr>) = ed_allowed e"
  "same_ips (e\<lparr>ed_checked := k\<rparr>) = same_ips e"
  by (simp_all add: ed_conns_def ed_allowed_def [abs_def] same_ips_def)

lemma let_through:
  assumes "settled e" "\<And>d. d \<in> set (ed_conns e) \<Longrightarrow> pc_id d = n \<Longrightarrow> ed_allowed e (pc_ip d)"
  shows "settled (e\<lparr>ed_checked := n # ed_checked e\<rparr>)"
  using assms by (auto simp: settled_def)

lemma reset_conn_inv: "edge_inv e \<Longrightarrow> edge_inv (reset_conn n e)"
proof -
  assume i: "edge_inv e"
  have sh: "shrinks e (reset_conn n e)"
    by (rule shrinks_map [where f = "\<lambda>c. if pc_id c = n then c\<lparr>pc_open := False\<rparr> else c"]) (simp_all add: reset_conn_def on_conns_map)
  have fr: "ed_checked (reset_conn n e) = ed_checked e" "ed_allowed (reset_conn n e) = ed_allowed e" by (simp_all add: reset_conn_def)
  have "settled (reset_conn n e)" if "settled e" by (rule shrinks_settled [OF sh that]) (simp_all add: fr)
  moreover have "same_ips (reset_conn n e)" if "same_ips e" by (rule shrinks_ips [OF sh that])
  ultimately show ?thesis using i unfolding edge_inv_iff by (simp add: reset_conn_def)
qed

lemma check_conn_inv:
  assumes "edge_inv e"
  shows "edge_inv (check_conn n flt e)"
proof (cases "find (\<lambda>c. pc_id c = n) (ed_conns e)")
  case (Some c)
  have c: "c \<in> set (ed_conns e)" "pc_id c = n" using Some by (auto simp: find_Some_iff)
  obtain ok s where p: "public_allowed flt (pc_ip c) (ed_now e) (ed_srv e) = (ok, s)" by fastforce
  define e1 where "e1 = owe_hook (calls (srv_bans (ed_srv e))) (calls (srv_bans s)) (e\<lparr>ed_srv := s\<rparr>)"
  note g = gate_step [OF assms p e1_def]
  have r: "check_conn n flt e = (if ok then e1\<lparr>ed_checked := n # ed_checked e1\<rparr> else reset_conn n e1)"
    by (simp add: check_conn_def Some p e1_def Let_def)
  show ?thesis
  proof (cases ok)
    case True
    have "ed_allowed e1 (pc_ip d)" if d: "ed_pending e1 = 0" "d \<in> set (ed_conns e1)" "pc_id d = n" for d
    proof -
      obtain d0 where "d0 \<in> set (ed_conns e)" "pc_id d0 = n" "pc_ip d0 = pc_ip d" using g(1) d(2,3) unfolding shrinks_def by metis
      then have "pc_ip d = pc_ip c" using assms c unfolding edge_inv_iff same_ips_def by metis
      then show ?thesis using g(3,4) d(1) True by simp
    qed
    then have "settled (e1\<lparr>ed_checked := n # ed_checked e1\<rparr>)" if "ed_pending e1 = 0"
      using g(2) that let_through [of e1 n] by (auto simp: edge_inv_iff)
    then show ?thesis using r True g(2) by (simp add: edge_inv_iff)
  next
    case False
    then show ?thesis using r reset_conn_inv [OF g(2)] by simp
  qed
qed (simp add: check_conn_def assms)

lemma arrival_inv:
  assumes "edge_inv e" "fresh_id n e" "set (ed_conns e') \<subseteq> insert (new_conn n i) (set (ed_conns e))"
    "ed_store e' = ed_store e" "ed_now e' = ed_now e" "ed_checked e' = ed_checked e" "ed_pending e' = ed_pending e"
    "srv_bans (ed_srv e') = srv_bans (ed_srv e)" "srv_acl (ed_srv e') = srv_acl (ed_srv e)"
  shows "edge_inv e'"
proof -
  have al: "ed_allowed e' = ed_allowed e" using assms by (simp add: ed_allowed_def [abs_def] is_allowed_def)
  have n: "pc_id (new_conn n i) = n" "n \<notin> set (ed_checked e)" "\<forall>c \<in> set (ed_conns e). pc_id c \<noteq> n"
    using assms(2) by (simp_all add: new_conn_def fresh_id_def list_all_iff)
  have "settled e'" if "settled e"
    using that assms(3,6) n(1,2) unfolding settled_def al by (metis insertE subsetD)
  moreover have "same_ips e'" if "same_ips e"
    using that assms(3) n(1,3) unfolding same_ips_def by (metis insertE subsetD)
  ultimately show ?thesis using assms(1) by (simp add: edge_inv_iff assms)
qed

lemma forget_conn_inv: "edge_inv e \<Longrightarrow> edge_inv (forget_conn n e)"
proof -
  assume i: "edge_inv e"
  have sh: "shrinks e (forget_conn n e)" by (rule shrinks_subset) (auto simp: forget_conn_def on_conns_filter)
  have fr: "ed_checked (forget_conn n e) = ed_checked e" "ed_allowed (forget_conn n e) = ed_allowed e" by (simp_all add: forget_conn_def)
  have "settled (forget_conn n e)" if "settled e" by (rule shrinks_settled [OF sh that]) (simp_all add: fr)
  moreover have "same_ips (forget_conn n e)" if "same_ips e" by (rule shrinks_ips [OF sh that])
  ultimately show ?thesis using i unfolding edge_inv_iff by (simp add: forget_conn_def)
qed

text \<open>A change of the lists alone: the connections stay, and if no hook is owed nobody is admitted less.\<close>

lemma change_inv:
  assumes "edge_inv e" "ed_conns e' = ed_conns e" "ed_checked e' = ed_checked e"
    "hooks (srv_bans (ed_srv e')) \<noteq> []" "acl_hooks (ed_store e') \<noteq> []" "srv_acl (ed_srv e') = acl_live (ed_store e')"
    "ed_pending e' = 0 \<Longrightarrow> ed_pending e = 0" "\<And>i. ed_pending e' = 0 \<Longrightarrow> ed_allowed e i \<Longrightarrow> ed_allowed e' i"
  shows "edge_inv e'"
proof -
  have "settled e'" if "ed_pending e' = 0"
    using that assms unfolding edge_inv_iff settled_def by metis
  moreover have "same_ips e'" using assms(1,2) unfolding edge_inv_iff same_ips_def by metis
  ultimately show ?thesis using assms(4-6) by (simp add: edge_inv_iff)
qed

lemma evict_all_frame [simp]:
  "ed_store (evict_all e) = ed_store e" "ed_checked (evict_all e) = ed_checked e" "srv_bans (ed_srv (evict_all e)) = srv_bans (ed_srv e)"
  "srv_acl (ed_srv (evict_all e)) = srv_acl (ed_srv e)"
  by (simp_all add: evict_all_def evict_udp_assocs_def evict_http_conns_def evict_tcp_conns_def)

lemma hook_settles:
  shows "\<forall>c \<in> set (ed_conns (evict_all e)). pc_open c \<longrightarrow> ed_allowed e (pc_ip c)"
  by (auto simp: evict_all_conns)

lemma hook_inv:
  assumes "edge_inv e"
  shows "edge_inv ((evict_all e)\<lparr>ed_pending := k\<rparr>)"
proof -
  let ?e = "(evict_all e)\<lparr>ed_pending := k\<rparr>"
  have c: "ed_conns ?e = ed_conns (evict_all e)" by (simp add: ed_conns_def)
  have al: "ed_allowed ?e = ed_allowed e" using allowed_evict_all [of e] by (simp add: ed_allowed_def [abs_def])
  have "settled ?e" using hook_settles unfolding settled_def c al by blast
  moreover have "same_ips ?e"
    using shrinks_ips [OF shrinks_map [of "?e" "shut_unless (ed_allowed e)" e]] assms by (simp add: c evict_all_conns edge_inv_iff)
  ultimately show ?thesis using assms unfolding edge_inv_iff by auto
qed

lemma acl_step_hooks [simp]: "acl_hooks (acl_step x st) = acl_hooks st"
  by (cases x) (auto simp: acl_step_def acl_replace_def acl_add_def acl_remove_def commit_list_def acl_persist_def acl_notify_def Let_def
      split: sum.splits prod.splits if_splits)

lemma edge_step_inv:
  assumes "edit_saved x" "edge_inv e"
  shows "edge_inv (edge_step x e)"
proof (cases x)
  case (TcpArrives n i)
  show ?thesis
    by (cases "fresh_id n e") (auto simp: TcpArrives assms ed_conns_def track_tcp_def intro!: arrival_inv [OF assms(2), where n = n and i = i])
next
  case (HttpArrives k n i)
  have "set (ed_conns (e\<lparr>ed_http := (ed_http e)[k := hl_track (new_conn n i) True (ed_http e ! k)]\<rparr>)) \<subseteq> insert (new_conn n i) (set (ed_conns e))"
    if "k < length (ed_http e)"
    using set_update_subset_insert [of "ed_http e" k] nth_mem [OF that] by (fastforce simp: ed_conns_def hl_track_def)
  then show ?thesis
    by (auto simp: HttpArrives assms intro!: arrival_inv [OF assms(2), where n = n and i = i])
next
  case (ListEdit l)
  note i = assms(2) [unfolded edge_inv_iff]
  have "acl_live (acl_step l (ed_store e)) = acl_live (ed_store e)" if "acl_calls (acl_step l (ed_store e)) = acl_calls (ed_store e)"
    using acl_step_hooked [of l "ed_store e"] that assms(1) i by (simp add: ListEdit)
  then show ?thesis using i unfolding ListEdit
    by (intro change_inv [OF assms(2)]) (auto simp: Let_def ed_conns_def ed_allowed_def is_allowed_iff)
next
  case (BanEdit b)
  note i = assms(2) [unfolded edge_inv_iff]
  show ?thesis using i unfolding BanEdit
    by (intro change_inv [OF assms(2)])
      (auto simp: Let_def ed_conns_def ed_allowed_def intro: ban_step_allows [where s = "ed_srv e" and x = b])
next
  case (TimePasses d)
  note i = assms(2) [unfolded edge_inv_iff]
  show ?thesis using i unfolding TimePasses
    by (intro change_inv [OF assms(2)]) (auto simp: ed_conns_def ed_allowed_def intro: is_allowed_later)
qed (use assms in \<open>simp_all add: check_conn_inv forget_conn_inv hook_inv\<close>)

interpretation edge: machine edge_step edit_saved edge_inv
  by unfold_locales (rule edge_step_inv)

text \<open>
C4: nobody stays who is no longer admitted, whatever the schedule. Clients are accepted, checked and leave, the allowlist and the denylist are edited, hooks run and time passes in any order; no edit of the allowlist fails to be saved. Whenever no hook is owed, every open connection that was let through, on a TCP or an HTTP port, is of an address that is not banned and on the allowlist at that moment; and right after a hook has run this holds of every open connection.
\<close>

theorem admitted_stay_allowed:
  assumes "edge_inv e0" "list_all edit_saved es" "e = run_events edge_step es e0"
  shows "(ed_pending e = 0 \<longrightarrow> (\<forall>c \<in> set (ed_conns e). pc_open c \<and> pc_id c \<in> set (ed_checked e) \<longrightarrow>
       \<not> blocked (pc_ip c) (ed_now e) (srv_bans (ed_srv e)) \<and> allow (pc_ip c) (acl_live (ed_store e)))) \<and>
     (0 < ed_pending e \<longrightarrow> (\<forall>c \<in> set (ed_conns (edge_step HookRuns e)). pc_open c \<longrightarrow>
       \<not> blocked (pc_ip c) (ed_now e) (srv_bans (ed_srv e)) \<and> allow (pc_ip c) (acl_live (ed_store e))))"
proof -
  have i: "edge_inv e" using edge.run_inv [OF assms(2,1)] by (simp add: assms(3))
  then have al: "ed_allowed e j \<longleftrightarrow> \<not> blocked j (ed_now e) (srv_bans (ed_srv e)) \<and> allow j (acl_live (ed_store e))" for j
    by (simp add: edge_inv_iff ed_allowed_def is_allowed_iff)
  have "ed_conns (edge_step HookRuns e) = ed_conns (evict_all e)" if "0 < ed_pending e" using that by (simp add: ed_conns_def)
  then show ?thesis using i hook_settles [of e] unfolding edge_inv_iff settled_def al by auto
qed

definition example_edge :: edge_state where
  "example_edge = \<lparr>ed_srv = example_server,
     ed_store = acl_on_change ''evictDisallowed'' (new_store (Some empty_list) [] \<lparr>target = Absent, temps = []\<rparr>),
     ed_http = [], ed_hubs = [], ed_now = 0, ed_checked = [], ed_pending = 0\<rparr>"

lemma example_edge_inv: "edge_inv example_edge"
  by (simp add: edge_inv_def example_edge_def example_server_def on_change_def ban_new_def ban_load_def acl_on_change_def new_store_def
      settled_def ed_conns_def)

theorem admitted_stay_allowed_witness:
  "let e = run_events edge_step [TcpArrives 1 [10, 0, 0, 9], BanEdit (BanProbe None [10, 0, 0, 9] ''probe''), TimePasses 5] example_edge in
     ed_pending e = 1 \<and> map pc_open (ed_conns e) = [True] \<and> (\<forall>c \<in> set (ed_conns (edge_step HookRuns e)). \<not> pc_open c)"
proof -
  define e where "e = run_events edge_step [TcpArrives 1 [10, 0, 0, 9], BanEdit (BanProbe None [10, 0, 0, 9] ''probe''), TimePasses 5] example_edge"
  have "acl_live (ed_store e) = empty_list" "ed_pending e = 1" "map pc_open (ed_conns e) = [True]"
    by (simp_all add: e_def example_edge_def fresh_id_def ed_conns_def track_tcp_def new_conn_def example_server_def on_change_def
        ban_new_def ban_load_def acl_on_change_def new_store_def Let_def owe_hook_def ban_permanent_def ip_key_4 ban_notify_def)
  moreover have "\<not> allow j empty_list" for j by (simp add: allow_def empty_list_def)
  ultimately show ?thesis
    using admitted_stay_allowed [OF example_edge_inv _ e_def]
    unfolding e_def [symmetric] by (simp add: Let_def)
qed

text \<open>A new list that could not be saved is in force without its hook: the connections stay as they are.\<close>

lemma failed_edit_keeps_conns:
  assumes "edge_step (ListEdit (AclReplace (Some f) cs)) e = e'" "acl_path (ed_store e) \<noteq> []" "list_replace cs (acl_live (ed_store e)) = (Inr u, l)"
  shows "acl_live (ed_store e') = l \<and> srv_acl (ed_srv e') = l \<and> ed_pending e' = ed_pending e \<and> ed_conns e' = ed_conns e \<and> ed_checked e' = ed_checked e"
  using assms by (auto simp: acl_step_def acl_replace_def commit_list_def acl_persist_def save_file_def atomic_save_cases ed_conns_def owe_hook_def Let_def
      split: sum.splits prod.splits if_splits)

text \<open>A UDP packet is checked before its association exists: one that was let through before the pass opens
  its association after it.\<close>

lemma late_udp_packet:
  "view (hub_step (HEnsure example_client 0) (hub_step (HEvict (\<lambda>i. False)) example_hub)) 1 =
     Some \<lparr>ua_id = 1, ua_client = example_client, ua_last = 0, ua_ready = False, ua_err = None\<rparr>"
proof -
  have e: "hub_step (HEvict (\<lambda>i. False)) example_hub = example_hub" by (simp add: evict_assocs_def example_hub_def new_hub_def)
  obtain c where "hub_step (HEnsure example_client 0) example_hub = (add_assoc example_client 0 example_hub)\<lparr>hub_stream := c\<rparr>" by (rule example_open)
  then show ?thesis using example_hub_open(2) unfolding e by simp
qed

end
