(* ===== verification/HttpWhole.thy ===== *)
theory HttpWhole
  imports ConfigRoute HttpServe AgentLoop
begin

text \<open>
  An HTTP request from the public port to the target, through every part that handles it: the
  configuration that was validated, the listener made from it, the gate, the peeking of the head, the
  server of one HTTP/1 connection, the stream to the Agent and the Agent's dial.

  The library between the connection and the handler (\<open>net/http\<close>) is what it is documented to do: the
  handler sees the Host field and the path of the request that was sent.
\<close>

definition http_meta :: "tunnel \<Rightarrow> string \<Rightarrow> open_meta" where
  "http_meta t addr = \<lparr>om_name = t_name t, om_local = t_local t, om_client_addr = addr, om_proto = ProtoHTTP\<rparr>"

lemma director_target: "rq_url_host (director t b h q) = t_local t"
  by (simp add: director_def header_set_def Let_def)

lemma handler_proxies:
  assumes "rq_path q \<noteq> health_path_or_default cfg" "lookup_http_tunnel hl [rq_host q] = Some t"
    "sem_used s < sem_cap s" "get_session s \<noteq> None"
  shows "http1_handler cfg hl tls q s =
     (H1Proxy t (director t (tls \<noteq> None) (rq_host q) q) (http_meta t (rq_remote q)), s\<lparr>sem_used := sem_used s + 1, reg := add_sessions 1 (reg s)\<rparr>)"
proof -
  have "get_session (s\<lparr>sem_used := k\<rparr>) = get_session s" for k by (simp add: get_session_def split: option.split)
  then show ?thesis using assms by (auto simp: http1_handler_def http_meta_def Let_def)
qed

lemma gate_passes:
  assumes "is_allowed i now s" "public_allowed flt i now s = (ok, s1)"
  shows "ok" "get_session s1 = get_session s" "sem_used s1 = sem_used s" "sem_cap s1 = sem_cap s" "reg s1 = reg s"
proof -
  note p = public_allowed_parts [of flt i now s, unfolded assms(2) fst_conv snd_conv]
  show "ok" "sem_used s1 = sem_used s" "sem_cap s1 = sem_cap s" "reg s1 = reg s" using p assms(1) by simp_all
  show "get_session s1 = get_session s" using p by (simp add: get_session_def split: option.split)
qed

text \<open>
C8: HTTP works end to end. Let the configuration have been accepted, with no host in brackets, and the listener of a plain HTTP tunnel have been started. If an admitted client sends a well-formed request whose Host names the tunnel, in pieces of any size, while an Agent is connected and a slot is free, then the connection is let through to the HTTP/1 server, the handler takes the request to exactly this tunnel and directs it to its target, occupying one slot; the stream that is opened for it carries the tunnel's name, target and the client's address to the Agent, and if the Agent can dial, both ends agree, and what is written to the stream on one end is read on the other, both ways; the connection stays open for the next request.
\<close>

theorem http_end_to_end:
  assumes cfg: "validate_edge c0 = Inr c" "list_all (\<lambda>u. \<not> bracketed u) (http_tunnels c)" "t \<in> set (http_tunnels c)" "\<not> t_tls t"
    and up: "map_of (group_http_tunnels (http_tunnels c)) (t_public t) = Some g" "start_listener gen pair (t_public t) g = Inr hl"
    and sent: "CHR '' '' \<notin> set verb" "CHR '' '' \<notin> set uri" "no_cr (verb @ uri @ version)" "list_all header_ok hs"
      "concat pieces = bytes_of_string (render (request_lines verb uri version hs) @ crlf @ crlf @ body)"
      "length (concat pieces) \<le> maxPeekBytes" "\<not> has_prefix (string_of_bytes (concat pieces)) HTTP2ClientPreface"
    and host: "normalize_host (first_host hs) = normalize_host (t_host t)" "path_only uri \<noteq> health_path_or_default c"
    and library: "rq_host q = first_host hs" "rq_path q = path_only uri"
    and edge: "is_allowed i now s" "get_session s \<noteq> None" "sem_used s < sem_cap s" "0 \<le> active_sessions (reg s)"
    and agent: "marshal_open_meta (http_meta t (rq_remote q)) = Inr p" "length p \<le> MaxPayloadSize"
      "agent_answer ac lookup text dial (http_meta t (rq_remote q)) = (True, msg)" "length msg \<le> 65000"
  shows "\<exists>s1 req s2. handle_http_conn dec err flt now i hl tls conn pieces s = (HServe1 None, s1) \<and>
     http1_handler c hl None q s1 = (H1Proxy t req (http_meta t (rq_remote q)), s2) \<and> rq_url_host req = t_local t \<and>
     sem_used s2 = sem_used s + 1 \<and> active_sessions (reg s2) = active_sessions (reg s) + 1 \<and>
     (let h = run_events (h1_step c hl None) [HAccept, HRequest q s1, HFinish True] serve_http1 in
        h1_outs h = [H1Proxy t req (http_meta t (rq_remote q))] \<and> h1_open h \<and> h1_serving h) \<and>
     (\<exists>st ag0 ag dst. accept_data (Inr (mk_conn (tx st @ d1))) = (Inr (http_meta t (rq_remote q)), Some ag0) \<and>
        handle_stream ac lookup text dial (http_meta t (rq_remote q)) ag0 = (Forwarding dst, ag) \<and>
        resolve_local ac (http_meta t (rq_remote q)) = Inr dst \<and>
        open_data (Inr (mk_conn (tx ag @ d2))) (http_meta t (rq_remote q)) = (Inr (), Some st) \<and> rx ag = d1 \<and> rx st = d2)"
proof -
  let ?m = "http_meta t (rq_remote q)"
  have l: "\<not> hl_tls hl" "lookup_http_tunnel hl [rq_host q] = Some t"
    using accepted_tunnel_route [OF cfg(1,3,2)] cfg(4) up host(1) library(1) by auto
  obtain s1 where g: "public_allowed flt i now s = (True, s1)" and s1: "get_session s1 = get_session s" "sem_used s1 = sem_used s"
      "sem_cap s1 = sem_cap s" "reg s1 = reg s"
    using gate_passes [OF edge(1)] by (metis surj_pair)
  have "fst (PeekHTTP dec err pieces) = Inr \<lparr>hd_host = first_host hs, hd_path = path_only uri, hd_http2 = False\<rparr>"
    by (rule http1_request_routed [OF sent])
  then have c: "handle_http_conn dec err flt now i hl tls conn pieces s = (HServe1 None, s1)"
    using g l(1) by (simp add: handle_http_conn_def route_conn_def route_plain_def)
  have h: "http1_handler c hl None q s1 = (H1Proxy t (director t False (rq_host q) q) ?m, s1\<lparr>sem_used := sem_used s1 + 1, reg := add_sessions 1 (reg s1)\<rparr>)"
    using handler_proxies [of q c hl t s1 None] l(2) host(2) library(2) edge(2,3) s1 by simp
  have r: "let h = run_events (h1_step c hl None) [HAccept, HRequest q s1, HFinish True] serve_http1 in
      h1_outs h = [H1Proxy t (director t False (rq_host q) q) ?m] \<and> h1_open h \<and> h1_serving h"
    by (simp add: serve_http1_def h1_defs h Let_def)
  obtain st ag0 ag dst where "accept_data (Inr (mk_conn (tx st @ d1))) = (Inr ?m, Some ag0)"
      "handle_stream ac lookup text dial ?m ag0 = (Forwarding dst, ag)" "resolve_local ac ?m = Inr dst"
      "open_data (Inr (mk_conn (tx ag @ d2))) ?m = (Inr (), Some st)" "rx ag = d1" "rx st = d2"
    using stream_exchange [OF agent(1-4), of d1 d2] by (metis (full_types))
  then show ?thesis
    using c h r director_target [of t False "rq_host q" q] s1 edge(4) active_add [of "reg s" 1]
    by (intro exI [of _ s1] exI [of _ "director t False (rq_host q) q"] exI [of _ "s1\<lparr>sem_used := sem_used s1 + 1, reg := add_sessions 1 (reg s1)\<rparr>"]) auto
qed

definition visit_headers :: "(string \<times> string) list" where
  "visit_headers = [(''Accept'', '' *''), (''Host'', '' A:81 '')]"

definition visit_bytes :: bytes where
  "visit_bytes = bytes_of_string (render (request_lines ''GET'' ''/x?y=1'' ''HTTP/1.1'' visit_headers) @ crlf @ crlf)"

definition visit :: http_req where
  "visit = \<lparr>rq_host = ''A:81'', rq_path = ''/x'', rq_remote = ''10.0.0.9:4000'', rq_scheme = [], rq_url_host = [], rq_headers = []\<rparr>"

lemma visit_sent:
  "concat [take 9 visit_bytes, drop 9 visit_bytes] = visit_bytes" "length visit_bytes \<le> maxPeekBytes"
  "\<not> has_prefix (string_of_bytes visit_bytes) HTTP2ClientPreface" "no_cr (''GET'' @ ''/x?y=1'' @ ''HTTP/1.1'')" "list_all header_ok visit_headers"
  "first_host visit_headers = ''A:81''" "normalize_host ''A:81'' = normalize_host ''a''" "path_only ''/x?y=1'' = ''/x''"
proof -
  show "concat [take 9 visit_bytes, drop 9 visit_bytes] = visit_bytes" by simp
  show "length visit_bytes \<le> maxPeekBytes"
    by (simp add: visit_bytes_def visit_headers_def request_lines_def header_line_def crlf_def maxPeekBytes_def)
  show "\<not> has_prefix (string_of_bytes visit_bytes) HTTP2ClientPreface"
    by (simp add: visit_bytes_def has_prefix_def length_preface) (simp add: visit_headers_def request_lines_def http2PrefaceLen_def HTTP2ClientPreface_def)
  show "no_cr (''GET'' @ ''/x?y=1'' @ ''HTTP/1.1'')" "list_all header_ok visit_headers"
    by (simp_all add: no_cr_def header_ok_def visit_headers_def)
  show "path_only ''/x?y=1'' = ''/x''" by (simp add: path_only_def Let_def)
  show "first_host visit_headers = ''A:81''" "normalize_host ''A:81'' = normalize_host ''a''" by code_simp+
qed

lemma visit_site:
  obtains g hl where "map_of (group_http_tunnels (http_tunnels (example_sites ''a'' ''b''))) '':81'' = Some g"
    "start_listener None (\<lambda>_ _. None) '':81'' g = Inr hl"
proof -
  let ?ts = "http_tunnels (example_sites ''a'' ''b'')"
  have t: "example_http ''one'' ''a'' \<in> set ?ts" by (simp add: example_sites_def example_http_def http_tunnels_def)
  have "t_public (example_http ''one'' ''a'') = '':81''" by (simp add: example_http_def)
  then obtain g where g: "map_of (group_http_tunnels ?ts) '':81'' = Some g" using groups_spec [of ?ts "'':81''"] t by fastforce
  obtain u where "u \<in> set ?ts" "hg_tls g = t_tls u" using group_tls [OF g] by blast
  then have "\<not> hg_tls g" by (auto simp: example_sites_def example_http_def http_tunnels_def)
  then show ?thesis using that [OF g] by (simp add: start_listener_def Let_def)
qed

theorem http_end_to_end_witness:
  "\<exists>hl s1 req s2 st (ag :: conn). handle_http_conn (\<lambda>_. None) EOF None 5 [10, 0, 0, 9] hl (\<lambda>_. None) (mk_conn []) [take 9 visit_bytes, drop 9 visit_bytes]
       example_edge_server = (HServe1 None, s1) \<and>
     http1_handler (example_sites ''a'' ''b'') hl None visit s1 = (H1Proxy (example_http ''one'' ''a'') req (http_meta (example_http ''one'' ''a'') ''10.0.0.9:4000''), s2) \<and>
     rq_url_host req = ''127.0.0.1:82'' \<and>
     open_data (Inr (mk_conn (tx ag @ [3]))) (http_meta (example_http ''one'' ''a'') ''10.0.0.9:4000'') = (Inr (), Some st) \<and> rx ag = [1, 2] \<and> rx st = [3]"
proof -
  let ?c = "example_sites ''a'' ''b''" and ?t = "example_http ''one'' ''a''"
  let ?m = "http_meta ?t (rq_remote visit)"
  have v: "validate_edge ?c = Inr ?c" "list_all (\<lambda>u. \<not> bracketed u) (http_tunnels ?c)" by code_simp+
  have t: "?t \<in> set (http_tunnels ?c)" "\<not> t_tls ?t" "t_public ?t = '':81''" "t_host ?t = ''a''" "t_local ?t = ''127.0.0.1:82''"
    by (simp_all add: example_sites_def example_http_def http_tunnels_def)
  obtain g hl where up: "map_of (group_http_tunnels (http_tunnels ?c)) '':81'' = Some g" "start_listener None (\<lambda>_ _. None) '':81'' g = Inr hl"
    by (rule visit_site)
  have h: "path_only ''/x?y=1'' \<noteq> health_path_or_default ?c" unfolding visit_sent(8) by code_simp
  have q: "rq_host visit = first_host visit_headers" "rq_path visit = path_only ''/x?y=1''" "rq_remote visit = ''10.0.0.9:4000''"
    unfolding visit_sent(6,8) by (simp_all add: visit_def)
  have e: "is_allowed [10, 0, 0, 9] 5 example_edge_server" by code_simp
  have s: "get_session example_edge_server \<noteq> None" "sem_used example_edge_server < sem_cap example_edge_server"
    "0 \<le> active_sessions (reg example_edge_server)"
    by (simp_all add: example_edge_server_def example_server_def get_session_def new_registry_def)
  have m: "marshal_open_meta ?m = Inr (ProtoHTTP # string_bytes ''one'' @ string_bytes ''127.0.0.1:82'' @ string_bytes ''10.0.0.9:4000'')"
    "length (ProtoHTTP # string_bytes ''one'' @ string_bytes ''127.0.0.1:82'' @ string_bytes ''10.0.0.9:4000'') \<le> MaxPayloadSize"
    by (simp_all add: http_meta_def example_http_def visit_def marshal_defs MaxPayloadSize_def)
  have l: "validate_local (\<lambda>_. None) ''127.0.0.1:82'' True = None" "trim_space ''127.0.0.1:82'' \<noteq> []" by code_simp+
  have w: "agent_answer example_config (\<lambda>_. None) (\<lambda>_. ''bad'') (\<lambda>_. True) ?m = (True, ''ok'')" "length ''ok'' \<le> 65000"
    using l by (simp_all add: agent_answer_def resolve_local_def restrict_tunnels_def example_config_def empty_config_def private_only_def
        http_meta_def example_http_def)
  have b: "concat [take 9 visit_bytes, drop 9 visit_bytes] =
      bytes_of_string (render (request_lines ''GET'' ''/x?y=1'' ''HTTP/1.1'' visit_headers) @ crlf @ crlf @ [])"
    unfolding visit_sent(1) by (simp add: visit_bytes_def)
  have n: "normalize_host (first_host visit_headers) = normalize_host (t_host ?t)" using visit_sent(6,7) t(4) by simp
  have z: "length (concat [take 9 visit_bytes, drop 9 visit_bytes]) \<le> maxPeekBytes"
    "\<not> has_prefix (string_of_bytes (concat [take 9 visit_bytes, drop 9 visit_bytes])) HTTP2ClientPreface"
    unfolding visit_sent(1) by (rule visit_sent)+
  have sp: "CHR '' '' \<notin> set ''GET''" "CHR '' '' \<notin> set ''/x?y=1''" by simp_all
  show ?thesis
    using http_end_to_end [OF v t(1,2), unfolded t(3), OF up sp visit_sent(4,5) b z n h q(1,2) e s m w, of "\<lambda>_. None" EOF None "\<lambda>_. None" "mk_conn []" "[1, 2]" "[3]"]
    unfolding q(3) t(5) by (elim exE conjE) (intro exI conjI, assumption+)
qed

section \<open>TLS that Edge does not terminate\<close>


definition example_passthrough :: tunnel where
  "example_passthrough = (example_http ''web'' ''shop.example'')\<lparr>t_public := '':444'', t_tls := True, t_passthrough := True\<rparr>"

definition passthrough_config :: config where
  "passthrough_config = (example_sites ''a'' ''b'')\<lparr>cfg_tunnels := [example_passthrough]\<rparr>"

lemma passthrough_site:
  obtains g hl where "map_of (group_http_tunnels (http_tunnels passthrough_config)) '':444'' = Some g"
    "start_listener None (\<lambda>_ _. None) '':444'' g = Inr hl"
proof -
  have h: "http_tunnels passthrough_config = [example_passthrough]"
    by (simp add: http_tunnels_def passthrough_config_def example_passthrough_def example_http_def)
  have "t_public example_passthrough = '':444''" by (simp add: example_passthrough_def)
  then obtain g where g: "map_of (group_http_tunnels [example_passthrough]) '':444'' = Some g"
    using groups_spec [of "[example_passthrough]" "'':444''"] by fastforce
  have "\<not> group_needs_terminate g"
    using g by (auto simp: group_http_tunnels_def group_add_def Let_def group_needs_terminate_def example_passthrough_def split: if_splits)
  then show ?thesis using that [of g] g h by (simp add: start_listener_def Let_def)
qed


end
