(* ===== verification/Mains.thy ===== *)
theory Mains
  imports EdgeStart AgentLoop Cli InitGen
begin

text \<open>
  The programs: \<open>main\<close> of \<open>cmd/edge/main.go\<close> and \<open>cmd/agent/main.go\<close>, \<open>runInit\<close> of
  \<open>cmd/faketunnel/init.go\<close>, the choice of the log level in \<open>internal/logutil\<close> and the panic guard of
  \<open>internal/safe\<close>.

  A program either exits with a status or runs until it gets a signal. Its arguments go through the
  package \<open>flag\<close>; the model of that package here serves any set of flags, and agrees with the one of
  \<open>Cli\<close> on the flags of the administration client.
\<close>

section \<open>The package flag\<close>

text \<open>\<open>kind\<close> gives a defined flag's kind, True for a switch; \<open>setv\<close> is its \<open>Set\<close>, None an error.\<close>

definition flag_value ::
  "(string \<Rightarrow> bool option) \<Rightarrow> (string \<Rightarrow> string \<Rightarrow> 'f \<Rightarrow> 'f option) \<Rightarrow> string \<Rightarrow> string option \<Rightarrow> string list \<Rightarrow> 'f
   \<Rightarrow> flag_error + (bool \<times> 'f \<times> string list)" where
  "flag_value kind setv name val as fl =
     (case kind name of
        None \<Rightarrow> Inl (if name = ''help'' \<or> name = ''h'' then HelpFlag else NotDefined name)
      | Some True \<Rightarrow>
          (let v = (case val of None \<Rightarrow> ''true'' | Some v \<Rightarrow> v) in
           case setv name v fl of None \<Rightarrow> Inl (BadBool v) | Some fl' \<Rightarrow> Inr (True, fl', as))
      | Some False \<Rightarrow>
          (case (case val of Some v \<Rightarrow> Some (v, as) | None \<Rightarrow> (case as of [] \<Rightarrow> None | v # as' \<Rightarrow> Some (v, as'))) of
             None \<Rightarrow> Inl (NeedsArgument name)
           | Some (v, rest) \<Rightarrow> (case setv name v fl of None \<Rightarrow> Inl (BadValue v) | Some fl' \<Rightarrow> Inr (True, fl', rest))))"

definition flags_one ::
  "(string \<Rightarrow> bool option) \<Rightarrow> (string \<Rightarrow> string \<Rightarrow> 'f \<Rightarrow> 'f option) \<Rightarrow> string \<Rightarrow> string list \<Rightarrow> 'f \<Rightarrow> flag_error + (bool \<times> 'f \<times> string list)" where
  "flags_one kind setv s as fl =
     (if length s < 2 \<or> s ! 0 \<noteq> CHR ''-'' then Inr (False, fl, s # as)
      else if s = ''--'' then Inr (False, fl, as)
      else let name0 = (if s ! 1 = CHR ''-'' then drop 2 s else drop 1 s) in
        if name0 = [] \<or> name0 ! 0 = CHR ''-'' \<or> name0 ! 0 = CHR ''='' then Inl (BadSyntax s)
        else case split_flag name0 of (name, val) \<Rightarrow> flag_value kind setv name val as fl)"

lemma flags_one_shorter: "flags_one kind setv s as fl = Inr (True, fl', rest) \<Longrightarrow> length rest \<le> length as"
  by (auto simp: flags_one_def flag_value_def Let_def split: if_splits prod.splits option.splits list.splits bool.splits)

function flags_parse ::
  "(string \<Rightarrow> bool option) \<Rightarrow> (string \<Rightarrow> string \<Rightarrow> 'f \<Rightarrow> 'f option) \<Rightarrow> string list \<Rightarrow> 'f \<Rightarrow> flag_error + ('f \<times> string list)" where
  "flags_parse kind setv [] fl = Inr (fl, [])"
| "flags_parse kind setv (s # as) fl =
     (case flags_one kind setv s as fl of
        Inl e \<Rightarrow> Inl e
      | Inr (go, fl', rest) \<Rightarrow> if go then flags_parse kind setv rest fl' else Inr (fl', rest))"
  by pat_completeness auto
termination by (relation "measure (\<lambda>(kind, setv, as, fl). length as)")
  (auto dest!: sym [of "Inr _"] dest: flags_one_shorter simp: less_Suc_eq_le)

text \<open>The flags of the administration client are one such set.\<close>

definition cli_kind :: "string \<Rightarrow> bool option" where
  "cli_kind name = (if name = ''insecure'' then Some True else if set_flag name [] undefined = None then None else Some False)"

definition cli_set :: "string \<Rightarrow> string \<Rightarrow> cli_flags \<Rightarrow> cli_flags option" where
  "cli_set name v fl =
     (if name = ''insecure'' then map_option (\<lambda>b. fl\<lparr>cf_insecure := b\<rparr>) (parse_bool v) else set_flag name v fl)"

lemma set_flag_defined: "(set_flag name v fl = None) = (set_flag name w gl = None)"
  by (simp add: set_flag_def)

lemma cli_set_defined: "cli_kind name = Some False \<Longrightarrow> \<exists>fl'. cli_set name v fl = Some fl' \<and> set_flag name v fl = Some fl' \<and> name \<noteq> ''insecure''"
  using set_flag_defined [of name "[]" undefined v fl] by (auto simp: cli_kind_def cli_set_def split: if_splits)

lemma flag_value_cli:
  "flag_value cli_kind cli_set name val as fl =
     (if name = ''insecure'' then
        (case val of
           None \<Rightarrow> Inr (True, fl\<lparr>cf_insecure := True\<rparr>, as)
         | Some v \<Rightarrow> (case parse_bool v of None \<Rightarrow> Inl (BadBool v) | Some b \<Rightarrow> Inr (True, fl\<lparr>cf_insecure := b\<rparr>, as)))
      else if set_flag name [] fl = None then Inl (if name = ''help'' \<or> name = ''h'' then HelpFlag else NotDefined name)
      else case val of
        Some v \<Rightarrow> Inr (True, the (set_flag name v fl), as)
      | None \<Rightarrow> (case as of [] \<Rightarrow> Inl (NeedsArgument name) | v # as' \<Rightarrow> Inr (True, the (set_flag name v fl), as')))"
proof (cases "name = ''insecure''")
  case True
  then show ?thesis by (cases val) (simp_all add: flag_value_def cli_kind_def cli_set_def parse_bool_def Let_def split: option.split)
next
  case False
  note d = set_flag_defined [of name "[]" fl "[]" undefined]
  show ?thesis
  proof (cases "set_flag name [] fl = None")
    case True
    then show ?thesis using False d by (simp add: flag_value_def cli_kind_def)
  next
    case def: False
    have k: "cli_kind name = Some False" using False d def by (simp add: cli_kind_def)
    have s: "cli_set name v fl = Some (the (set_flag name v fl))" for v
      using cli_set_defined [OF k, of v fl] by auto
    then show ?thesis using False def by (cases val; cases as) (simp_all add: flag_value_def k s)
  qed
qed

lemma flags_agree: "flags_one cli_kind cli_set s as fl = parse_one s as fl"
  unfolding flags_one_def parse_one_def flag_value_cli ..

section \<open>Logging and goroutines\<close>

datatype log_level = LevelDebug | LevelInfo | LevelWarn | LevelError

text \<open>\<open>logutil.New\<close>: the level and whether the lines are JSON.\<close>

definition logutil_new :: "string \<Rightarrow> string \<Rightarrow> log_level \<times> bool" where
  "logutil_new level format =
     (let lv = to_lower (trim_space level) in
      (if lv = ''debug'' then LevelDebug else if lv = ''warn'' \<or> lv = ''warning'' then LevelWarn
       else if lv = ''error'' then LevelError else LevelInfo,
       equal_fold format ''json''))"

text \<open>\<open>safe.Go\<close>: a goroutine leaves a state, and a panic if it did not return; that becomes a log line.\<close>

definition safe_go :: "string \<Rightarrow> ('s \<Rightarrow> string option \<times> 's) \<Rightarrow> 's \<Rightarrow> (string \<times> string) list \<times> 's" where
  "safe_go name body s = (case body s of (Some panic, s') \<Rightarrow> ([(name, panic)], s') | (None, s') \<Rightarrow> ([], s'))"

section \<open>The daemons\<close>

record main_flags =
  mf_config :: string
  mf_version :: bool

definition main_kind :: "string \<Rightarrow> bool option" where
  "main_kind name = (if name = ''config'' then Some False else if name = ''version'' then Some True else None)"

definition main_set :: "string \<Rightarrow> string \<Rightarrow> main_flags \<Rightarrow> main_flags option" where
  "main_set name v fl =
     (if name = ''version'' then map_option (\<lambda>b. fl\<lparr>mf_version := b\<rparr>) (parse_bool v) else Some (fl\<lparr>mf_config := v\<rparr>))"

datatype 'r program = Exits nat | Runs 'r

text \<open>The common start of both: \<open>flag.Parse\<close> exits with 0 after the help text and with 2 after an
  error; \<open>-version\<close> and a missing configuration end the program too.\<close>

definition main_config :: "string \<Rightarrow> environ \<Rightarrow> files \<Rightarrow> string list \<Rightarrow> nat + string" where
  "main_config role env fs args =
     (case flags_parse main_kind main_set args \<lparr>mf_config = [], mf_version = False\<rparr> of
        Inl e \<Rightarrow> Inl (if e = HelpFlag then 0 else 2)
      | Inr (fl, rest) \<Rightarrow>
          if mf_version fl then Inl 0
          else let p0 = trim_space (mf_config fl); p = (if p0 = [] then find_config env fs role else p0) in
            if p = [] then Inl 2 else Inr p)"

text \<open>What a program finds in the world: its environment and directory, the decoder of its
  configuration, random bytes, faults, the files of both lists, and which addresses can be opened.\<close>

record world =
  w_env :: environ
  w_cwd :: string
  w_yaml :: "string \<Rightarrow> config option"
  w_wide :: "string \<Rightarrow> bool"
  w_rnd :: "bytes option"
  w_secret_fault :: "file_state option"
  w_allow_disk :: "string \<Rightarrow> string list disk"
  w_allow_fault :: "fs_op option"
  w_ban_disk :: "string \<Rightarrow> ban_dto disk"
  w_can_listen :: "string \<Rightarrow> string \<Rightarrow> bool"
  w_sign :: "cert_template \<Rightarrow> (string \<times> string) option"
  w_pair :: "string \<Rightarrow> string \<Rightarrow> string option"
  w_hidden :: "string \<Rightarrow> bool"
  w_cert_fault :: "(cert_op \<times> file_state) option"
  w_now :: int
  w_order :: "(string \<times> http_group) list \<Rightarrow> (string \<times> http_group) list"

text \<open>Go walks the groups of HTTP tunnels in some order.\<close>

definition fair_order :: "world \<Rightarrow> bool" where
  "fair_order w \<longleftrightarrow> (\<forall>gs. distinct gs \<longrightarrow> distinct (w_order w gs)) \<and> (\<forall>gs. set (w_order w gs) = set gs)"

record running_edge =
  re_config :: config
  re_server :: server
  re_store :: acl_store
  re_sockets :: edge_sockets
  re_admin :: "admin option"

definition world_load_edge :: "world \<Rightarrow> string \<Rightarrow> files \<Rightarrow> (config_error + config) \<times> files" where
  "world_load_edge w p fs = load_edge (w_yaml w) (w_wide w) (w_env w) (w_cwd w) (w_rnd w) (w_secret_fault w) p fs"

definition world_certs :: "world \<Rightarrow> config \<Rightarrow> string list \<Rightarrow> files \<Rightarrow> (cert_error + string) \<times> files" where
  "world_certs w c hosts fs =
     load_or_generate (w_sign w) (w_pair w) (w_hidden w) (w_cert_fault w) (w_now w) (tls_cert c) (tls_key c) (auto_self_signed c) hosts fs"

text \<open>\<open>main\<close> of Edge up to the wait for a signal in \<open>Run\<close>. A program that exits has no sockets left, the
  process is gone.\<close>

definition edge_main :: "world \<Rightarrow> string list \<Rightarrow> files \<Rightarrow> running_edge program \<times> files" where
  "edge_main w args fs =
     (case main_config ''edge'' (w_env w) fs args of
        Inl n \<Rightarrow> (Exits n, fs)
      | Inr p \<Rightarrow>
          (case world_load_edge w p fs of
             (Inl e, fs1) \<Rightarrow> (Exits 1, fs1)
           | (Inr c0, fs1) \<Rightarrow>
               (case from_config (w_allow_fault w) (allowlist_file c0) (cfg_allowlist c0) (w_allow_disk w (allowlist_file c0)) of
                  (Inl e, ak) \<Rightarrow> (Exits 1, fs1)
                | (Inr l, ak) \<Rightarrow>
                    (case edge_new c0 l ak (w_ban_disk w (denylist_file c0)) of
                       Inl e \<Rightarrow> (Exits 1, fs1)
                     | Inr (c, srv, store) \<Rightarrow>
                         (case edge_start (w_can_listen w) (world_certs w c) (w_pair w) (w_order w (group_http_tunnels (http_tunnels c)))
                             c (srv_bans srv) store no_sockets fs1 of
                            (Inl e, s, fs2) \<Rightarrow> (Exits 1, fs2)
                          | (Inr adm, s, fs2) \<Rightarrow>
                              (Runs \<lparr>re_config = c, re_server = srv, re_store = store, re_sockets = s, re_admin = adm\<rparr>, fs2))))))"

text \<open>\<open>Run\<close> after the signal: \<open>Shutdown\<close> returns no error, and the status is 0.\<close>

definition edge_signalled :: "running_edge \<Rightarrow> nat \<times> server \<times> edge_sockets" where
  "edge_signalled r = (0, edge_shutdown (re_server r) (re_sockets r))"

definition agent_main ::
  "(string \<Rightarrow> config option) \<Rightarrow> (string \<Rightarrow> bool) \<Rightarrow> environ \<Rightarrow> string \<Rightarrow> (string \<Rightarrow> bool) \<Rightarrow> string list \<Rightarrow> files \<Rightarrow> (config \<times> tls_client) program" where
  "agent_main yaml wide env cwd pool args fs =
     (case main_config ''agent'' env fs args of
        Inl n \<Rightarrow> Exits n
      | Inr p \<Rightarrow>
          (case load_agent yaml wide env cwd p fs of
             Inl e \<Rightarrow> Exits 1
           | Inr c \<Rightarrow> (case agent_new pool fs c of Inl e \<Rightarrow> Exits 1 | Inr r \<Rightarrow> Runs r)))"

lemma edge_main_runs:
  assumes "edge_main w args fs = (Runs r, fs')"
  obtains p fs1 ak where "main_config ''edge'' (w_env w) fs args = Inr p" "world_load_edge w p fs = (Inr (re_config r), fs1)"
    "from_config (w_allow_fault w) (allowlist_file (re_config r)) (cfg_allowlist (re_config r)) (w_allow_disk w (allowlist_file (re_config r))) =
       (Inr (srv_acl (re_server r)), ak)"
    "edge_typed (re_config r)"
    "edge_new (re_config r) (srv_acl (re_server r)) ak (w_ban_disk w (denylist_file (re_config r))) = Inr (re_config r, re_server r, re_store r)"
    "edge_start (w_can_listen w) (world_certs w (re_config r)) (w_pair w) (w_order w (group_http_tunnels (http_tunnels (re_config r))))
       (re_config r) (srv_bans (re_server r)) (re_store r) no_sockets fs1 = (Inr (re_admin r), re_sockets r, fs')"
proof -
  obtain p c0 fs1 l ak c srv store where *: "main_config ''edge'' (w_env w) fs args = Inr p" "world_load_edge w p fs = (Inr c0, fs1)"
    "from_config (w_allow_fault w) (allowlist_file c0) (cfg_allowlist c0) (w_allow_disk w (allowlist_file c0)) = (Inr l, ak)"
    "edge_new c0 l ak (w_ban_disk w (denylist_file c0)) = Inr (c, srv, store)"
    "edge_start (w_can_listen w) (world_certs w c) (w_pair w) (w_order w (group_http_tunnels (http_tunnels c))) c (srv_bans srv) store no_sockets fs1 =
       (Inr (re_admin r), re_sockets r, fs')"
    "re_config r = c" "re_server r = srv" "re_store r = store"
    using assms by (auto simp: edge_main_def split: sum.splits prod.splits)
  have t: "edge_typed c0" using *(2) unfolding world_load_edge_def by (rule load_edge_keeps)
  have "c = c0" "srv_acl srv = l" using *(4) validated_again [OF t] by (auto simp: edge_new_def)
  then show ?thesis using that * t by metis
qed

lemma group_addresses: "fst ` set (group_http_tunnels ts) = t_public ` set ts"
proof (induction ts rule: rev_induct)
  case (snoc t ts)
  have "group_http_tunnels (ts @ [t]) = group_add t (group_http_tunnels ts)" by (simp add: group_http_tunnels_def)
  then show ?case using snoc by (simp add: group_add_def Let_def dom_update [unfolded dom_map_of_conv_image_fst] update_keys)
qed (simp add: group_http_tunnels_def)

lemma edge_new_idle:
  "edge_new c0 l ak bk = Inr (c, srv, st) \<Longrightarrow> get_session srv = None \<and> tcp_conns srv = [] \<and> sem_used srv = 0"
  by (auto simp: edge_new_def get_session_def)

lemma allowlist_in_force:
  assumes "from_config flt p yaml k = (Inr l, ak)" "p \<noteq> []"
  shows "target k \<notin> {Unreadable, Malformed} \<and> (\<forall>cs. target k = Doc cs \<longrightarrow> acl_new cs = Inr l) \<and>
     (target k = Absent \<and> yaml = [] \<longrightarrow> (\<forall>i. allow i l \<longrightarrow> normalize_ip i = [127, 0, 0, 1] \<or> normalize_ip i = replicate 15 0 @ [1]))"
proof (intro conjI allI impI)
  show "target k \<notin> {Unreadable, Malformed}" using from_config_choice [of p k _ flt yaml] assms by auto
  show "acl_new cs = Inr l" if "target k = Doc cs" for cs using from_config_choice [of p k cs flt yaml] that assms by simp
  fix i
  assume "target k = Absent \<and> yaml = []" "allow i l"
  then show "normalize_ip i = [127, 0, 0, 1] \<or> normalize_ip i = replicate 15 0 @ [1]"
    using from_config_choice [of p k undefined flt] assms by auto
qed

text \<open>
C5: what a running Edge is. If \<open>main\<close> gets to the point where it waits for a signal, then whatever its arguments, files and environment were: its configuration is well formed; its sockets are the tunnel port, the public addresses of its tunnels and the Admin API if that is on, and no other; an Admin API that is on has a token, and listens on loopback or has a strong token; the allowlist is the one of its file, and without a file and without entries it admits the loopback addresses only; nobody is connected, no session slot is taken. After a signal it exits with status 0 and every socket is closed.
\<close>

theorem edge_main_safe:
  assumes "edge_main w args fs = (Runs r, fs')" "fair_order w" "re_config r = c" "w_allow_disk w (allowlist_file c) = k"
  shows "edge_typed c \<and>
     set (map snd (es_open (re_sockets r))) =
       {(''tcp'', listen c)} \<union> (\<lambda>t. (''tcp'', t_public t)) ` set (tcp_tunnels c) \<union> (\<lambda>t. (''tcp'', t_public t)) ` set (http_tunnels c) \<union>
       (\<lambda>t. (''udp'', t_public t)) ` set (udp_tunnels c) \<union> (if admin_enabled c then {(''tcp'', admin_listen c)} else {}) \<and>
     (admin_enabled c \<longrightarrow> trim_space (admin_token c) \<noteq> [] \<and> (listen_host_is_loopback (admin_listen c) \<or>
        16 \<le> length (trim_space (admin_token c)) \<and> trim_space (admin_token c) \<noteq> ExampleAdminToken \<and>
        trim_space (admin_token c) \<noteq> trim_space (cfg_token c))) \<and>
     (allowlist_file c \<noteq> [] \<longrightarrow> target k \<notin> {Unreadable, Malformed} \<and> (\<forall>cs. target k = Doc cs \<longrightarrow> acl_new cs = Inr (srv_acl (re_server r))) \<and>
        (target k = Absent \<and> cfg_allowlist c = [] \<longrightarrow> (\<forall>i now. is_allowed i now (re_server r) \<longrightarrow>
           normalize_ip i = [127, 0, 0, 1] \<or> normalize_ip i = replicate 15 0 @ [1]))) \<and>
     get_session (re_server r) = None \<and> tcp_conns (re_server r) = [] \<and> sem_used (re_server r) = 0 \<and>
     (case edge_signalled r of (n, srv, s) \<Rightarrow> n = 0 \<and> es_open s = [])"
proof (rule edge_main_runs [OF assms(1), unfolded assms(3,4)])
  fix p fs1 ak
  assume a: "from_config (w_allow_fault w) (allowlist_file c) (cfg_allowlist c) k = (Inr (srv_acl (re_server r)), ak)" "edge_typed c"
    "edge_new c (srv_acl (re_server r)) ak (w_ban_disk w (denylist_file c)) = Inr (c, re_server r, re_store r)"
    "edge_start (w_can_listen w) (world_certs w c) (w_pair w) (w_order w (group_http_tunnels (http_tunnels c))) c (srv_bans (re_server r))
       (re_store r) no_sockets fs1 = (Inr (re_admin r), re_sockets r, fs')"
  let ?gs = "w_order w (group_http_tunnels (http_tunnels c))"
  have gs: "distinct ?gs" "set ?gs = set (group_http_tunnels (http_tunnels c))"
    using assms(2) group_keys [of "http_tunnels c"] by (auto simp: fair_order_def distinct_map)
  have st: "map snd (es_open (re_sockets r)) = wanted_sockets c ?gs @ (if admin_enabled c then [(''tcp'', admin_listen c)] else [])"
    "es_open (close_listeners (case es_admin (re_sockets r) of None \<Rightarrow> re_sockets r | Some (i, _) \<Rightarrow> close_sockets [i] (re_sockets r))) = []"
    using edge_start_cases [OF validated_again [OF a(2)] gs a(4)] by simp_all
  have h: "(\<lambda>(p, _). (''tcp'', p)) ` set ?gs = (\<lambda>t. (''tcp'', t_public t)) ` set (http_tunnels c)"
  proof -
    have "(\<lambda>(p, _). (''tcp'', p)) ` set ?gs = Pair ''tcp'' ` fst ` set ?gs" by (simp add: image_image split_def)
    also have "\<dots> = Pair ''tcp'' ` t_public ` set (http_tunnels c)" using gs(2) group_addresses [of "http_tunnels c"] by simp
    finally show ?thesis by (simp add: image_image)
  qed
  have so: "set (map snd (es_open (re_sockets r))) =
       {(''tcp'', listen c)} \<union> (\<lambda>t. (''tcp'', t_public t)) ` set (tcp_tunnels c) \<union> (\<lambda>t. (''tcp'', t_public t)) ` set (http_tunnels c) \<union>
       (\<lambda>t. (''udp'', t_public t)) ` set (udp_tunnels c) \<union> (if admin_enabled c then {(''tcp'', admin_listen c)} else {})"
    unfolding st(1) h [symmetric] by (auto simp: wanted_sockets_def tcp_sockets_def http_sockets_def udp_sockets_def)
  have sv: "get_session (re_server r) = None \<and> tcp_conns (re_server r) = [] \<and> sem_used (re_server r) = 0"
    using edge_new_idle [OF a(3)] .
  have sh: "es_open (snd (edge_shutdown (re_server r) (re_sockets r))) = []"
    using st(2) by (simp add: edge_shutdown_def Let_def close_listeners_def close_sockets_def split: option.splits prod.splits)
  have al: "allowlist_file c \<noteq> [] \<longrightarrow> target k \<notin> {Unreadable, Malformed} \<and> (\<forall>cs. target k = Doc cs \<longrightarrow> acl_new cs = Inr (srv_acl (re_server r))) \<and>
        (target k = Absent \<and> cfg_allowlist c = [] \<longrightarrow> (\<forall>i now. is_allowed i now (re_server r) \<longrightarrow>
           normalize_ip i = [127, 0, 0, 1] \<or> normalize_ip i = replicate 15 0 @ [1]))"
    using allowlist_in_force [OF a(1)] by (auto simp: is_allowed_iff)
  have sg: "case edge_signalled r of (n, srv, s) \<Rightarrow> n = 0 \<and> es_open s = []"
    using sh by (cases "edge_shutdown (re_server r) (re_sockets r)") (simp add: edge_signalled_def)
  show ?thesis using a(2) so sv al sg typed_admin_guard [OF a(2)] by blast
qed

definition example_world :: world where
  "example_world = \<lparr>w_env = (\<lambda>_. []), w_cwd = ''/'', w_yaml = (\<lambda>_. Some example_file), w_wide = (\<lambda>_. False), w_rnd = Some [1, 2],
     w_secret_fault = None, w_allow_disk = (\<lambda>_. \<lparr>target = Absent, temps = []\<rparr>), w_allow_fault = None,
     w_ban_disk = (\<lambda>_. \<lparr>target = Absent, temps = []\<rparr>), w_can_listen = (\<lambda>_ _. True), w_sign = (\<lambda>_. Some (''C'', ''K'')),
     w_pair = (\<lambda>c k. Some ''cert''), w_hidden = (\<lambda>_. False), w_cert_fault = None, w_now = 0, w_order = (\<lambda>gs. gs)\<rparr>"

lemma example_main_config: "main_config ''edge'' (\<lambda>_. []) example_files [''-config'', ''edge.yaml''] = Inr ''edge.yaml''"
  by code_simp

lemma example_lists:
  "allowlist_file example_result = ''/allowlist.json''" "cfg_allowlist example_result = []" "http_tunnels example_result = []"
  "admin_listen example_result = ''127.0.0.1:90''" "trim_space ''127.0.0.1:90'' = ''127.0.0.1:90''" "trim_space (admin_token example_result) \<noteq> []"
  by code_simp+

lemma example_certs: "\<exists>fs. world_certs example_world example_result default_hosts example_written = (Inr ''cert'', fs)"
proof -
  have "tls_cert example_result = ''/certs/edge.crt''" "tls_key example_result = ''/certs/edge.key''" "auto_self_signed example_result"
    by code_simp+
  then show ?thesis
    by (simp add: world_certs_def example_world_def load_or_generate_def cert_plan_def os_stat_def example_written_def example_files_def
        generate_pair_def generate_self_signed_def save_pair_def x509_key_pair_def Let_def)
qed

lemma start_all:
  "\<exists>s'. start_tcp (\<lambda>_ _. True) ts s = (Inr (), s')" "\<exists>s'. start_udp (\<lambda>_ _. True) ts s = (Inr (), s')"
  by (induction ts arbitrary: s) (simp_all add: net_listen_def)

lemma example_ports: "\<exists>s. start_ports (\<lambda>_ _. True) mat pair [] c no_sockets fs = (Inr (), s, fs)"
proof -
  obtain i s0 where n: "net_listen (\<lambda>_ _. True) ''tcp'' (listen c) no_sockets = Some (i, s0)" by (simp add: net_listen_def)
  obtain s1 where "start_tcp (\<lambda>_ _. True) (tcp_tunnels c) (s0\<lparr>es_tunnel := Some i\<rparr>) = (Inr (), s1)" using start_all(1) by blast
  moreover obtain s2 where "start_udp (\<lambda>_ _. True) (udp_tunnels c) (s1\<lparr>es_udp := []\<rparr>) = (Inr (), s2)" using start_all(2) by blast
  ultimately show ?thesis by (simp add: start_ports_def n)
qed

lemma example_runs: "\<exists>r fs'. edge_main example_world [''-config'', ''edge.yaml''] example_files = (Runs r, fs') \<and> re_config r = example_result"
proof -
  have l: "world_load_edge example_world ''edge.yaml'' example_files = (Inr example_result, example_written)"
    using example_load by (simp add: world_load_edge_def example_world_def)
  obtain ak where f: "from_config None ''/allowlist.json'' [] \<lparr>target = Absent, temps = []\<rparr> = (Inr loopback_list, ak)"
    by (simp add: from_config_def loopback_new)
  obtain srv st where n: "edge_new example_result loopback_list ak \<lparr>target = Absent, temps = []\<rparr> = Inr (example_result, srv, st)"
    by (simp add: edge_new_def example_valid)
  obtain fs where c: "world_certs example_world example_result default_hosts example_written = (Inr ''cert'', fs)" using example_certs by blast
  obtain s where p: "start_ports (\<lambda>_ _. True) (world_certs example_world example_result) (\<lambda>c k. Some ''cert'') [] example_result no_sockets fs = (Inr (), s, fs)"
    using example_ports by blast
  have a: "\<exists>adm s'. start_admin (\<lambda>_ _. True) example_result bans st s = (Inr adm, s')" for bans
    using example_lists(4-6) by (simp add: start_admin_def admin_new_def net_listen_def)
  obtain adm s' where "start_admin (\<lambda>_ _. True) example_result (srv_bans srv) st s = (Inr adm, s')" using a by blast
  then have "edge_start (\<lambda>_ _. True) (world_certs example_world example_result) (\<lambda>c k. Some ''cert'') [] example_result (srv_bans srv) st
      no_sockets example_written = (Inr adm, s', fs)"
    by (simp add: edge_start_def c p)
  moreover have "w_order example_world (group_http_tunnels (http_tunnels example_result)) = []"
    by (simp add: example_world_def example_lists group_http_tunnels_def)
  moreover have w: "w_env example_world = (\<lambda>_. [])" "w_allow_fault example_world = None" "w_can_listen example_world = (\<lambda>_ _. True)"
    "w_pair example_world = (\<lambda>c k. Some ''cert'')" "w_allow_disk example_world p = \<lparr>target = Absent, temps = []\<rparr>"
    "w_ban_disk example_world p = \<lparr>target = Absent, temps = []\<rparr>" for p
    by (simp_all add: example_world_def)
  ultimately show ?thesis by (simp add: edge_main_def example_main_config l f n example_lists)
qed

theorem edge_main_safe_witness:
  "case edge_main example_world [''-config'', ''edge.yaml''] example_files of (p, fs) \<Rightarrow>
     \<exists>r. p = Runs r \<and> get_session (re_server r) = None \<and>
       (is_allowed [10, 0, 0, 9] 0 (re_server r) \<longrightarrow> normalize_ip [10, 0, 0, 9] = [127, 0, 0, 1] \<or> normalize_ip [10, 0, 0, 9] = replicate 15 0 @ [1]) \<and>
       es_open (snd (snd (edge_signalled r))) = []"
proof -
  obtain r fs' where r: "edge_main example_world [''-config'', ''edge.yaml''] example_files = (Runs r, fs')" "re_config r = example_result"
    using example_runs by blast
  have "fair_order example_world" by (simp add: fair_order_def example_world_def)
  note s = edge_main_safe [OF r(1) this r(2) refl]
  have "w_allow_disk example_world p = \<lparr>target = Absent, temps = []\<rparr>" for p by (simp add: example_world_def)
  then show ?thesis using s r example_lists by (auto split: prod.splits) 
qed

text \<open>A running Agent has a validated configuration with an Edge to dial, and the TLS settings made from it.\<close>

lemma agent_main_checked:
  assumes "agent_main yaml wide env cwd pool args fs = Runs (c, t)"
  shows "trim_space (edge c) \<noteq> [] \<and> client_config pool fs (tls_ca c) (tls_server_name c) (skip_verify c) = Inr t \<and>
     (\<exists>p c0. main_config ''agent'' env fs args = Inr p \<and> load_agent yaml wide env cwd p fs = Inr c0 \<and> validate_agent c0 = Inr c)"
  using assms by (auto simp: agent_main_def agent_new_def validate_agent_def split: sum.splits if_splits)

section \<open>The init command\<close>

definition str_list_set :: "string \<Rightarrow> string list \<Rightarrow> string list option" where
  "str_list_set v vs = (let w = trim_space v in if w = [] then None else Some (vs @ [w]))"

definition init_kind :: "string \<Rightarrow> bool option" where
  "init_kind name =
     (if name = ''force'' then Some True
      else if name \<in> set [''dir'', ''edge'', ''listen'', ''preset'', ''http'', ''tcp'', ''udp'', ''allow''] then Some False else None)"

definition init_set :: "string \<Rightarrow> string \<Rightarrow> init_options \<Rightarrow> init_options option" where
  "init_set name v op =
     (if name = ''force'' then map_option (\<lambda>b. op\<lparr>io_force := b\<rparr>) (parse_bool v)
      else if name = ''dir'' then Some (op\<lparr>io_dir := v\<rparr>)
      else if name = ''edge'' then Some (op\<lparr>io_edge_host := v\<rparr>)
      else if name = ''listen'' then Some (op\<lparr>io_listen := v\<rparr>)
      else if name = ''preset'' then Some (op\<lparr>io_preset := v\<rparr>)
      else if name = ''http'' then map_option (\<lambda>l. op\<lparr>io_http := l\<rparr>) (str_list_set v (io_http op))
      else if name = ''tcp'' then map_option (\<lambda>l. op\<lparr>io_tcp := l\<rparr>) (str_list_set v (io_tcp op))
      else if name = ''udp'' then map_option (\<lambda>l. op\<lparr>io_udp := l\<rparr>) (str_list_set v (io_udp op))
      else map_option (\<lambda>l. op\<lparr>io_allow := l\<rparr>) (str_list_set v (io_allow op)))"

definition init_defaults :: init_options where
  "init_defaults = \<lparr>io_dir = ''.'', io_edge_host = ''127.0.0.1'', io_listen = DefaultListen, io_http = [], io_tcp = [], io_udp = [],
     io_allow = [], io_preset = [], io_force = False\<rparr>"

datatype run_init_error = InitFlags flag_error | InitFailed init_error

text \<open>\<open>runInit\<close>. What is left after the flags is not looked at. The printed hints are left out.\<close>

definition run_init ::
  "(string \<Rightarrow> string) \<Rightarrow> string \<Rightarrow> bool \<Rightarrow> bytes option \<Rightarrow> bytes option \<Rightarrow> (nat \<times> file_state) option \<Rightarrow> string list \<Rightarrow> files
   \<Rightarrow> (run_init_error + init_result) \<times> files" where
  "run_init quote cwd mk rnd1 rnd2 flt args fs =
     (case flags_parse init_kind init_set args init_defaults of
        Inl e \<Rightarrow> (Inl (InitFlags e), fs)
      | Inr (op, rest) \<Rightarrow>
          (case init quote cwd mk rnd1 rnd2 flt op fs of
             (Inl e, fs') \<Rightarrow> (Inl (InitFailed e), fs')
           | (Inr r, fs') \<Rightarrow> (Inr r, fs')))"

text \<open>What a user writes: options with their values, and the switch.\<close>

datatype init_item = InitOpt string string | InitOptEq string string | InitForce

fun init_text :: "init_item \<Rightarrow> string list" where
  "init_text (InitOpt n v) = [''-'' @ n, v]"
| "init_text (InitOptEq n v) = [''--'' @ n @ ''='' @ v]"
| "init_text InitForce = [''-force'']"

fun init_apply :: "init_item \<Rightarrow> init_options \<Rightarrow> init_options option" where
  "init_apply (InitOpt n v) op = init_set n v op"
| "init_apply (InitOptEq n v) op = init_set n v op"
| "init_apply InitForce op = Some (op\<lparr>io_force := True\<rparr>)"

fun init_item_ok :: "init_item \<Rightarrow> bool" where
  "init_item_ok (InitOpt n v) \<longleftrightarrow> init_kind n = Some False \<and> trim_space v \<noteq> []"
| "init_item_ok (InitOptEq n v) \<longleftrightarrow> init_kind n = Some False \<and> trim_space v \<noteq> []"
| "init_item_ok InitForce \<longleftrightarrow> True"

text \<open>The values given for one name, trimmed, in their order.\<close>

fun init_values :: "string \<Rightarrow> init_item list \<Rightarrow> string list" where
  "init_values n [] = []"
| "init_values n (InitOpt m v # xs) = (if m = n then [trim_space v] else []) @ init_values n xs"
| "init_values n (InitOptEq m v # xs) = (if m = n then [trim_space v] else []) @ init_values n xs"
| "init_values n (InitForce # xs) = init_values n xs"

definition plain_flag :: "string \<Rightarrow> bool" where
  "plain_flag n \<longleftrightarrow> n \<noteq> [] \<and> n \<noteq> ''-'' \<and> n ! 0 \<noteq> CHR ''-'' \<and> n ! 0 \<noteq> CHR ''='' \<and> CHR ''='' \<notin> set n"

lemma plain_split:
  assumes "plain_flag n"
  shows "split_flag n = (n, None)" "split_flag (n @ CHR ''='' # v) = (n, Some v)"
proof -
  obtain x m where n: "n = x # m" using assms by (cases n) (auto simp: plain_flag_def)
  have "index_byte m (CHR ''='') = None" "index_byte (m @ CHR ''='' # v) (CHR ''='') = Some (length m)"
    using assms n by (auto simp: plain_flag_def index_byte_None intro: index_byte_append)
  then show "split_flag n = (n, None)" "split_flag (n @ CHR ''='' # v) = (n, Some v)" by (simp_all add: split_flag_def n)
qed

lemma flags_one_opt:
  assumes "plain_flag n"
  shows "flags_one kind setv (CHR ''-'' # n) as fl = flag_value kind setv n None as fl"
    "flags_one kind setv (CHR ''-'' # CHR ''-'' # n @ CHR ''='' # v) as fl = flag_value kind setv n (Some v) as fl"
proof -
  have p: "n \<noteq> []" "n \<noteq> ''-''" "n ! 0 \<noteq> CHR ''-''" "n ! 0 \<noteq> CHR ''=''" using assms by (simp_all add: plain_flag_def)
  have "\<not> length (CHR ''-'' # n) < 2" "CHR ''-'' # n \<noteq> ''--''" "(CHR ''-'' # n) ! 1 \<noteq> CHR ''-''" "drop 1 (CHR ''-'' # n) = n"
    using p by (auto simp: Suc_le_eq)
  then show "flags_one kind setv (CHR ''-'' # n) as fl = flag_value kind setv n None as fl"
    unfolding flags_one_def Let_def using p plain_split(1) [OF assms] by simp
  let ?m = "n @ CHR ''='' # v"
  have "?m \<noteq> []" "?m ! 0 \<noteq> CHR ''-''" "?m ! 0 \<noteq> CHR ''=''" using p by (auto simp: nth_append)
  then show "flags_one kind setv (CHR ''-'' # CHR ''-'' # ?m) as fl = flag_value kind setv n (Some v) as fl"
    unfolding flags_one_def Let_def using plain_split(2) [OF assms, of v] by simp
qed

lemma init_flag_plain: "init_kind n \<noteq> None \<Longrightarrow> plain_flag n"
  by (auto simp: init_kind_def plain_flag_def split: if_splits)

lemma init_item_parsed:
  assumes "init_item_ok x"
  shows "\<exists>s as op'. init_text x = s # as \<and> init_apply x op = Some op' \<and> flags_one init_kind init_set s (as @ rest) op = Inr (True, op', rest)"
proof -
  have v: "\<exists>op'. init_set n v op = Some op'" if "init_kind n = Some False" "trim_space v \<noteq> []" for n v
    using that by (auto simp: init_kind_def init_set_def str_list_set_def Let_def split: if_splits)
  show ?thesis
  proof (cases x)
    case (InitOpt n w)
    then have n: "init_kind n = Some False" "trim_space w \<noteq> []" using assms by simp_all
    then obtain op' where "init_set n w op = Some op'" using v by blast
    moreover from this have "flag_value init_kind init_set n None (w # rest) op = Inr (True, op', rest)" using n by (simp add: flag_value_def)
    ultimately show ?thesis using InitOpt n flags_one_opt(1) [OF init_flag_plain, of n, where kind = init_kind and setv = init_set] by simp
  next
    case (InitOptEq n w)
    then have n: "init_kind n = Some False" "trim_space w \<noteq> []" using assms by simp_all
    then obtain op' where "init_set n w op = Some op'" using v by blast
    moreover from this have "flag_value init_kind init_set n (Some w) rest op = Inr (True, op', rest)" using n by (simp add: flag_value_def)
    ultimately show ?thesis using InitOptEq n flags_one_opt(2) [OF init_flag_plain, of n, where kind = init_kind and setv = init_set] by simp
  next
    case InitForce
    have k: "init_kind ''force'' = Some True" by (simp add: init_kind_def)
    have "flags_one init_kind init_set ''-force'' rest op = flag_value init_kind init_set ''force'' None rest op"
      using flags_one_opt(1) [OF init_flag_plain, of "''force''"] k by simp
    then show ?thesis using InitForce k by (simp add: flag_value_def init_set_def parse_bool_def)
  qed
qed

lemma init_lists_step:
  assumes "init_apply x op = Some op'"
  shows "io_http op' = io_http op @ init_values ''http'' [x]" "io_tcp op' = io_tcp op @ init_values ''tcp'' [x]"
    "io_udp op' = io_udp op @ init_values ''udp'' [x]" "init_item_ok x \<Longrightarrow> io_allow op' = io_allow op @ init_values ''allow'' [x]"
    "init_item_ok x \<Longrightarrow> io_force op' \<longleftrightarrow> io_force op \<or> x = InitForce"
  using assms by (cases x; auto simp: init_set_def init_kind_def str_list_set_def Let_def split: if_splits)+

lemma init_values_Cons: "init_values n (x # xs) = init_values n [x] @ init_values n xs"
  by (cases x) simp_all

lemma init_parse_items:
  assumes "list_all init_item_ok xs"
  shows "\<exists>op'. (\<forall>rest. flags_parse init_kind init_set (concat (map init_text xs) @ rest) op = flags_parse init_kind init_set rest op') \<and>
     io_http op' = io_http op @ init_values ''http'' xs \<and> io_tcp op' = io_tcp op @ init_values ''tcp'' xs \<and>
     io_udp op' = io_udp op @ init_values ''udp'' xs \<and> io_allow op' = io_allow op @ init_values ''allow'' xs \<and>
     (io_force op' \<longleftrightarrow> io_force op \<or> InitForce \<in> set xs)"
  using assms
proof (induction xs arbitrary: op)
  case (Cons x xs)
  have x: "init_item_ok x" using Cons.prems by simp
  obtain op1 where a: "init_apply x op = Some op1" using init_item_parsed [OF x, of op "[]"] by blast
  have p: "flags_parse init_kind init_set (init_text x @ rest) op = flags_parse init_kind init_set rest op1" for rest
    using init_item_parsed [OF x, of op rest] a by auto
  obtain op2 where "\<forall>rest. flags_parse init_kind init_set (concat (map init_text xs) @ rest) op1 = flags_parse init_kind init_set rest op2"
    "io_http op2 = io_http op1 @ init_values ''http'' xs" "io_tcp op2 = io_tcp op1 @ init_values ''tcp'' xs"
    "io_udp op2 = io_udp op1 @ init_values ''udp'' xs" "io_allow op2 = io_allow op1 @ init_values ''allow'' xs"
    "io_force op2 \<longleftrightarrow> io_force op1 \<or> InitForce \<in> set xs"
    using Cons.IH [of op1] Cons.prems by auto
  then show ?case using p init_lists_step [OF a] x init_values_Cons [of _ x xs] by (intro exI [of _ op2]) auto
qed auto

text \<open>
The flags of init may be repeated. Given any sequence of options, as \<open>-name value\<close> or \<open>--name=value\<close>, with values that are not blank, and switches, every mapping and every network that was given is collected under its name, trimmed and in the order given, the switch counts wherever it stands, and the command does with the files exactly what Init does with these options.
\<close>

theorem init_flags_collected:
  assumes "list_all init_item_ok xs"
  shows "\<exists>op. flags_parse init_kind init_set (concat (map init_text xs)) init_defaults = Inr (op, []) \<and>
     io_http op = init_values ''http'' xs \<and> io_tcp op = init_values ''tcp'' xs \<and> io_udp op = init_values ''udp'' xs \<and>
     io_allow op = init_values ''allow'' xs \<and> (io_force op \<longleftrightarrow> InitForce \<in> set xs) \<and>
     snd (run_init quote cwd mk rnd1 rnd2 flt (concat (map init_text xs)) fs) = snd (init quote cwd mk rnd1 rnd2 flt op fs)"
proof -
  obtain op where o: "\<forall>rest. flags_parse init_kind init_set (concat (map init_text xs) @ rest) init_defaults = flags_parse init_kind init_set rest op"
    "io_http op = init_values ''http'' xs" "io_tcp op = init_values ''tcp'' xs" "io_udp op = init_values ''udp'' xs"
    "io_allow op = init_values ''allow'' xs" "io_force op \<longleftrightarrow> InitForce \<in> set xs"
    using init_parse_items [OF assms, of init_defaults] by (auto simp: init_defaults_def)
  have "flags_parse init_kind init_set (concat (map init_text xs)) init_defaults = Inr (op, [])"
    using o(1) [rule_format, of "[]"] by simp
  then show ?thesis using o(2-) by (auto simp: run_init_def split: sum.split prod.split)
qed

theorem init_flags_collected_witness:
  "\<exists>op. flags_parse init_kind init_set [''-tcp'', ''2222'', ''-force'', ''--http=8080:3000'', ''-tcp'', '' 2223 ''] init_defaults = Inr (op, []) \<and>
     io_tcp op = [''2222'', ''2223''] \<and> io_http op = [''8080:3000''] \<and> io_force op"
proof -
  have t: "trim_space ''2222'' = ''2222''" "trim_space '' 2223 '' = ''2223''" "trim_space ''8080:3000'' = ''8080:3000''" by code_simp+
  show ?thesis
    using init_flags_collected [of "[InitOpt ''tcp'' ''2222'', InitForce, InitOptEq ''http'' ''8080:3000'', InitOpt ''tcp'' '' 2223 '']"
        "\<lambda>s. s" "[]" True None None None "\<lambda>_. FAbsent"]
    by (auto simp: t init_kind_def)
qed

text \<open>A stray word ends the flags: what follows it has no effect, and there is no error.\<close>

lemma init_ignores_rest:
  assumes "list_all init_item_ok xs" "length s < 2 \<or> s ! 0 \<noteq> CHR ''-''"
  shows "run_init quote cwd mk rnd1 rnd2 flt (concat (map init_text xs) @ s # rest) fs =
     run_init quote cwd mk rnd1 rnd2 flt (concat (map init_text xs)) fs"
proof -
  obtain op where o: "\<forall>rest. flags_parse init_kind init_set (concat (map init_text xs) @ rest) init_defaults = flags_parse init_kind init_set rest op"
    using init_parse_items [OF assms(1), of init_defaults] by blast
  have "flags_parse init_kind init_set (s # rest) op = Inr (op, s # rest)" using assms(2) by (auto simp: flags_one_def)
  then show ?thesis using o o [rule_format, of "[]"] by (simp add: run_init_def)
qed

end
