(* ===== verification/YamlNode.thy ===== *)
theory YamlNode
  imports ConfigLoad Metrics
begin

text \<open>
  What the configuration does with single nodes of the YAML document: durations
  (\<open>Duration.UnmarshalYAML\<close> of \<open>internal/config/config.go\<close>, with \<open>time.ParseDuration\<close>) and the
  addresses of a tunnel (\<open>internal/config/addr.go\<close>).

  The YAML library is a parameter: a node is its tag and its text with what the library decodes it
  to as a string, as an integer and as any value. So is the one floating point expression of
  \<open>time.ParseDuration\<close>, the value of a fraction in nanoseconds.
\<close>

section \<open>time.ParseDuration\<close>

datatype duration_error = InvalidDuration | MissingUnit | UnknownUnit string

definition max_duration :: nat where
  "max_duration = 2 ^ 63"

fun leading_int :: "nat \<Rightarrow> string \<Rightarrow> (nat \<times> string) option" where
  "leading_int x [] = Some (x, [])"
| "leading_int x (c # s) =
     (if \<not> is_digit c then Some (x, c # s)
      else if max_duration div 10 < x then None
      else let y = 10 * x + digit_val c in if max_duration < y then None else leading_int y s)"

text \<open>The digits of a fraction as a number and the power of ten below it; digits that do not fit any
  more are skipped.\<close>

fun leading_fraction :: "nat \<Rightarrow> nat \<Rightarrow> bool \<Rightarrow> string \<Rightarrow> nat \<times> nat \<times> string" where
  "leading_fraction x scale over [] = (x, scale, [])"
| "leading_fraction x scale over (c # s) =
     (if \<not> is_digit c then (x, scale, c # s)
      else if over \<or> (max_duration - 1) div 10 < x then leading_fraction x scale True s
      else let y = 10 * x + digit_val c in
        if max_duration < y then leading_fraction x scale True s else leading_fraction y (scale * 10) False s)"

definition unit_nanos :: "string \<Rightarrow> nat option" where
  "unit_nanos u =
     (if u = ''ns'' then Some 1
      else if u \<in> set [''us'', [CHR 0xC2, CHR 0xB5, CHR ''s''], [CHR 0xCE, CHR 0xBC, CHR ''s'']] then Some 1000
      else if u = ''ms'' then Some 1000000
      else if u = ''s'' then Some 1000000000
      else if u = ''m'' then Some 60000000000
      else if u = ''h'' then Some 3600000000000
      else None)"

definition number_char :: "char \<Rightarrow> bool" where
  "number_char c \<longleftrightarrow> c = CHR ''.'' \<or> is_digit c"

text \<open>One number with its unit. \<open>frac\<close> is \<open>uint64(float64(f) * (float64(unit) / scale))\<close>.\<close>

definition duration_item :: "(nat \<Rightarrow> nat \<Rightarrow> nat \<Rightarrow> nat) \<Rightarrow> string \<Rightarrow> duration_error + (nat \<times> string)" where
  "duration_item frac s =
     (if s = [] \<or> \<not> number_char (hd s) then Inl InvalidDuration
      else case leading_int 0 s of
        None \<Rightarrow> Inl InvalidDuration
      | Some (v, s1) \<Rightarrow>
          let pre = length s1 \<noteq> length s;
              (f, scale, s2) = (if s1 \<noteq> [] \<and> hd s1 = CHR ''.'' then leading_fraction 0 1 False (tl s1) else (0, 1, s1));
              post = (s1 \<noteq> [] \<and> hd s1 = CHR ''.'' \<and> length s2 \<noteq> length (tl s1))
          in if \<not> pre \<and> \<not> post then Inl InvalidDuration
             else let u = takeWhile (\<lambda>c. \<not> number_char c) s2; s3 = dropWhile (\<lambda>c. \<not> number_char c) s2 in
               if u = [] then Inl MissingUnit
               else case unit_nanos u of
                 None \<Rightarrow> Inl (UnknownUnit u)
               | Some n \<Rightarrow>
                   if max_duration div n < v then Inl InvalidDuration
                   else let w = (v * n + (if 0 < f then frac f scale n else 0)) mod 2 ^ 64 in
                     if max_duration < w then Inl InvalidDuration else Inr (w, s3))"

lemma leading_int_rest: "leading_int x s = Some (v, s') \<Longrightarrow> length s' \<le> length s"
  by (induction x s rule: leading_int.induct) (auto simp: Let_def split: if_splits)

lemma leading_fraction_rest: "leading_fraction x k b s = (f, scale, s') \<Longrightarrow> length s' \<le> length s"
  by (induction x k b s rule: leading_fraction.induct) (auto simp: Let_def split: if_splits)

lemma duration_item_shorter:
  assumes "duration_item frac s = Inr (w, rest)"
  shows "length rest < length s \<and> w \<le> max_duration"
proof -
  obtain v s1 where l: "leading_int 0 s = Some (v, s1)" using assms by (auto simp: duration_item_def split: if_splits option.splits)
  obtain f scale s2 where q: "(if s1 \<noteq> [] \<and> hd s1 = CHR ''.'' then leading_fraction 0 1 False (tl s1) else (0, 1, s1)) = (f, scale, s2)"
    by (metis prod_cases3)
  have "length (tl s1) \<le> length s1" by simp
  then have "length s2 \<le> length s1" using q leading_fraction_rest [of 0 1 False "tl s1" f scale s2] by (auto split: if_splits)
  then have s2: "length s2 \<le> length s" using leading_int_rest [OF l] by simp
  let ?u = "takeWhile (\<lambda>c. \<not> number_char c) s2" and ?r = "dropWhile (\<lambda>c. \<not> number_char c) s2"
  have "?u \<noteq> [] \<and> rest = ?r \<and> w \<le> max_duration"
    using assms unfolding duration_item_def l option.case prod.case Let_def q by (auto split: if_splits option.splits)
  moreover have "length ?u + length ?r = length s2" by (metis length_append takeWhile_dropWhile_id)
  ultimately show ?thesis using s2 by (cases ?u) auto
qed

text \<open>The sum is a 64 bit word.\<close>

function duration_loop :: "(nat \<Rightarrow> nat \<Rightarrow> nat \<Rightarrow> nat) \<Rightarrow> nat \<Rightarrow> string \<Rightarrow> duration_error + nat" where
  "duration_loop frac d s =
     (if s = [] then Inr d
      else case duration_item frac s of
        Inl e \<Rightarrow> Inl e
      | Inr (v, rest) \<Rightarrow>
          let d' = (d + v) mod 2 ^ 64 in if max_duration < d' then Inl InvalidDuration else duration_loop frac d' rest)"
  by pat_completeness auto
termination by (relation "measure (\<lambda>(frac, d, s). length s)") (auto dest!: sym [of "Inr _"] dest: duration_item_shorter)

declare duration_loop.simps [simp del]

definition parse_duration :: "(nat \<Rightarrow> nat \<Rightarrow> nat \<Rightarrow> nat) \<Rightarrow> string \<Rightarrow> duration_error + int" where
  "parse_duration frac s =
     (let neg = (s \<noteq> [] \<and> hd s = CHR ''-'');
          t = (if s \<noteq> [] \<and> (hd s = CHR ''-'' \<or> hd s = CHR ''+'') then tl s else s) in
      if t = ''0'' then Inr 0
      else if t = [] then Inl InvalidDuration
      else case duration_loop frac 0 t of
        Inl e \<Rightarrow> Inl e
      | Inr d \<Rightarrow> if neg then Inr (- int d) else if max_duration - 1 < d then Inl InvalidDuration else Inr (int d))"

section \<open>Durations of the configuration\<close>

datatype yaml_any = YNil | YString string | YInt int | YFloat "int option" | YOther

text \<open>\<open>yn_kind\<close> is whether there is a node at all (a kind other than zero). \<open>YInt\<close> is any of \<open>int\<close>,
  \<open>int64\<close> and \<open>uint64\<close>; \<open>YFloat\<close> has the integer it equals after conversion to \<open>int64\<close>, if any.\<close>

record yaml_node =
  yn_kind :: bool
  yn_tag :: string
  yn_value :: string
  yn_string :: "string option"
  yn_int :: "int option"
  yn_any :: "yaml_any option"

datatype yaml_error = BadDuration duration_error | NotDecoded | InvalidAddress

definition int64 :: "int \<Rightarrow> int" where
  "int64 n = sint (word_of_int n :: 64 word)"

definition unmarshal_duration :: "(nat \<Rightarrow> nat \<Rightarrow> nat \<Rightarrow> nat) \<Rightarrow> yaml_node option \<Rightarrow> yaml_error + int" where
  "unmarshal_duration frac value =
     (case value of
        None \<Rightarrow> Inr 0
      | Some n \<Rightarrow>
          if yn_tag n = ''!!null'' \<or> trim_space (yn_value n) = [] then Inr 0
          else case yn_string n of
            Some s0 \<Rightarrow>
              let s = trim_space s0 in
              if s = [] \<or> s = ''0'' then Inr 0
              else (case parse_duration frac s of Inl e \<Rightarrow> Inl (BadDuration e) | Inr d \<Rightarrow> Inr d)
          | None \<Rightarrow> (case yn_int n of None \<Rightarrow> Inl NotDecoded | Some k \<Rightarrow> Inr (int64 (k * second))))"

section \<open>Addresses of a tunnel\<close>

definition yaml_node_addr :: "yaml_node option \<Rightarrow> yaml_error + string" where
  "yaml_node_addr value =
     (case value of
        None \<Rightarrow> Inr []
      | Some n \<Rightarrow>
          if \<not> yn_kind n \<or> yn_tag n = ''!!null'' then Inr []
          else case yn_any n of
            None \<Rightarrow> Inl NotDecoded
          | Some YNil \<Rightarrow> Inr []
          | Some (YString s) \<Rightarrow> Inr s
          | Some (YInt k) \<Rightarrow> Inr (int_string k)
          | Some (YFloat (Some k)) \<Rightarrow> Inr (int_string k)
          | Some (YFloat None) \<Rightarrow> Inl InvalidAddress
          | Some YOther \<Rightarrow> Inl InvalidAddress)"

text \<open>\<open>Tunnel.UnmarshalYAML\<close>: the library decodes the node into a tunnel without its addresses and
  their two nodes.\<close>

definition unmarshal_tunnel :: "(tunnel \<times> yaml_node \<times> yaml_node) option \<Rightarrow> yaml_error + tunnel" where
  "unmarshal_tunnel aux =
     (case aux of
        None \<Rightarrow> Inl NotDecoded
      | Some (t, pub, loc) \<Rightarrow>
          (case yaml_node_addr (Some pub) of
             Inl e \<Rightarrow> Inl e
           | Inr p \<Rightarrow> (case yaml_node_addr (Some loc) of Inl e \<Rightarrow> Inl e | Inr l \<Rightarrow> Inr (t\<lparr>t_public := p, t_local := l\<rparr>))))"

section \<open>What is read\<close>

definition duration_units :: "string list" where
  "duration_units = [''ns'', ''us'', ''ms'', ''s'', ''m'', ''h'']"

lemma unit_facts:
  assumes "u \<in> set duration_units"
  shows "u \<noteq> []" "list_all (\<lambda>c. \<not> number_char c) u" "\<exists>n. unit_nanos u = Some n \<and> 0 < n"
  using assms by (auto simp: duration_units_def unit_nanos_def number_char_def is_digit_def)

lemma digits_grow: "(x :: nat) \<le> foldl (\<lambda>v c. 10 * v + digit_val c) x ds"
proof (induction ds arbitrary: x)
  case (Cons c ds)
  have "x \<le> 10 * x + digit_val c" by simp
  also have "\<dots> \<le> foldl (\<lambda>v c. 10 * v + digit_val c) (10 * x + digit_val c) ds" by (rule Cons.IH)
  finally show ?case by simp
qed simp

lemma leading_digits:
  assumes "list_all is_digit ds" "foldl (\<lambda>v c. 10 * v + digit_val c) x ds \<le> max_duration" "s = [] \<or> \<not> is_digit (hd s)"
  shows "leading_int x (ds @ s) = Some (foldl (\<lambda>v c. 10 * v + digit_val c) x ds, s)"
  using assms
proof (induction ds arbitrary: x)
  case Nil
  then show ?case by (cases s) auto
next
  case (Cons c ds)
  let ?y = "10 * x + digit_val c"
  have y: "?y \<le> max_duration" using digits_grow [of ?y ds] Cons.prems(2) by simp
  then have "x \<le> max_duration div 10" by simp
  then show ?case using Cons y by simp
qed

definition render_duration :: "(nat \<times> string) list \<Rightarrow> string" where
  "render_duration xs = concat (map (\<lambda>(n, u). nat_string n @ u) xs)"

definition duration_value :: "(nat \<times> string) list \<Rightarrow> nat" where
  "duration_value xs = sum_list (map (\<lambda>(n, u). n * the (unit_nanos u)) xs)"

lemma render_hd: "render_duration xs = [] \<or> number_char (hd (render_duration xs))"
proof (cases xs)
  case (Cons x ys)
  obtain n u where x: "x = (n, u)" by fastforce
  have "is_digit (hd (nat_string n))" using nat_string_digits [of n] by (cases "nat_string n") auto
  then show ?thesis by (simp add: Cons x render_duration_def number_char_def)
qed (simp add: render_duration_def)

lemma unit_span:
  assumes "list_all (\<lambda>c. \<not> number_char c) u" "s = [] \<or> number_char (hd s)"
  shows "takeWhile (\<lambda>c. \<not> number_char c) (u @ s) = u" "dropWhile (\<lambda>c. \<not> number_char c) (u @ s) = s"
  using assms by (induction u) (cases s, auto)+

lemma item_read:
  assumes "u \<in> set duration_units" "n * the (unit_nanos u) \<le> max_duration" "s = [] \<or> number_char (hd s)"
  shows "duration_item frac (nat_string n @ u @ s) = Inr (n * the (unit_nanos u), s)"
proof -
  obtain k where k: "unit_nanos u = Some k" "0 < k" using unit_facts(3) [OF assms(1)] by blast
  have n: "n \<le> max_duration" "\<not> max_duration div k < n" using assms(2) k
    by (metis One_nat_def Suc_leI le_trans mult.right_neutral mult_le_mono2 option.sel)
      (use assms(2) k in \<open>simp add: not_less less_eq_div_iff_mult_less_eq\<close>)
  have h: "hd (u @ s) = hd u" "\<not> number_char (hd u)" using unit_facts(1,2) [OF assms(1)] by (cases u; simp)+
  have l: "leading_int 0 (nat_string n @ u @ s) = Some (n, u @ s)"
    using leading_digits [of "nat_string n" 0 "u @ s"] n(1) h by (simp add: dec_val_def [symmetric] number_char_def)
  have c: "nat_string n @ u @ s \<noteq> []" "number_char (hd (nat_string n @ u @ s))" "hd (u @ s) \<noteq> CHR ''.''"
    "length (u @ s) \<noteq> length (nat_string n @ u @ s)"
    using render_hd [of "[(n, u)]"] h by (auto simp: render_duration_def number_char_def)
  have m: "(n * k) mod 2 ^ 64 = n * k" using assms(2) k by (simp add: max_duration_def)
  show ?thesis
    using c(1-3) h(2) l unit_facts(1,2) [OF assms(1)] unit_span [of u s] assms(2,3) k n(2) m c(4)
    by (simp add: duration_item_def)
qed

lemma loop_read:
  assumes "list_all (\<lambda>(n, u). u \<in> set duration_units) xs" "d + duration_value xs \<le> max_duration"
  shows "duration_loop frac d (render_duration xs) = Inr (d + duration_value xs)"
  using assms
proof (induction xs arbitrary: d)
  case Nil
  then show ?case by (simp add: render_duration_def duration_value_def duration_loop.simps)
next
  case (Cons x xs)
  obtain n u where x: "x = (n, u)" by fastforce
  let ?v = "n * the (unit_nanos u)"
  have r: "render_duration (x # xs) = nat_string n @ u @ render_duration xs" "duration_value (x # xs) = ?v + duration_value xs"
    by (simp_all add: x render_duration_def duration_value_def)
  have i: "duration_item frac (nat_string n @ u @ render_duration xs) = Inr (?v, render_duration xs)"
    using Cons.prems r(2) render_hd [of xs] by (intro item_read) (auto simp: x)
  have m: "(d + ?v) mod 2 ^ 64 = d + ?v" using Cons.prems(2) r(2) by (simp add: max_duration_def)
  show ?case
    unfolding r using Cons.IH [of "d + ?v"] Cons.prems i m r(2)
    by (subst duration_loop.simps) (simp add: x add.assoc)
qed

lemma duration_loop_bound: "duration_loop frac d s = Inr e \<Longrightarrow> d \<le> max_duration \<Longrightarrow> e \<le> max_duration"
proof (induction frac d s rule: duration_loop.induct)
  case (1 frac d s)
  then show ?case
    by (subst (asm) duration_loop.simps) (auto simp: Let_def split: if_splits sum.splits)
qed

lemma parse_rendered:
  assumes "list_all (\<lambda>(n, u). u \<in> set duration_units) xs" "xs \<noteq> []" "duration_value xs < max_duration"
  shows "parse_duration frac (render_duration xs) = Inr (int (duration_value xs))"
    "parse_duration frac (CHR ''-'' # render_duration xs) = Inr (- int (duration_value xs))"
    "render_duration xs \<noteq> [] \<and> render_duration xs \<noteq> ''0''"
proof -
  obtain n u ys where x: "xs = (n, u) # ys" using assms(2) by (cases xs) auto
  have u: "u \<in> set duration_units" using assms(1) x by simp
  have r: "render_duration xs = nat_string n @ u @ render_duration ys" by (simp add: x render_duration_def)
  have ne: "nat_string n \<noteq> []" "u \<noteq> []" "is_digit (hd (nat_string n))"
    using nat_string_digits [of n] unit_facts(1) [OF u] by (auto simp: list_all_iff)
  have h: "hd (render_duration xs) \<noteq> CHR ''-''" "hd (render_duration xs) \<noteq> CHR ''+''" "render_duration xs \<noteq> []"
    using ne by (auto simp: r is_digit_def)
  have "1 < length (render_duration xs)" unfolding r using ne by (cases "nat_string n"; cases u) auto
  then have z: "render_duration xs \<noteq> ''0''" by auto
  note l = loop_read [OF assms(1), of 0 frac]
  show "parse_duration frac (render_duration xs) = Inr (int (duration_value xs))"
    using h z l assms(3) by (simp add: parse_duration_def Let_def)
  show "parse_duration frac (CHR ''-'' # render_duration xs) = Inr (- int (duration_value xs))"
    using h z l assms(3) by (simp add: parse_duration_def Let_def)
  show "render_duration xs \<noteq> [] \<and> render_duration xs \<noteq> ''0''" using h z by blast
qed

lemma parse_duration_range: "parse_duration frac s = Inr d \<Longrightarrow> - (2 ^ 63) \<le> d \<and> d < 2 ^ 63"
proof -
  assume "parse_duration frac s = Inr d"
  then obtain e t where "duration_loop frac 0 t = Inr e \<and> (d = - int e \<or> d = int e \<and> e \<le> max_duration - 1) \<or> d = 0"
    by (auto simp: parse_duration_def Let_def not_less split: if_splits sum.splits)
  then show "- (2 ^ 63) \<le> d \<and> d < 2 ^ 63"
    using duration_loop_bound [of frac 0 t e] by (auto simp: max_duration_def)
qed

lemma render_solid:
  assumes "list_all (\<lambda>(n, u). u \<in> set duration_units) xs" "xs \<noteq> []"
  shows "trim_space (render_duration xs) = render_duration xs" "trim_space (CHR ''-'' # render_duration xs) = CHR ''-'' # render_duration xs"
proof -
  have ne: "render_duration xs \<noteq> []" "is_digit (hd (render_duration xs))"
  proof -
    obtain n u ys where x: "xs = (n, u) # ys" using assms(2) by (cases xs) auto
    have "nat_string n \<noteq> [] \<and> is_digit (hd (nat_string n))" using nat_string_digits [of n] by (auto simp: list_all_iff)
    then show "render_duration xs \<noteq> []" "is_digit (hd (render_duration xs))" by (simp_all add: x render_duration_def)
  qed
  obtain n u ys where x: "xs = ys @ [(n, u)]" using assms(2) by (cases xs rule: rev_cases) auto
  have u: "u \<in> set duration_units" using assms(1) x by simp
  have l: "last (render_duration xs) = last u" using unit_facts(1) [OF u] by (simp add: x render_duration_def)
  have "\<not> ascii_space (last u) \<and> of_char (last u) < (128 :: nat)" using u by (auto simp: duration_units_def ascii_space_def)
  moreover have "\<not> ascii_space c \<and> of_char c < (128 :: nat)" if "is_digit c" for c using that by (auto simp: is_digit_def ascii_space_def)
  ultimately show "trim_space (render_duration xs) = render_duration xs"
    "trim_space (CHR ''-'' # render_duration xs) = CHR ''-'' # render_duration xs"
    using ne l by (simp_all add: trim_space_solid solid_def ascii_space_def)
qed

lemma int64_range: "- (2 ^ 63) \<le> int64 n \<and> int64 n < 2 ^ 63"
  using sint_greater_eq [of "word_of_int n :: 64 word"] sint_less [of "word_of_int n :: 64 word"] by (simp add: int64_def)

text \<open>
C37: durations are read as they are written. A scalar with any sequence of numbers and units, such as 1h30m, is read as the sum of its parts in nanoseconds, and with a minus sign as its negation, if it fits. Whatever node is accepted, and however it is decoded, the result is in the range of a 64 bit integer.
\<close>

theorem duration_fields_read:
  assumes "list_all (\<lambda>(n, u). u \<in> set duration_units) xs" "xs \<noteq> []" "duration_value xs < max_duration" "yn_tag n \<noteq> ''!!null''"
  shows "unmarshal_duration frac (Some (n\<lparr>yn_value := render_duration xs, yn_string := Some (render_duration xs)\<rparr>)) = Inr (int (duration_value xs)) \<and>
     unmarshal_duration frac (Some (n\<lparr>yn_value := CHR ''-'' # render_duration xs, yn_string := Some (CHR ''-'' # render_duration xs)\<rparr>)) =
       Inr (- int (duration_value xs)) \<and>
     (\<forall>m d. unmarshal_duration frac m = Inr d \<longrightarrow> - (2 ^ 63) \<le> d \<and> d < 2 ^ 63)"
proof -
  note p = parse_rendered(1,2) [OF assms(1-3), of frac] parse_rendered(3) [OF assms(1-3)]
  have z: "render_duration xs \<noteq> []" "render_duration xs \<noteq> ''0''" using p(3) by auto
  have "- (2 ^ 63) \<le> d \<and> d < 2 ^ 63" if "unmarshal_duration frac m = Inr d" for m d
    using that parse_duration_range [of frac _ d] int64_range
    by (auto simp: unmarshal_duration_def Let_def split: option.splits if_splits sum.splits)
  then show ?thesis using assms(4) render_solid [OF assms(1,2)] p z by (simp add: unmarshal_duration_def Let_def)
qed

theorem duration_fields_read_witness:
  "unmarshal_duration (\<lambda>_ _ _. 0) (Some \<lparr>yn_kind = True, yn_tag = ''!!str'', yn_value = ''1h30m'', yn_string = Some ''1h30m'', yn_int = None,
     yn_any = Some (YString ''1h30m'')\<rparr>) = Inr 5400000000000"
proof -
  let ?n = "\<lparr>yn_kind = True, yn_tag = ''!!str'', yn_value = [], yn_string = None, yn_int = None, yn_any = Some (YString ''1h30m'')\<rparr>"
  have n: "nat_string 1 = ''1''" "nat_string 30 = ''30''" by code_simp+
  then have "render_duration [(1, ''h''), (30, ''m'')] = ''1h30m''" by (simp add: render_duration_def)
  moreover have "duration_value [(1, ''h''), (30, ''m'')] = 5400000000000" by (simp add: duration_value_def unit_nanos_def)
  ultimately show ?thesis
    using duration_fields_read [of "[(1, ''h''), (30, ''m'')]" ?n "(\<lambda>_ _ _. 0)"] by (simp add: duration_units_def max_duration_def)
qed

section \<open>Plain numbers\<close>

lemma nat_string_chars:
  "hd (nat_string n) \<noteq> CHR ''-''" "hd (nat_string n) \<noteq> CHR ''+''" "trim_space (nat_string n) = nat_string n"
proof -
  have d: "is_digit (hd (nat_string n))" "is_digit (last (nat_string n))" using nat_string_digits [of n] by (auto simp: list_all_iff)
  then show "hd (nat_string n) \<noteq> CHR ''-''" "hd (nat_string n) \<noteq> CHR ''+''" by (auto simp: is_digit_def)
  have "\<not> ascii_space c \<and> of_char c < (128 :: nat)" if "is_digit c" for c
    using that by (auto simp: is_digit_def ascii_space_def)
  then show "trim_space (nat_string n) = nat_string n" using d by (simp add: trim_space_solid solid_def)
qed

lemma plain_number_fails:
  assumes "0 < n" "n \<le> max_duration"
  shows "parse_duration frac (nat_string n) = Inl MissingUnit"
proof -
  have "leading_int 0 (nat_string n) = Some (n, [])"
    using leading_digits [of "nat_string n" 0 "[]"] assms(2) by (simp add: dec_val_def [symmetric])
  moreover have "number_char (hd (nat_string n))" using nat_string_digits [of n] by (auto simp: list_all_iff number_char_def)
  ultimately have "duration_item frac (nat_string n) = Inl MissingUnit" by (simp add: duration_item_def)
  moreover have "nat_string n \<noteq> ''0''" using nat_string_hd [of n] assms(1) by auto
  ultimately show ?thesis
    using nat_string_chars [of n] by (simp add: parse_duration_def Let_def duration_loop.simps [of frac 0])
qed

text \<open>
C38: a duration needs its unit. The library decodes a scalar into a string as the text it has. So a duration given as a plain positive number is refused for its missing unit; the branch of the code that takes a number for seconds is not reached, whatever the node decodes to as an integer. Nothing, a null and a zero mean zero.
\<close>

theorem plain_seconds_refused:
  assumes "yn_tag n \<noteq> ''!!null''" "yn_value n = nat_string k" "yn_string n = Some (yn_value n)" "k \<le> max_duration"
  shows "unmarshal_duration frac (Some n) = (if k = 0 then Inr 0 else Inl (BadDuration MissingUnit)) \<and>
     unmarshal_duration frac (Some (n\<lparr>yn_tag := ''!!null''\<rparr>)) = Inr 0 \<and> unmarshal_duration frac None = Inr 0"
proof -
  have "nat_string 0 = ''0''" by code_simp
  moreover have "nat_string k \<noteq> ''0''" if "k \<noteq> 0" using nat_string_hd [of k] that by auto
  ultimately show ?thesis
    using assms nat_string_chars(3) [of k] plain_number_fails [of k frac] by (auto simp: unmarshal_duration_def Let_def)
qed

definition scalar_node :: "string \<Rightarrow> int \<Rightarrow> yaml_node" where
  "scalar_node s k = \<lparr>yn_kind = True, yn_tag = ''!!int'', yn_value = s, yn_string = Some s, yn_int = Some k, yn_any = Some (YInt k)\<rparr>"

theorem plain_seconds_refused_witness:
  "unmarshal_duration (\<lambda>_ _ _. 0) (Some (scalar_node ''300'' 300)) = Inl (BadDuration MissingUnit)"
proof -
  have "nat_string 300 = ''300''" by code_simp
  then show ?thesis
    using plain_seconds_refused [of "scalar_node ''300'' 300" 300 "(\<lambda>_ _ _. 0)"] by (simp add: scalar_node_def max_duration_def)
qed

text \<open>
A port may be given as a number. Whether the addresses of a tunnel are written as numbers or as text, the tunnel is the same, and after the defaults it listens on that port of every interface and forwards to that port of the loopback interface; nothing else of the tunnel depends on the two nodes.
\<close>

theorem bare_ports_read:
  assumes "yn_kind p \<and> yn_tag p \<noteq> ''!!null''" "yn_any p \<in> {Some (YInt (int a)), Some (YFloat (Some (int a))), Some (YString (nat_string a))}"
    "yn_kind l \<and> yn_tag l \<noteq> ''!!null''" "yn_any l \<in> {Some (YInt (int b)), Some (YFloat (Some (int b))), Some (YString (nat_string b))}"
    "a \<le> 65535" "b \<le> 65535"
  shows "unmarshal_tunnel (Some (t, p, l)) = Inr (t\<lparr>t_public := nat_string a, t_local := nat_string b\<rparr>) \<and>
     t_public (common_tunnel (t\<lparr>t_public := nat_string a, t_local := nat_string b\<rparr>)) = '':'' @ nat_string a \<and>
     t_local (common_tunnel (t\<lparr>t_public := nat_string a, t_local := nat_string b\<rparr>)) = ''127.0.0.1:'' @ nat_string b"
proof -
  have i: "int_string (int n) = nat_string n" for n by (simp add: int_string_def)
  have q: "is_port (nat_string n)" if "n \<le> 65535" for n
    using that nat_string_chars [of n] nat_string_digits [of n] dec_val_nat_string [of n]
    by (cases "nat_string n") (auto simp: is_port_def atoi_def has_prefix_def Let_def)
  show ?thesis
    using assms q i nat_string_chars(3)
    by (auto simp: unmarshal_tunnel_def yaml_node_addr_def common_tunnel_def infer_type_def expand_addr_def Let_def)
qed

definition example_bare :: tunnel where
  "example_bare = \<lparr>t_name = [], t_type = [], t_public = [], t_tls = False, t_passthrough = False, t_http2 = False,
     t_local = [], t_host = [], t_cert = [], t_key = []\<rparr>"

theorem bare_ports_read_witness:
  "unmarshal_tunnel (Some (example_bare, scalar_node ''22'' 22, scalar_node ''23'' 23)) =
     Inr (example_bare\<lparr>t_public := ''22'', t_local := ''23''\<rparr>)"
proof -
  have n: "nat_string 22 = ''22''" "nat_string 23 = ''23''" by code_simp+
  show ?thesis
    using bare_ports_read [of "scalar_node ''22'' 22" 22 "scalar_node ''23'' 23" 23 example_bare] n by (simp add: scalar_node_def)
qed

end
