(* ===== verification/Spec2Isabelle.thy ===== *)
theory Spec2Isabelle
  imports Netutil AgentUdp ConfigRoute Admin Relay Certs EdgeStart Cli InitGen EdgeLoops AgentLoop
    ConnStack HttpServe EdgeWhole HttpWhole Mains YamlNode
begin

text \<open>
  faketunnel is a reverse tunnel. An Agent inside a private network dials the Edge over TLS,
  authenticates with a shared token and keeps one yamux session open; Edge listens on public TCP,
  HTTP and UDP ports and carries every admitted client to the Agent, which dials the local target.
  Edge guards its ports with an allowlist, a denylist with automatic bans, and session limits; an
  Admin API edits both lists.

  The theories, from the ground up, each with the files under \<open>src/\<close> that it models.

  \<^item> \<open>Prelude\<close>, \<open>Conn\<close>, \<open>GoStrings\<close>: byte and list facts, event runs and the locale of
    invariants that are kept by every event; a connection as what is still to be read and what was
    written; Go's string functions.
  \<^item> \<open>NetAddr\<close>, \<open>NetMask\<close>, \<open>Netutil\<close> (\<open>internal/netutil\<close> and the parts of package \<open>net\<close> it uses):
    parsing and printing of addresses and networks, loopback hosts, the PROXY header.
  \<^item> \<open>Frame\<close>, \<open>Handshake\<close>, \<open>Session\<close> (\<open>internal/tunnel\<close>): the frame codec with its messages, both
    ends of the authentication, the opening of data streams, pings. \<open>ConnStack\<close> (with \<open>internal/netutil\<close>):
    connections wrapped in connections, what resetting and closing them does to the socket.
  \<^item> \<open>DiskFile\<close>, \<open>Ban\<close> (\<open>internal/ban\<close>), \<open>Acl\<close> (\<open>internal/acl\<close>), \<open>Metrics\<close> (\<open>internal/metrics\<close>): the two
    lists with their files, replaced atomically, and the counters.
  \<^item> \<open>Config\<close>, \<open>ConfigLoad\<close>, \<open>ConfigCheck\<close>, \<open>InitGen\<close> (\<open>internal/config\<close>): the configuration record, its
    loading with defaults, paths and secrets, its validation, and the files of the init command.
    \<open>YamlNode\<close>: the two hooks of the YAML decoder, for durations and addresses. \<open>ConfigRoute\<close> connects
    validation to the routing of requests.
  \<^item> \<open>Certs\<close> (\<open>internal/tlsutil\<close>): certificates loaded or generated, and whom an Agent accepts.
  \<^item> \<open>Gate\<close>, \<open>EdgeStart\<close>, \<open>EdgeLoops\<close> (\<open>internal/edge/server.go\<close>): admission, strikes, eviction, the
    current session and the session slots; starting and stopping with all sockets; the accept loops.
    \<open>EdgeWhole\<close>: eviction on all ports, interleaved with clients that arrive and lists that change.
  \<^item> \<open>HttpPeek\<close>, \<open>Relay\<close>, \<open>Dest\<close> (\<open>internal/proxy\<close>) and \<open>HttpRoute\<close> (\<open>internal/edge/http.go\<close>): reading host and
    path before routing, the relay between two connections as a relation on interleaved steps, the
    check of local targets; HTTP listeners and their routing. \<open>HttpServe\<close>: the connections of an
    HTTP port, and the server on one HTTP/1 connection. \<open>HttpWhole\<close>: a request, and a TLS connection that
    is passed through, on their whole way from the validated configuration to the Agent's dial.
  \<^item> \<open>UdpHub\<close>, \<open>EdgeLoops\<close> (\<open>internal/edge/udp.go\<close>) and \<open>AgentUdp\<close> (\<open>internal/agent/udp.go\<close>): associations on both
    ends of a UDP tunnel, the packets of a public UDP port.
  \<^item> \<open>Dest\<close>, \<open>AgentLoop\<close> (\<open>internal/agent/client.go\<close>): the Agent's streams, its connection and its
    reconnecting loop.
  \<^item> \<open>Admin\<close> (\<open>internal/admin\<close>), \<open>Cli\<close> (\<open>cmd/faketunnel/main.go\<close>): the Admin API and its command line.
  \<^item> \<open>Mains\<close> (\<open>cmd/edge\<close>, \<open>cmd/agent\<close>, \<open>cmd/faketunnel/init.go\<close>, \<open>internal/logutil\<close>, \<open>internal/safe\<close>): the
    programs with their flags, from the arguments to the wait for a signal.

  How the code is modelled. A Go struct is a record of the same fields; a method is a function from
  the state before to the result and the state after; an error is a value of a sum. A goroutine that
  loops is a function on one turn or on the list of what its blocking calls return; operations that
  run under one lock are single steps, and what other goroutines do in between is any list of such
  steps, so an invariant of all event lists holds for every schedule. What the operating system
  decides is an argument: the current time in nanoseconds, the outcome of a write to disk, whether a
  listen or a dial succeeds, random bytes. So are the libraries outside the repository: yamux (the
  streams it opens and accepts), TLS and X.509 (whether a chain verifies), SHA-256, the JSON, YAML
  and HPACK decoders, the resolver.

  What the lemmas show. Codecs: every message and every sequence of frames is read back, and only what
  was encoded is accepted. Authentication: an Agent is admitted only with the token, writes it only
  to an Edge it has verified, and both ends agree. Admission: an address reaches a handler, a hub or
  the Agent only if it is not banned and on the list; bans follow one automaton per address, survive a
  restart and evict. Resources: slots, sockets, gauges, connections and files are given back on every
  path, error paths included. Traffic: a TCP client, a UDP client and an HTTP request reach the target
  the configuration names for them, with their bytes in order and unmixed. Configuration: validation
  accepts exactly the well-formed files, and defaults, secrets and certificates are stable under a
  second load. The lemmas that show a defect are beside the definition concerned.

  Interfaces are locales, interpreted on the model's definitions: \<open>machine\<close>, a step function with an
  invariant every event keeps (allowlist, denylist, both ends of UDP, HTTP ports and connections, the
  whole of Edge under eviction); \<open>codec\<close> and \<open>strict_codec\<close>, a
  message format that is read back, and read from nothing but its encodings (the eight message
  types); \<open>blocklist\<close>, what the gate relies on in a store of bans.

  Bounds and termination. All loops are structural or have a measure (what is left to read, the names
  taken, the arguments left); no definition uses fuel. The relay is a relation, and its termination a
  bound on the steps that are left once both connections are closed. Words are used where the code's
  width matters: frame lengths, association ids, masks, bytes. Ids of associations are unique as long
  as fewer than 4294967295 were opened on one hub (\<open>ids_left\<close>).

  Not modelled. The drain at the end of Shutdown only waits, and which goroutine runs next is left open:
  it is the order of the events. The delivery of signals, the printed texts and the log lines are left
  out. The HTTP server, its reverse proxy and the HTTP/2 transport are the Go library's; the model has
  the handler, the director, the listener and the hook they call, and the events by which they do. The
  fixed settings of yamux (\<open>muxConfig\<close>) and of the HTTP servers (time limits, header sizes) are passed to
  these libraries and have no effect in the model.
\<close>

end
